(* ===== verification/Wey_Prelude.thy ===== *)
theory Wey_Prelude
  imports Main "HOL-Library.Word"
begin

text \<open>
  Shared vocabulary of the development: the machine integers of the i386 build (\<open>int\<close>,
  \<open>long\<close>, pointers and \<open>size_t\<close> are 32 bits wide), the alignment macros that the memory
  manager repeats in several files, and the generic facts on words and lists that the
  component theories use. The collection \<open>word_nat\<close> holds the rules that move a goal on
  words to the natural numbers.
\<close>

unbundle bit_operations_syntax

named_theorems word_nat "rules that read words as natural numbers"

named_theorems inv_simps "unfolding rules of the component invariants"

type_synonym u8 = "8 word"
type_synonym u16 = "16 word"
type_synonym u32 = "32 word"
type_synonym u64 = "64 word"
type_synonym addr = "32 word"

subsection \<open>Words as natural numbers\<close>

lemmas [word_nat] = word_less_nat_alt word_le_nat_alt

lemma unat_add_no_wrap:
  fixes a b :: "'a::len word"
  assumes "unat a + unat b < 2 ^ LENGTH('a)"
  shows "unat (a + b) = unat a + unat b"
  using assms by (simp add: unat_word_ariths)

lemma unat_sub_no_wrap:
  fixes a b :: "'a::len word"
  assumes "unat b \<le> unat a"
  shows "unat (a - b) = unat a - unat b"
  using assms by (simp add: unat_sub_if')

lemma unat_ucast_up:
  fixes w :: "'a::len word"
  assumes "LENGTH('a) \<le> LENGTH('b)"
  shows "unat (ucast w :: 'b::len word) = unat w"
proof -
  have "unat w < 2 ^ LENGTH('a)" by simp
  also have "(2::nat) ^ LENGTH('a) \<le> 2 ^ LENGTH('b)"
    using assms by (simp add: power_increasing)
  finally have "unat w < 2 ^ LENGTH('b)" .
  then show ?thesis by (simp add: unsigned_ucast_eq take_bit_nat_eq_self)
qed

lemma unat_ucast_32_64 [simp]: "unat (ucast (w :: 32 word) :: 64 word) = unat w"
  by (rule unat_ucast_up) simp

lemma unat_32_bound [simp]: "unat (w :: 32 word) < 4294967296"
  using unsigned_less [of w, where 'a = nat] by simp

lemma unat_64_bound [simp]: "unat (w :: 64 word) < 18446744073709551616"
  using unsigned_less [of w, where 'a = nat] by simp

lemma unat_8_bound [simp]: "unat (w :: 8 word) < 256"
  using unsigned_less [of w, where 'a = nat] by simp

lemma unat_power_of_two:
  assumes "k < LENGTH('a::len)"
  shows "unat (2 ^ k :: 'a word) = 2 ^ k"
proof -
  have "unat (of_nat (2 ^ k) :: 'a word) = 2 ^ k"
    using assms by (subst unsigned_of_nat) (simp add: take_bit_nat_eq_self)
  then show ?thesis by simp
qed

lemma sint_32_cases:
  fixes p :: "32 word"
  shows "sint p = (if uint p < 2 ^ 31 then uint p else uint p - 2 ^ 32)"
proof -
  have s: "sint p = (uint p + 2 ^ 31) mod 2 ^ 32 - 2 ^ 31"
    by (simp add: sint_uint signed_take_bit_eq_take_bit_shift take_bit_eq_mod)
  have b: "0 \<le> uint p \<and> uint p < 2 ^ 32"
    using uint_lt2p [of p] by simp
  show ?thesis
  proof (cases "uint p < 2 ^ 31")
    case True
    with b s show ?thesis by simp
  next
    case False
    have "(uint p + 2 ^ 31) mod 2 ^ 32 = (uint p - 2 ^ 31) mod (2 ^ 32 :: int)"
      using mod_add_self2 [of "uint p - 2 ^ 31" "2 ^ 32 :: int"] by (simp add: add.commute)
    also have "\<dots> = uint p - 2 ^ 31" using False b by (intro mod_pos_pos_trivial) auto
    finally show ?thesis using False s by simp
  qed
qed

subsection \<open>The alignment macros\<close>

text \<open>
  \<open>ALIGN_UP(v, a)\<close> and \<open>ALIGN_DOWN(v, a)\<close> of \<open>memory/pmm/memblock.c\<close>,
  \<open>memory/heap/page.c\<close>, \<open>memory/vmm/vma.c\<close> and \<open>memory/init.c\<close> (\<open>ALIGN\<close> in
  \<open>memory/vmm/mmu.c\<close>, \<open>memory/heap/kheap.c\<close> and \<open>memory/pmm/earlyalloc.c\<close>), at the
  width of their arguments: the addition wraps.
\<close>

definition ALIGN_UP :: "'a::len word \<Rightarrow> 'a word \<Rightarrow> 'a word" where
  "ALIGN_UP v a = (v + a - 1) AND NOT (a - 1)"

definition ALIGN_DOWN :: "'a::len word \<Rightarrow> 'a word \<Rightarrow> 'a word" where
  "ALIGN_DOWN v a = v AND NOT (a - 1)"

lemma and_not_mask_minus:
  fixes v :: "'a::len word"
  shows "v AND NOT (mask k) = v - take_bit k v"
proof -
  have "v - take_bit k v = v AND NOT (take_bit k v)"
    by (rule disjunctive_diff) (simp add: bit_take_bit_iff)
  also have "\<dots> = v AND NOT (mask k)"
    by (rule bit_eqI) (auto simp: bit_simps)
  finally show ?thesis by simp
qed

lemma unat_and_not_mask:
  fixes v :: "'a::len word"
  shows "unat (v AND NOT (mask k)) = unat v - unat v mod 2 ^ k"
proof -
  have t: "unat (take_bit k v) = unat v mod 2 ^ k"
    unfolding unsigned_take_bit_eq by (rule take_bit_eq_mod)
  then have "unat (take_bit k v) \<le> unat v" by simp
  then show ?thesis by (simp add: and_not_mask_minus unat_sub_no_wrap t)
qed

lemma unat_ALIGN_DOWN:
  fixes v :: "'a::len word"
  shows "unat (ALIGN_DOWN v (2 ^ k)) = unat v - unat v mod 2 ^ k"
  by (simp add: ALIGN_DOWN_def mask_eq_exp_minus_1 [symmetric] unat_and_not_mask)

lemma ALIGN_DOWN_le:
  fixes v :: "'a::len word"
  shows "ALIGN_DOWN v (2 ^ k) \<le> v"
  by (simp add: word_nat unat_ALIGN_DOWN)

lemma ALIGN_DOWN_dvd:
  fixes v :: "'a::len word"
  shows "2 ^ k dvd unat (ALIGN_DOWN v (2 ^ k))"
  by (simp add: unat_ALIGN_DOWN)

lemma unat_ALIGN_UP:
  fixes v :: "'a::len word"
  assumes "k < LENGTH('a)" and "unat v + 2 ^ k - 1 < 2 ^ LENGTH('a)"
  shows "unat (ALIGN_UP v (2 ^ k)) = (unat v + 2 ^ k - 1) - (unat v + 2 ^ k - 1) mod 2 ^ k"
proof -
  have p: "unat (2 ^ k - 1 :: 'a word) = 2 ^ k - 1"
    using assms(1) by (simp add: unat_sub_no_wrap unat_power_of_two)
  have "unat (v + (2 ^ k - 1)) = unat v + 2 ^ k - 1"
    using assms(2) by (subst unat_add_no_wrap) (simp_all add: p)
  then have s: "unat (v + 2 ^ k - 1) = unat v + 2 ^ k - 1"
    by (simp only: add_diff_eq)
  show ?thesis
    unfolding ALIGN_UP_def mask_eq_exp_minus_1 [symmetric] unat_and_not_mask s ..
qed

lemma ALIGN_UP_ge:
  fixes v :: "'a::len word"
  assumes "k < LENGTH('a)" and "unat v + 2 ^ k - 1 < 2 ^ LENGTH('a)"
  shows "v \<le> ALIGN_UP v (2 ^ k)" and "unat (ALIGN_UP v (2 ^ k)) < unat v + 2 ^ k"
    and "2 ^ k dvd unat (ALIGN_UP v (2 ^ k))"
proof -
  let ?s = "unat v + 2 ^ k - 1"
  have m: "?s mod 2 ^ k < 2 ^ k" by simp
  have s: "unat (ALIGN_UP v (2 ^ k)) = ?s - ?s mod 2 ^ k"
    by (rule unat_ALIGN_UP [OF assms])
  have pos: "(1::nat) \<le> 2 ^ k" by simp
  show "v \<le> ALIGN_UP v (2 ^ k)" unfolding word_le_nat_alt s using m pos by linarith
  show "unat (ALIGN_UP v (2 ^ k)) < unat v + 2 ^ k" unfolding s using pos by linarith
  show "2 ^ k dvd unat (ALIGN_UP v (2 ^ k))" unfolding s by (rule dvd_minus_mod)
qed

subsection \<open>Single bits of natural numbers\<close>

lemma div_pow_iff: "x div 2 ^ j = m \<longleftrightarrow> m * 2 ^ j \<le> x \<and> x < m * 2 ^ j + (2 ^ j :: nat)"
proof -
  have "x div 2 ^ j < Suc m \<longleftrightarrow> x < Suc m * 2 ^ j" by (rule div_less_iff_less_mult) simp
  moreover have "x div 2 ^ j < m \<longleftrightarrow> x < m * 2 ^ j" by (rule div_less_iff_less_mult) simp
  ultimately show ?thesis by auto
qed

lemma xor_power_aligned:
  fixes p :: nat
  assumes "2 ^ k dvd p"
  shows "p XOR 2 ^ k = (if odd (p div 2 ^ k) then p - 2 ^ k else p + 2 ^ k)"
proof -
  from assms obtain m where p: "p = 2 ^ k * m" ..
  have "p XOR 2 ^ k = push_bit k m XOR push_bit k (Suc 0)"
    by (simp only: p push_bit_eq_mult mult.commute [of _ "2 ^ k"]) simp
  also have "\<dots> = push_bit k (m XOR Suc 0)" by (simp only: push_bit_xor)
  also have "\<dots> = 2 ^ k * (m XOR Suc 0)" by (simp only: push_bit_eq_mult mult.commute)
  also have "\<dots> = (if odd m then p - 2 ^ k else p + 2 ^ k)"
    unfolding xor_Suc_0_eq p by (simp add: diff_mult_distrib2)
  finally show ?thesis by (simp add: p)
qed

lemma unset_bit_aligned:
  fixes p :: nat
  assumes "2 ^ k dvd p"
  shows "unset_bit k p = (if odd (p div 2 ^ k) then p - 2 ^ k else p)"
proof -
  have e: "int (unset_bit k p) = int p - of_bool (odd (p div 2 ^ k)) * 2 ^ k"
    unfolding of_nat_unset_bit_eq unset_bit_eq bit_of_nat_iff_bit unfolding bit_iff_odd ..
  have le: "2 ^ k \<le> p" if "odd (p div 2 ^ k)"
    using that by (cases "p < 2 ^ k") auto
  show ?thesis
  proof (cases "odd (p div 2 ^ k)")
    case True
    then have "int (unset_bit k p) = int (p - 2 ^ k)" using e le by (simp add: of_nat_diff)
    then have "unset_bit k p = p - 2 ^ k" by (simp only: of_nat_eq_iff)
    then show ?thesis using True by simp
  next
    case False
    then show ?thesis using e by simp
  qed
qed

end
