(* ===== verification/Wey_Errno.thy ===== *)
theory Wey_Errno
  imports Wey_Prelude
begin

text \<open>
  Error codes and error pointers: the codes of \<open>include/uapi/sys/errno.h\<close> that the modelled
  kernel files return, and the encoding of a negative code in a pointer by
  \<open>include/def/errno.h\<close>. The component theories return a kernel result as a value of
  \<open>errno + 'a\<close>: \<open>Inl e\<close> stands for the C value \<open>-e\<close> (or \<open>ERR_PTR(-e)\<close>).
\<close>

datatype errno =
    ENOENT | EIO | ENXIO | EBADF | EAGAIN | ENOMEM | EFAULT | EBUSY | EEXIST
  | ENODEV | EISDIR | EINVAL | EFBIG | ERANGE | ENAMETOOLONG | ENOSYS | ENOTEMPTY
  | ETIME | ENOTSUP | ESHUTDOWN

fun errno_val :: "errno \<Rightarrow> int" where
  "errno_val ENOENT = 2"
| "errno_val EIO = 5"
| "errno_val ENXIO = 6"
| "errno_val EBADF = 9"
| "errno_val EAGAIN = 11"
| "errno_val ENOMEM = 12"
| "errno_val EFAULT = 14"
| "errno_val EBUSY = 16"
| "errno_val EEXIST = 17"
| "errno_val ENODEV = 19"
| "errno_val EISDIR = 21"
| "errno_val EINVAL = 22"
| "errno_val EFBIG = 27"
| "errno_val ERANGE = 34"
| "errno_val ENAMETOOLONG = 36"
| "errno_val ENOSYS = 38"
| "errno_val ENOTEMPTY = 39"
| "errno_val ETIME = 62"
| "errno_val ESHUTDOWN = 108"
| "errno_val ENOTSUP = 134"

definition MAX_ERRNO :: int where
  "MAX_ERRNO = 255"

definition IS_ERR_VALUE :: "addr \<Rightarrow> bool" where
  "IS_ERR_VALUE x \<longleftrightarrow> x \<ge> word_of_int (- MAX_ERRNO)"

definition ERR_PTR :: "int \<Rightarrow> addr" where
  "ERR_PTR error = word_of_int error"

definition PTR_ERR :: "addr \<Rightarrow> int" where
  "PTR_ERR ptr = sint ptr"

definition IS_ERR :: "addr \<Rightarrow> bool" where
  "IS_ERR ptr = IS_ERR_VALUE ptr"

definition IS_ERR_OR_NULL :: "addr \<Rightarrow> bool" where
  "IS_ERR_OR_NULL ptr \<longleftrightarrow> ptr = 0 \<or> IS_ERR_VALUE ptr"

definition PTR_ERR_OR_ZERO :: "addr \<Rightarrow> int" where
  "PTR_ERR_OR_ZERO ptr = (if IS_ERR ptr then PTR_ERR ptr else 0)"

lemma errno_val_range: "1 \<le> errno_val e \<and> errno_val e \<le> MAX_ERRNO"
  by (cases e) (simp_all add: MAX_ERRNO_def)

lemma PTR_ERR_ERR_PTR:
  assumes "- (2 ^ 31) \<le> n" and "n < 2 ^ 31"
  shows "PTR_ERR (ERR_PTR n) = n"
  using assms by (simp add: PTR_ERR_def ERR_PTR_def signed_of_int signed_take_bit_int_eq_self)

lemma IS_ERR_iff: "IS_ERR p \<longleftrightarrow> - MAX_ERRNO \<le> PTR_ERR p \<and> PTR_ERR p < 0"
proof -
  have "IS_ERR p \<longleftrightarrow> 4294967041 \<le> uint p"
    by (simp add: IS_ERR_def IS_ERR_VALUE_def MAX_ERRNO_def word_le_def)
  moreover have "0 \<le> uint p \<and> uint p < 2 ^ 32"
    using uint_lt2p [of p] by simp
  ultimately show ?thesis by (simp add: PTR_ERR_def MAX_ERRNO_def sint_32_cases)
qed

text \<open>
  an error code survives its encoding in a pointer. For every \<open>long\<close> value \<open>n\<close>,
  \<open>PTR_ERR(ERR_PTR(n))\<close> is \<open>n\<close> and \<open>IS_ERR\<close> accepts the pointer exactly when
  \<open>n\<close> lies between \<open>-MAX_ERRNO\<close> and \<open>-1\<close>; every code of the kernel lies there, and
  \<open>PTR_ERR_OR_ZERO\<close> returns it.
\<close>

theorem err_ptr_roundtrip:
  assumes "- (2 ^ 31) \<le> n" and "n < 2 ^ 31"
  shows "PTR_ERR (ERR_PTR n) = n
    \<and> (IS_ERR (ERR_PTR n) \<longleftrightarrow> - MAX_ERRNO \<le> n \<and> n < 0)
    \<and> PTR_ERR_OR_ZERO (ERR_PTR (- errno_val e)) = - errno_val e"
proof -
  have a: "PTR_ERR (ERR_PTR n) = n" by (rule PTR_ERR_ERR_PTR [OF assms])
  have "PTR_ERR (ERR_PTR (- errno_val e)) = - errno_val e"
    using errno_val_range [of e] by (intro PTR_ERR_ERR_PTR) (simp_all add: MAX_ERRNO_def)
  then have "PTR_ERR_OR_ZERO (ERR_PTR (- errno_val e)) = - errno_val e"
    using errno_val_range [of e] by (simp add: PTR_ERR_OR_ZERO_def IS_ERR_iff)
  then show ?thesis by (simp add: IS_ERR_iff a)
qed

theorem err_ptr_roundtrip_witness:
  "IS_ERR (ERR_PTR (- 22)) \<and> PTR_ERR (ERR_PTR (- 22)) = - 22"
  using err_ptr_roundtrip [of "- 22" EINVAL]
  by (simp add: MAX_ERRNO_def)

end
