(* ===== verification/Wey_List.thy ===== *)
theory Wey_List
  imports Wey_Prelude
begin

text \<open>
  The intrusive doubly linked lists of \<open>lib/list.c\<close> and \<open>include/lib/list.h\<close>. A list is a
  ring of \<open>struct list_head\<close> nodes through a head node; the heap is a record of the two
  pointer fields, indexed by the address of the node. \<open>ring h head xs\<close> says that the ring
  through \<open>head\<close> holds exactly the nodes \<open>xs\<close>, in this order. The C operations are shown to
  refine the list operations \<open>Cons\<close>, append and \<open>remove1\<close>, and the locale \<open>list_iface\<close> states
  that contract for the components that keep their queues in such lists; they model a queue
  by the HOL list of its entries, as the refinement justifies.
\<close>

record list_heap =
  nxt :: "addr \<Rightarrow> addr"
  prv :: "addr \<Rightarrow> addr"

abbreviation set_nxt :: "addr \<Rightarrow> addr \<Rightarrow> list_heap \<Rightarrow> list_heap" where
  "set_nxt p v h \<equiv> h\<lparr>nxt := (nxt h)(p := v)\<rparr>"

abbreviation set_prv :: "addr \<Rightarrow> addr \<Rightarrow> list_heap \<Rightarrow> list_heap" where
  "set_prv p v h \<equiv> h\<lparr>prv := (prv h)(p := v)\<rparr>"

definition INIT_LIST_HEAD :: "addr \<Rightarrow> list_heap \<Rightarrow> list_heap" where
  "INIT_LIST_HEAD p h = set_prv p p (set_nxt p p h)"

text \<open>The four stores of \<open>list_add\<close> in the order of the code, each reading the current heap.\<close>

definition list_add :: "addr \<Rightarrow> addr \<Rightarrow> list_heap \<Rightarrow> list_heap" where
  "list_add new head h =
     (let h1 = set_nxt new (nxt h head) h;
          h2 = set_prv new head h1;
          h3 = set_prv (nxt h2 head) new h2
      in set_nxt head new h3)"

definition list_remove :: "addr \<Rightarrow> list_heap \<Rightarrow> list_heap" where
  "list_remove entry h =
     (let h1 = set_prv (nxt h entry) (prv h entry) h;
          h2 = set_nxt (prv h1 entry) (nxt h1 entry) h1;
          h3 = set_nxt entry entry h2
      in set_prv entry entry h3)"

definition list_add_head :: "addr \<Rightarrow> addr \<Rightarrow> list_heap \<Rightarrow> list_heap" where
  "list_add_head new head h = list_add new head h"

definition list_add_tail :: "addr \<Rightarrow> addr \<Rightarrow> list_heap \<Rightarrow> list_heap" where
  "list_add_tail new head h = list_add new (prv h head) h"

definition list_is_head :: "addr \<Rightarrow> addr \<Rightarrow> bool" where
  "list_is_head l head \<longleftrightarrow> l = head"

definition list_empty :: "addr \<Rightarrow> list_heap \<Rightarrow> bool" where
  "list_empty head h \<longleftrightarrow> nxt h head = head"

text \<open>
  \<open>list_for_each\<close>: the nodes visited from \<open>pos\<close> until the walk is back at the head. The
  fuel bounds the walk; a ring of \<open>n\<close> nodes needs \<open>n + 1\<close> (\<open>list_for_each_ring\<close>).
\<close>

fun list_for_each :: "nat \<Rightarrow> addr \<Rightarrow> addr \<Rightarrow> list_heap \<Rightarrow> addr list option" where
  "list_for_each 0 pos head h = None"
| "list_for_each (Suc fuel) pos head h =
     (if list_is_head pos head then Some []
      else map_option (Cons pos) (list_for_each fuel (nxt h pos) head h))"

subsection \<open>Rings\<close>

text \<open>\<open>seg h p xs q\<close>: following \<open>next\<close> from \<open>p\<close> visits \<open>xs\<close> and then reaches \<open>q\<close>, with the
  \<open>prev\<close> pointers of \<open>xs\<close> and \<open>q\<close> leading back.\<close>

fun seg :: "list_heap \<Rightarrow> addr \<Rightarrow> addr list \<Rightarrow> addr \<Rightarrow> bool" where
  "seg h p [] q \<longleftrightarrow> nxt h p = q \<and> prv h q = p"
| "seg h p (x # xs) q \<longleftrightarrow> nxt h p = x \<and> prv h x = p \<and> seg h x xs q"

definition ring :: "list_heap \<Rightarrow> addr \<Rightarrow> addr list \<Rightarrow> bool" where
  "ring h head xs \<longleftrightarrow> distinct (head # xs) \<and> seg h head xs head"

lemma seg_append: "seg h p (xs @ y # ys) q \<longleftrightarrow> seg h p xs y \<and> seg h y ys q"
  by (induction xs arbitrary: p) auto

lemma seg_nxt: "seg h p xs q \<Longrightarrow> nxt h p = (case xs of [] \<Rightarrow> q | x # _ \<Rightarrow> x)"
  by (cases xs) auto

lemma seg_prv: "seg h p xs q \<Longrightarrow> prv h q = (if xs = [] then p else last xs)"
  by (induction xs arbitrary: p) auto

text \<open>A segment depends on the \<open>next\<close> fields of \<open>p\<close> and \<open>xs\<close> and the \<open>prev\<close> fields of
  \<open>xs\<close> and \<open>q\<close> only.\<close>

lemma seg_cong:
  assumes "\<forall>a \<in> insert p (set xs). nxt h' a = nxt h a"
    and "\<forall>a \<in> insert q (set xs). prv h' a = prv h a"
  shows "seg h' p xs q = seg h p xs q"
  using assms by (induction xs arbitrary: p) auto

lemma seg_set_nxt [simp]: "a \<notin> insert p (set xs) \<Longrightarrow> seg (set_nxt a v h) p xs q = seg h p xs q"
  by (rule seg_cong) auto

lemma seg_set_prv [simp]: "a \<notin> insert q (set xs) \<Longrightarrow> seg (set_prv a v h) p xs q = seg h p xs q"
  by (rule seg_cong) auto

lemma ring_INIT_LIST_HEAD: "ring (INIT_LIST_HEAD head h) head []"
  by (simp add: ring_def INIT_LIST_HEAD_def)

lemma ring_list_empty: "ring h head xs \<Longrightarrow> list_empty head h \<longleftrightarrow> xs = []"
  by (cases xs) (auto simp: ring_def list_empty_def)

text \<open>Inserting after any node of a segment: \<open>list_add\<close> links the new node between \<open>p\<close> and
  its successor.\<close>

lemma list_add_fields:
  assumes "new \<noteq> p" and "nxt h p \<noteq> new"
  shows "nxt (list_add new p h) = (nxt h)(new := nxt h p, p := new)"
    and "prv (list_add new p h) = (prv h)(new := p, nxt h p := new)"
  using assms by (auto simp: list_add_def Let_def fun_eq_iff)

lemma list_remove_fields:
  assumes "prv h x \<noteq> x" and "nxt h x \<noteq> x"
  shows "nxt (list_remove x h) = (nxt h)(prv h x := nxt h x, x := x)"
    and "prv (list_remove x h) = (prv h)(nxt h x := prv h x, x := x)"
  using assms by (auto simp: list_remove_def Let_def fun_eq_iff)

lemma ring_list_add:
  assumes r: "ring h head xs" and new: "new \<notin> set (head # xs)"
  shows "ring (list_add new head h) head (new # xs)"
proof -
  have s: "seg h head xs head" and d: "distinct (head # xs)" using r by (auto simp: ring_def)
  have ne: "new \<noteq> head" "nxt h head \<noteq> new"
    using new seg_nxt [OF s] by (auto split: list.splits)
  show ?thesis
  proof (cases xs)
    case Nil
    with s ne show ?thesis by (simp add: ring_def list_add_fields)
  next
    case (Cons x ys)
    then have "seg h x ys head" and "nxt h head = x" using s by auto
    moreover have "seg (list_add new head h) x ys head = seg h x ys head"
      using Cons d new ne \<open>nxt h head = x\<close> by (intro seg_cong) (auto simp: list_add_fields)
    ultimately show ?thesis using Cons d new ne by (auto simp: ring_def list_add_fields)
  qed
qed


text \<open>\<open>list_add_tail\<close> inserts after the last node, whose successor is the head.\<close>

lemma ring_list_add_tail:
  assumes r: "ring h head xs" and new: "new \<notin> set (head # xs)"
  shows "ring (list_add_tail new head h) head (xs @ [new])"
proof (cases xs rule: rev_cases)
  case Nil
  then have "prv h head = head" using r by (simp add: ring_def)
  then show ?thesis using ring_list_add [OF r new] Nil by (simp add: list_add_tail_def)
next
  case (snoc ys y)
  have s: "seg h head ys y" "nxt h y = head" "prv h head = y"
    using r snoc seg_append [of h head ys y "[]" head] by (auto simp: ring_def)
  have d: "distinct (head # ys @ [y, new])" using r new snoc by (auto simp: ring_def)
  have "seg (list_add new y h) head ys y = seg h head ys y"
    using s d by (intro seg_cong) (auto simp: list_add_fields)
  then have "seg (list_add new y h) head (ys @ y # [new]) head"
    unfolding seg_append using s d list_add_fields [of new y h] by auto
  then show ?thesis using d s snoc by (auto simp: ring_def list_add_tail_def)
qed

text \<open>\<open>list_remove\<close> unlinks the entry wherever it stands and leaves it linked to itself.\<close>

lemma seg_list_remove:
  assumes s: "seg h p (ys @ x # zs) q" and d: "distinct (ys @ x # zs)"
    and p: "p \<notin> set (ys @ x # zs)" and q: "q \<notin> set (ys @ x # zs)"
  shows "seg (list_remove x h) p (ys @ zs) q"
proof -
  have a: "seg h p ys x" and b: "seg h x zs q" using s by (simp_all add: seg_append)
  let ?l = "if ys = [] then p else last ys"
  let ?r = "case zs of [] \<Rightarrow> q | z # _ \<Rightarrow> z"
  have l: "prv h x = ?l" by (rule seg_prv [OF a])
  have r: "nxt h x = ?r" by (rule seg_nxt [OF b])
  have ne: "?l \<noteq> x" "?r \<noteq> x" using d p q by (auto split: list.splits)
  have f: "nxt (list_remove x h) = (nxt h)(?l := ?r, x := x)"
    "prv (list_remove x h) = (prv h)(?r := ?l, x := x)"
    using list_remove_fields [of h x] ne unfolding l r by simp_all
  show ?thesis
  proof (cases ys rule: rev_cases)
    case Nil
    show ?thesis
    proof (cases zs)
      case Nil
      with \<open>ys = []\<close> f ne show ?thesis by simp
    next
      case (Cons z zs')
      have "seg (list_remove x h) z zs' q = seg h z zs' q"
        using Cons \<open>ys = []\<close> d p q by (intro seg_cong) (auto simp: f)
      with Cons \<open>ys = []\<close> b f ne show ?thesis by simp
    qed
  next
    case (snoc ys' y)
    have "seg (list_remove x h) p ys' y = seg h p ys' y"
      using snoc d p q by (intro seg_cong) (auto simp: f split: list.splits)
    then have left: "seg (list_remove x h) p ys' y" using a snoc by (simp add: seg_append)
    have right: "seg (list_remove x h) y zs q"
    proof (cases zs)
      case Nil
      with snoc f ne show ?thesis by simp
    next
      case (Cons z zs')
      have "seg (list_remove x h) z zs' q = seg h z zs' q"
        using Cons snoc d p q by (intro seg_cong) (auto simp: f)
      with Cons snoc b f ne show ?thesis by simp
    qed
    from left right show ?thesis using snoc by (simp add: seg_append)
  qed
qed

lemma ring_list_remove:
  assumes r: "ring h head xs" and x: "x \<in> set xs"
  shows "ring (list_remove x h) head (remove1 x xs)"
proof -
  obtain ys zs where xs: "xs = ys @ x # zs" and "x \<notin> set ys"
    using split_list_first [OF x] by blast
  then have "remove1 x xs = ys @ zs" by (simp add: remove1_append)
  then show ?thesis
    using r xs seg_list_remove [of h head ys x zs head] by (auto simp: ring_def)
qed

lemma list_remove_self: "ring (list_remove x h) x []"
  by (simp add: ring_def list_remove_def Let_def)

text \<open>A ring that shares no node with the ring that changes is untouched.\<close>

lemma ring_frame:
  assumes r: "ring h head xs" and "\<forall>a \<in> set (head # xs). nxt h' a = nxt h a \<and> prv h' a = prv h a"
  shows "ring h' head xs"
proof -
  have "seg h' head xs head = seg h head xs head"
    using assms(2) by (intro seg_cong) auto
  with r show ?thesis by (simp add: ring_def)
qed

lemma ring_nxt_prv_in:
  assumes "ring h head xs" and "x \<in> set (head # xs)"
  shows "nxt h x \<in> set (head # xs)" and "prv h x \<in> set (head # xs)"
proof -
  have s: "seg h head xs head" using assms(1) by (simp add: ring_def)
  show "nxt h x \<in> set (head # xs)"
  proof (cases "x = head")
    case True
    with seg_nxt [OF s] show ?thesis by (auto split: list.splits)
  next
    case False
    with assms(2) obtain ys zs where "xs = ys @ x # zs" by (auto dest: split_list)
    with s seg_nxt [of h x zs head] show ?thesis by (auto simp: seg_append split: list.splits)
  qed
  show "prv h x \<in> set (head # xs)"
  proof (cases "x = head")
    case True
    with seg_prv [OF s] show ?thesis by (auto split: if_splits)
  next
    case False
    with assms(2) obtain ys zs where "xs = ys @ x # zs" by (auto dest: split_list)
    with s seg_prv [of h head ys x] show ?thesis by (auto simp: seg_append split: if_splits)
  qed
qed

lemma list_add_frame:
  assumes "ring h head xs" and "p \<in> set (head # xs)" and "a \<notin> set (head # xs)" and "a \<noteq> new"
  shows "nxt (list_add new p h) a = nxt h a \<and> prv (list_add new p h) a = prv h a"
proof -
  have "nxt h p \<in> set (head # xs)" by (rule ring_nxt_prv_in [OF assms(1,2)])
  then show ?thesis using assms by (auto simp: list_add_def Let_def)
qed

lemma list_remove_frame:
  assumes "ring h head xs" and "x \<in> set xs" and "a \<notin> set (head # xs)"
  shows "nxt (list_remove x h) a = nxt h a \<and> prv (list_remove x h) a = prv h a"
proof -
  have "nxt h x \<in> set (head # xs)" "prv h x \<in> set (head # xs)"
    using ring_nxt_prv_in [OF assms(1), of x] assms(2) by auto
  then show ?thesis using assms by (auto simp: list_remove_def Let_def)
qed

lemma list_for_each_seg:
  "seg h p xs head \<Longrightarrow> head \<notin> set xs \<Longrightarrow> length xs < fuel \<Longrightarrow>
   list_for_each fuel (nxt h p) head h = Some xs"
proof (induction xs arbitrary: p fuel)
  case Nil
  then show ?case by (cases fuel) (auto simp: list_is_head_def)
next
  case (Cons x xs)
  then show ?case by (cases fuel) (auto simp: list_is_head_def)
qed

lemma list_for_each_ring:
  "ring h head xs \<Longrightarrow> length xs < fuel \<Longrightarrow> list_for_each fuel (nxt h head) head h = Some xs"
  by (auto simp: ring_def intro: list_for_each_seg)


subsection \<open>The contract of the lists\<close>

text \<open>
  What the queues of the kernel rely on: \<open>holds h head xs\<close> relates a heap to the entries of
  the list at \<open>head\<close>, and every operation acts on \<open>xs\<close> as its name says.
\<close>

locale list_iface =
  fixes holds :: "'h \<Rightarrow> 'p \<Rightarrow> 'p list \<Rightarrow> bool"
    and init :: "'p \<Rightarrow> 'h \<Rightarrow> 'h"
    and add :: "'p \<Rightarrow> 'p \<Rightarrow> 'h \<Rightarrow> 'h"
    and add_tail :: "'p \<Rightarrow> 'p \<Rightarrow> 'h \<Rightarrow> 'h"
    and remove :: "'p \<Rightarrow> 'h \<Rightarrow> 'h"
    and is_empty :: "'p \<Rightarrow> 'h \<Rightarrow> bool"
    and first :: "'p \<Rightarrow> 'h \<Rightarrow> 'p"
  assumes holds_init: "holds (init head h) head []"
    and holds_add: "holds h head xs \<Longrightarrow> x \<notin> set (head # xs) \<Longrightarrow> holds (add x head h) head (x # xs)"
    and holds_add_tail:
      "holds h head xs \<Longrightarrow> x \<notin> set (head # xs) \<Longrightarrow> holds (add_tail x head h) head (xs @ [x])"
    and holds_remove:
      "holds h head xs \<Longrightarrow> x \<in> set xs \<Longrightarrow> holds (remove x h) head (remove1 x xs)"
    and holds_empty: "holds h head xs \<Longrightarrow> is_empty head h \<longleftrightarrow> xs = []"
    and holds_first: "holds h head (x # xs) \<Longrightarrow> first head h = x"
begin

primrec enqueue_all :: "'p list \<Rightarrow> 'p \<Rightarrow> 'h \<Rightarrow> 'h" where
  "enqueue_all [] head h = h"
| "enqueue_all (x # xs) head h = enqueue_all xs head (add_tail x head h)"

primrec dequeue_n :: "nat \<Rightarrow> 'p \<Rightarrow> 'h \<Rightarrow> 'p list \<times> 'h" where
  "dequeue_n 0 head h = ([], h)"
| "dequeue_n (Suc n) head h =
     (let x = first head h; (ys, h') = dequeue_n n head (remove x h) in (x # ys, h'))"

lemma holds_add_remove:
  "holds h head xs \<Longrightarrow> x \<notin> set (head # xs) \<Longrightarrow> holds (remove x (add x head h)) head xs"
  using holds_remove [OF holds_add, of h head xs x x] by simp

lemma holds_enqueue_all:
  "holds h head xs \<Longrightarrow> distinct ys \<Longrightarrow> set ys \<inter> set (head # xs) = {} \<Longrightarrow>
   holds (enqueue_all ys head h) head (xs @ ys)"
proof (induction ys arbitrary: h xs)
  case Nil
  then show ?case by simp
next
  case (Cons y ys)
  have "holds (add_tail y head h) head (xs @ [y])"
    using Cons.prems by (intro holds_add_tail) auto
  then show ?case using Cons.IH [of "add_tail y head h" "xs @ [y]"] Cons.prems by auto
qed

lemma dequeue_n_take:
  "holds h head (xs @ ys) \<Longrightarrow>
   fst (dequeue_n (length xs) head h) = xs \<and> holds (snd (dequeue_n (length xs) head h)) head ys"
proof (induction xs arbitrary: h)
  case Nil
  then show ?case by simp
next
  case (Cons x xs)
  have f: "first head h = x" using Cons.prems holds_first by simp
  have "holds (remove x h) head (xs @ ys)" using holds_remove [OF Cons.prems, of x] by simp
  with Cons.IH [of "remove x h"] f show ?case by (auto simp: Let_def split: prod.splits)
qed

text \<open>First in, first out: what is enqueued on an initialised list leaves in the same order.\<close>

lemma fifo:
  assumes "distinct ys" and "head \<notin> set ys"
  shows "fst (dequeue_n (length ys) head (enqueue_all ys head (init head h))) = ys"
proof -
  have "holds (enqueue_all ys head (init head h)) head (ys @ [])"
    using holds_enqueue_all [OF holds_init, of ys head h] assms by auto
  then show ?thesis by (blast dest: dequeue_n_take)
qed

end

definition list_first :: "addr \<Rightarrow> list_heap \<Rightarrow> addr" where
  "list_first head h = nxt h head"

lemma ring_list_first: "ring h head (x # xs) \<Longrightarrow> list_first head h = x"
  by (simp add: ring_def list_first_def)

interpretation klist: list_iface ring INIT_LIST_HEAD list_add list_add_tail list_remove list_empty list_first
  by unfold_locales
    (auto intro: ring_INIT_LIST_HEAD ring_list_add ring_list_add_tail ring_list_remove
      ring_list_first simp: ring_list_empty)




text \<open>
  list operations do not disturb other lists. Inserting into or removing from one ring
  leaves every ring with other nodes exactly as it was.
\<close>

theorem list_ops_frame:
  assumes "ring h head xs" and "ring h other ys" and "set (head # xs) \<inter> set (other # ys) = {}"
    and "new \<notin> set (other # ys)" and "x \<in> set xs"
  shows "ring (list_add new head h) other ys \<and> ring (list_add_tail new head h) other ys
    \<and> ring (list_remove x h) other ys"
proof -
  have tl: "prv h head \<in> set (head # xs)" using ring_nxt_prv_in [OF assms(1), of head] by simp
  have hd: "head \<in> set (head # xs)" by simp
  have out: "a \<notin> set (head # xs) \<and> a \<noteq> new" if "a \<in> set (other # ys)" for a
    using that assms(3,4) by blast
  have "ring (list_add new head h) other ys"
    using out by (intro ring_frame [OF assms(2)] ballI list_add_frame [OF assms(1) hd]) simp_all
  moreover have "ring (list_add_tail new head h) other ys"
    unfolding list_add_tail_def
    using out by (intro ring_frame [OF assms(2)] ballI list_add_frame [OF assms(1) tl]) simp_all
  moreover have "ring (list_remove x h) other ys"
    using out by (intro ring_frame [OF assms(2)] ballI list_remove_frame [OF assms(1,5)]) simp_all
  ultimately show ?thesis by blast
qed

theorem list_ops_frame_witness:
  "\<exists>h. ring h 1 [2] \<and> ring h 7 [8] \<and> ring (list_remove 2 h) 7 [8]"
proof -
  let ?e = "\<lparr>nxt = (\<lambda>_. 0), prv = (\<lambda>_. 0)\<rparr>"
  let ?h = "list_add 2 1 (INIT_LIST_HEAD 1 (list_add 8 7 (INIT_LIST_HEAD 7 ?e)))"
  have "ring ?h 1 [2]" "ring ?h 7 [8]" by (simp_all add: ring_def list_add_def INIT_LIST_HEAD_def)
  then show ?thesis using list_ops_frame [of ?h 1 "[2]" 7 "[8]" 3 2] by auto
qed

end
