(* ===== verification/Wey_Div64.thy ===== *)
theory Wey_Div64
  imports Wey_Prelude
begin

text \<open>
  64-by-32 bit division: the shift-and-subtract loop \<open>__do_div_generic\<close> of \<open>lib/div64.c\<close> and
  the \<open>divl\<close> version \<open>__do_div_arch\<close> of \<open>arch/i386/include/asm/div64.h\<close> that \<open>do_div\<close> names
  on this architecture. Both store the quotient in \<open>*n\<close> and return the remainder.
\<close>

text \<open>The loop runs \<open>i\<close> from 63 down to 0; the argument is the number of bits still to do.\<close>

fun do_div_loop :: "nat \<Rightarrow> u64 \<Rightarrow> u32 \<Rightarrow> u64 \<Rightarrow> u64 \<Rightarrow> u64 \<times> u64" where
  "do_div_loop 0 dividend base quot rmd = (quot, rmd)"
| "do_div_loop (Suc i) dividend base quot rmd =
     (let r = push_bit 1 rmd OR (drop_bit i dividend AND 1)
      in if r \<ge> ucast base
         then do_div_loop i dividend base (quot OR push_bit i 1) (r - ucast base)
         else do_div_loop i dividend base quot r)"

definition do_div_generic :: "u64 \<Rightarrow> u32 \<Rightarrow> u64 \<times> u32" where
  "do_div_generic n base =
     (let (quot, rmd) = do_div_loop 64 n base 0 0 in (quot, ucast rmd))"

text \<open>
  The instruction \<open>divl\<close> divides the 64-bit value of \<open>edx:eax\<close> and raises the divide error
  when the divisor is 0 or the quotient does not fit in 32 bits: \<open>None\<close>.
\<close>

definition do_div_arch :: "u64 \<Rightarrow> u32 \<Rightarrow> (u64 \<times> u32) option" where
  "do_div_arch n base =
     (let low = (ucast n :: u32); high = (ucast (drop_bit 32 n) :: u32);
          dividend = unat high * 2 ^ 32 + unat low
      in if base = 0 \<or> dividend div unat base \<ge> 2 ^ 32 then None
         else Some (of_nat (dividend div unat base), of_nat (dividend mod unat base)))"

subsection \<open>The loop computes quotient and remainder\<close>

lemma drop_bit_Suc_nat: "(n::nat) div 2 ^ i = 2 * (n div 2 ^ Suc i) + n div 2 ^ i mod 2"
proof -
  have "n div 2 ^ Suc i = n div 2 ^ i div 2" by (metis div_mult2_eq power_Suc2)
  then show ?thesis by presburger
qed

lemma unat_next_bit: "unat (drop_bit i (d :: u64) AND 1) = unat d div 2 ^ i mod 2"
proof -
  have "unat (drop_bit i d AND 1) = unat (drop_bit i d) mod 2"
    by (simp only: and_one_eq unat_mod) simp
  also have "unat (drop_bit i d) = unat d div 2 ^ i"
    unfolding unat_drop_bit_eq by (rule drop_bit_eq_div)
  finally show ?thesis .
qed

lemma unat_shift_in:
  fixes r b :: u64
  assumes "unat r < 2 ^ 63" and "unat b < 2"
  shows "unat (push_bit 1 r OR b) = 2 * unat r + unat b"
proof -
  have b: "b = 0 \<or> b = 1" using assms(2) by (auto simp: word_unat_eq_iff less_2_cases_iff)
  have "push_bit 1 r AND b = 0"
    using b by (auto simp: bit_simps bit_1_iff simp del: push_bit_Suc push_bit_of_1 intro!: bit_eqI)
  then have "push_bit 1 r OR b = push_bit 1 r + b" by (simp only: disjunctive_add_eq_or)
  moreover have "unat (push_bit 1 r) = 2 * unat r"
    using assms(1) by (simp add: push_bit_eq_mult unat_word_ariths)
  ultimately show ?thesis using assms by (simp add: unat_word_ariths)
qed

lemma or_new_bit:
  fixes q :: u64
  assumes "unat q = k * 2 ^ Suc i" and "i < 64"
  shows "unat (q OR push_bit i 1) = (2 * k + 1) * 2 ^ i"
proof -
  have lt: "k * 2 ^ Suc i < 2 ^ 64" using assms(1) unat_64_bound [of q] by simp
  have "k * 2 ^ Suc i div 2 ^ i = 2 * k" by simp
  then have "\<not> bit (unat q) i" unfolding assms(1) bit_iff_odd by simp
  then have "\<not> bit q i" by (simp add: bit_unsigned_iff)
  then have "q AND push_bit i 1 = 0"
    by (auto simp: bit_simps intro!: bit_eqI)
  then have eq: "q OR push_bit i 1 = q + push_bit i 1" by (simp only: disjunctive_add_eq_or)
  have p: "unat (push_bit i 1 :: u64) = 2 ^ i"
    using assms(2) unat_power_of_two [of i, where 'a = 64] by (simp add: push_bit_eq_mult)
  have e: "(2::nat) ^ 64 = 2 ^ (63 - i) * 2 ^ Suc i"
    using assms(2) by (simp only: power_add [symmetric]) simp
  have "k < 2 ^ (63 - i)" using lt unfolding e mult_less_cancel2 by blast
  then have "Suc k * 2 ^ Suc i \<le> 2 ^ 64" unfolding e by (intro mult_le_mono1) simp
  moreover have "k * 2 ^ Suc i + 2 ^ i < Suc k * 2 ^ Suc i" by simp
  ultimately have "unat q + unat (push_bit i 1 :: u64) < 2 ^ 64"
    unfolding p assms(1) by (rule less_le_trans [rotated])
  then have "unat (q + push_bit i 1) = unat q + unat (push_bit i 1 :: u64)"
    by (intro unat_add_no_wrap) simp
  also have "\<dots> = (2 * k + 1) * 2 ^ i" unfolding p assms(1) by simp
  finally show ?thesis unfolding eq .
qed

text \<open>
  One turn of the loop on natural numbers: \<open>D\<close> is the part of the dividend already brought
  down, \<open>e\<close> the next bit.
\<close>

lemma long_division_step:
  fixes D b e :: nat
  assumes "0 < b" and "e < 2"
  shows "(if b \<le> 2 * (D mod b) + e
          then (2 * D + e) div b = 2 * (D div b) + 1 \<and> (2 * D + e) mod b = 2 * (D mod b) + e - b
          else (2 * D + e) div b = 2 * (D div b) \<and> (2 * D + e) mod b = 2 * (D mod b) + e)"
proof -
  let ?r = "2 * (D mod b) + e"
  have m: "D mod b < b" using assms(1) by simp
  have D: "2 * D + e = ?r + b * (2 * (D div b))"
    unfolding mult.left_commute [of b 2] using mult_div_mod_eq [of b D] by linarith
  show ?thesis
  proof (cases "b \<le> ?r")
    case True
    have D': "2 * D + e = (?r - b) + b * (2 * (D div b) + 1)"
      using D True by (simp add: algebra_simps)
    have "?r - b < b" using m assms(2) True by linarith
    then have "(2 * D + e) div b = 2 * (D div b) + 1" "(2 * D + e) mod b = ?r - b"
      unfolding D' using assms(1) by (simp_all only: div_mult_self2 mod_mult_self2 div_less mod_less)
    then show ?thesis using True by simp
  next
    case False
    then have "(2 * D + e) div b = 2 * (D div b)" "(2 * D + e) mod b = ?r"
      unfolding D using assms(1) by simp_all
    then show ?thesis using False by simp
  qed
qed

lemma do_div_loop_correct:
  assumes "base \<noteq> 0" and "i \<le> 64"
    and "unat r = (unat d div 2 ^ i) mod unat base"
    and "unat q = (unat d div 2 ^ i) div unat base * 2 ^ i"
  shows "do_div_loop i d base q r = (d div ucast base, d mod ucast base)"
  using assms(2-)
proof (induction i arbitrary: q r)
  case 0
  then show ?case by (simp add: word_unat_eq_iff unat_div unat_mod)
next
  case (Suc i)
  let ?b = "unat base" and ?D = "unat d div 2 ^ Suc i" and ?e = "unat d div 2 ^ i mod 2"
  define r' where "r' = push_bit 1 r OR (drop_bit i d AND 1)"
  have b: "0 < ?b" using assms(1) by (simp add: unat_gt_0)
  have "unat r < ?b" using Suc.prems(2) b by simp
  then have "unat r < 4294967296" by (rule less_trans) (rule unat_32_bound)
  then have "unat r < 2 ^ 63" by simp
  then have r': "unat r' = 2 * (?D mod ?b) + ?e"
    unfolding r'_def Suc.prems(2) [symmetric] unat_next_bit [symmetric]
    by (rule unat_shift_in) (unfold unat_next_bit, rule mod_less_divisor, simp)
  have D: "unat d div 2 ^ i = 2 * ?D + ?e" by (rule drop_bit_Suc_nat)
  have "?e < 2" by simp
  note step = long_division_step [OF b this, of ?D, folded D r']
  show ?case
  proof (cases "ucast base \<le> r'")
    case True
    then have le: "?b \<le> unat r'" by (simp add: word_le_nat_alt)
    have dm: "unat d div 2 ^ i div ?b = 2 * (?D div ?b) + 1" "unat d div 2 ^ i mod ?b = unat r' - ?b"
      using step unfolding if_P [OF le] by blast+
    have "do_div_loop i d base (q OR push_bit i 1) (r' - ucast base) = (d div ucast base, d mod ucast base)"
    proof (rule Suc.IH)
      show "i \<le> 64" using Suc.prems(1) by simp
      show "unat (r' - ucast base) = unat d div 2 ^ i mod ?b"
        unfolding dm using le by (simp add: unat_sub_no_wrap)
      show "unat (q OR push_bit i 1) = unat d div 2 ^ i div ?b * 2 ^ i"
        unfolding dm using Suc.prems(1) by (intro or_new_bit Suc.prems(3)) simp
    qed
    with True show ?thesis unfolding do_div_loop.simps(2) Let_def r'_def [symmetric] by (simp only: if_True)
  next
    case False
    then have "\<not> ?b \<le> unat r'" by (simp add: word_le_nat_alt)
    then have dm: "unat d div 2 ^ i div ?b = 2 * (?D div ?b)" "unat d div 2 ^ i mod ?b = unat r'"
      using step by (simp_all only: if_False)
    have "do_div_loop i d base q r' = (d div ucast base, d mod ucast base)"
    proof (rule Suc.IH)
      show "i \<le> 64" using Suc.prems(1) by simp
      show "unat r' = unat d div 2 ^ i mod ?b" by (simp only: dm)
      show "unat q = unat d div 2 ^ i div ?b * 2 ^ i" unfolding dm Suc.prems(3) by simp
    qed
    with False show ?thesis unfolding do_div_loop.simps(2) Let_def r'_def [symmetric] by (simp only: if_False)
  qed
qed

lemma unat_ucast_base: "unat (ucast (base :: u32) :: u64) = unat base"
  by simp

lemma do_div_arch_dividend:
  "unat (ucast (drop_bit 32 (n :: u64)) :: u32) * 2 ^ 32 + unat (ucast n :: u32) = unat n"
proof -
  have "unat n div 2 ^ 32 < 2 ^ 32" using unat_64_bound [of n] by (simp add: div_less_iff_less_mult)
  then have "unat (ucast (drop_bit 32 n) :: u32) = unat n div 2 ^ 32"
    by (simp add: unsigned_ucast_eq take_bit_eq_mod drop_bit_eq_div unat_div)
  moreover have "unat (ucast n :: u32) = unat n mod 2 ^ 32"
    by (simp only: unsigned_ucast_eq take_bit_eq_mod) simp
  ultimately show ?thesis by (simp only: div_mult_mod_eq)
qed

text \<open>
  C10. For every non-zero divisor the shift-and-subtract loop stores the 64-bit quotient in
  \<open>*n\<close> and returns the remainder; the remainder is below the divisor, so its truncation to
  32 bits loses nothing.
\<close>

theorem do_div_generic_correct:
  assumes "base \<noteq> 0"
  shows "\<exists>rm. do_div_generic n base = (n div ucast base, rm) \<and> unat rm = unat n mod unat base
    \<and> unat n = unat (fst (do_div_generic n base)) * unat base + unat rm"
proof -
  have eq: "do_div_generic n base = (n div ucast base, ucast (n mod ucast base))"
    using do_div_loop_correct [of base 64 0 n 0] assms unat_64_bound [of n]
    by (simp add: do_div_generic_def)
  have "0 < unat base" using assms by (simp add: unat_gt_0)
  then have "unat n mod unat base < 2 ^ 32"
    by (intro less_trans [OF mod_less_divisor]) simp_all
  then have "unat (ucast (n mod ucast base) :: u32) = unat n mod unat base"
    by (simp add: unsigned_ucast_eq unat_mod take_bit_nat_eq_self)
  then show ?thesis unfolding eq by (simp add: unat_div)
qed

theorem do_div_generic_correct_witness:
  "(1000 :: u32) \<noteq> 0 \<and> fst (do_div_generic (2 ^ 40 + 7) 1000) = (2 ^ 40 + 7) div 1000
   \<and> unat (snd (do_div_generic (2 ^ 40 + 7) 1000)) = 783"
  using do_div_generic_correct [of 1000 "2 ^ 40 + 7"] by auto

text \<open>
  The \<open>divl\<close> version returns exactly when the high half of the dividend is below the
  divisor, and then it agrees with the generic loop; otherwise the processor raises the divide
  error. So \<open>do_div\<close> on this architecture is only a partial version of the generic routine.
\<close>

theorem do_div_arch_refines_generic:
  "do_div_arch n base =
     (if unat n div 2 ^ 32 < unat base then Some (do_div_generic n base) else None)"
proof (cases "base = 0")
  case True
  then show ?thesis by (simp add: do_div_arch_def)
next
  case False
  then have b: "0 < unat base" by (simp add: unat_gt_0)
  have eq: "do_div_generic n base = (n div ucast base, ucast (n mod ucast base))"
    using do_div_loop_correct [of base 64 0 n 0] False unat_64_bound [of n]
    by (simp add: do_div_generic_def)
  have fits: "unat n div unat base < 2 ^ 32 \<longleftrightarrow> unat n div 2 ^ 32 < unat base"
    using b by (simp add: div_less_iff_less_mult mult.commute)
  have "unat n div unat base < 18446744073709551616"
    by (rule le_less_trans [OF div_le_dividend unat_64_bound])
  then show ?thesis
    unfolding do_div_arch_def Let_def do_div_arch_dividend eq not_less [symmetric] fits
    using False by (simp add: word_unat_eq_iff unat_div unat_mod unsigned_ucast_eq unsigned_of_nat take_bit_nat_eq_self take_bit_eq_mod)
qed

end
