(* ===== verification/Wey_Config.thy ===== *)
theory Wey_Config
  imports Wey_Prelude
begin

text \<open>
  The constants of \<open>include/def/config.h\<close> and \<open>arch-config.h\<close>: page size, kernel address-space
  layout and the limits of the tables. Layout constants are integers, because the C constant
  \<open>KERNEL_VIRT_END\<close> does not fit in 32 bits and the expressions built from it are 64 bits wide.
\<close>

named_theorems config_defs

definition PAGE_SIZE :: int where
  [config_defs]: "PAGE_SIZE = 0x1000"

definition PAGE_SHIFT :: nat where
  [config_defs]: "PAGE_SHIFT = 12"

definition MiB :: "int \<Rightarrow> int" where
  [config_defs]: "MiB x = x * 1048576"

definition KERNEL_VIRT_BASE :: int where
  [config_defs]: "KERNEL_VIRT_BASE = 0xC0000000"

definition KERNEL_VIRT_END :: int where
  [config_defs]: "KERNEL_VIRT_END = 0x100000000"

definition KERNEL_NONLINEAR_SIZE :: int where
  [config_defs]: "KERNEL_NONLINEAR_SIZE = MiB 32"

definition KERNEL_HIGHMEM_SIZE :: int where
  [config_defs]: "KERNEL_HIGHMEM_SIZE = MiB 16"

definition KERNEL_VMEMMAP_SIZE :: int where
  [config_defs]: "KERNEL_VMEMMAP_SIZE = MiB 32"

definition KERNEL_FIXEDMAP_SIZE :: int where
  [config_defs]: "KERNEL_FIXEDMAP_SIZE = MiB 8"

definition KERNEL_DIRECTMAP_SIZE :: int where
  [config_defs]: "KERNEL_DIRECTMAP_SIZE = (KERNEL_VIRT_END - KERNEL_VIRT_BASE)
     - (KERNEL_HIGHMEM_SIZE + KERNEL_FIXEDMAP_SIZE + KERNEL_NONLINEAR_SIZE + KERNEL_VMEMMAP_SIZE)"

definition KERNEL_DIRECTMAP_START :: int where
  [config_defs]: "KERNEL_DIRECTMAP_START = KERNEL_VIRT_BASE"

definition KERNEL_DIRECTMAP_END :: int where
  [config_defs]: "KERNEL_DIRECTMAP_END = KERNEL_DIRECTMAP_START + KERNEL_DIRECTMAP_SIZE - 1"

definition KERNEL_FIXEDMAP_START :: int where
  [config_defs]: "KERNEL_FIXEDMAP_START = KERNEL_DIRECTMAP_END + 1"

definition KERNEL_FIXEDMAP_END :: int where
  [config_defs]: "KERNEL_FIXEDMAP_END = KERNEL_FIXEDMAP_START + KERNEL_FIXEDMAP_SIZE - 1"

definition KERNEL_VMEMMAP_START :: int where
  [config_defs]: "KERNEL_VMEMMAP_START = KERNEL_FIXEDMAP_END + 1"

definition KERNEL_VMEMMAP_END :: int where
  [config_defs]: "KERNEL_VMEMMAP_END = KERNEL_VMEMMAP_START + KERNEL_VMEMMAP_SIZE - 1"

definition KERNEL_HIGHMEM_START :: int where
  [config_defs]: "KERNEL_HIGHMEM_START = KERNEL_VMEMMAP_END + 1"

definition KERNEL_HIGHMEM_END :: int where
  [config_defs]: "KERNEL_HIGHMEM_END = KERNEL_HIGHMEM_START + KERNEL_HIGHMEM_SIZE - 1"

definition KERNEL_NONLINEAR_START :: int where
  [config_defs]: "KERNEL_NONLINEAR_START = KERNEL_HIGHMEM_END"

definition KERNEL_NONLINEAR_END :: int where
  [config_defs]: "KERNEL_NONLINEAR_END = KERNEL_NONLINEAR_START + KERNEL_NONLINEAR_SIZE - 1"

definition PATH_MAX :: nat where
  [config_defs]: "PATH_MAX = 128"

definition PROC_MAX :: nat where
  [config_defs]: "PROC_MAX = 32"

definition PROC_FD_MAX :: nat where
  [config_defs]: "PROC_FD_MAX = 16"

definition USER_SPACE_END :: addr where
  [config_defs]: "USER_SPACE_END = 0xBFFFFFFF"

text \<open>
  The kernel windows follow each other without overlap from \<open>KERNEL_VIRT_BASE\<close> on, up to
  the last one: the non-linear window starts on the last byte of the highmem window, shares
  exactly that byte with it, and ends one byte short of the top of the address space.
\<close>

theorem kernel_layout:
  "KERNEL_DIRECTMAP_START < KERNEL_DIRECTMAP_END \<and> KERNEL_DIRECTMAP_END < KERNEL_FIXEDMAP_START
   \<and> KERNEL_FIXEDMAP_END < KERNEL_VMEMMAP_START \<and> KERNEL_VMEMMAP_END < KERNEL_HIGHMEM_START
   \<and> {KERNEL_HIGHMEM_START..KERNEL_HIGHMEM_END} \<inter> {KERNEL_NONLINEAR_START..KERNEL_NONLINEAR_END}
       = {KERNEL_HIGHMEM_END}
   \<and> KERNEL_NONLINEAR_END = KERNEL_VIRT_END - 2"
  unfolding config_defs by auto

end
