(* ===== verification/Wey_String.thy ===== *)
theory Wey_String
  imports Wey_Prelude
begin

text \<open>
  The byte and string routines of \<open>lib/string.c\<close> on a byte memory. Pointers are 32-bit words and
  wrap like the machine's; \<open>char\<close> is signed on this architecture, so comparisons read bytes with
  \<open>sint\<close>. A loop over a string that may run past every terminator is a
  \<open>partial_function\<close>: the value \<open>None\<close> means it does not return.
\<close>

type_synonym mem = "addr \<Rightarrow> u8"

subsection \<open>Memory blocks\<close>

definition memset :: "mem \<Rightarrow> addr \<Rightarrow> u8 \<Rightarrow> u32 \<Rightarrow> mem" where
  "memset m p c sz = fold (\<lambda>i m. m(p + of_nat i := c)) [0..<unat sz] m"

text \<open>One byte of a copy, and the copies that run up and down.\<close>

definition copy_byte :: "addr \<Rightarrow> addr \<Rightarrow> nat \<Rightarrow> mem \<Rightarrow> mem" where
  "copy_byte d s i m = m(d + of_nat i := m (s + of_nat i))"

definition memcpy :: "mem \<Rightarrow> addr \<Rightarrow> addr \<Rightarrow> u32 \<Rightarrow> mem \<times> addr" where
  "memcpy m dest src len =
     (if dest < src then (fold (copy_byte dest src) [0..<unat len] m, dest + len)
      else (fold (copy_byte dest src) (rev [0..<unat len]) m, dest))"

definition memmove :: "mem \<Rightarrow> addr \<Rightarrow> addr \<Rightarrow> u32 \<Rightarrow> mem \<times> addr" where
  "memmove m dest src n =
     (if dest < src \<or> dest \<ge> src + n then (fold (copy_byte dest src) [0..<unat n] m, dest)
      else (fold (copy_byte dest src) (rev [0..<unat n]) m, dest))"

text \<open>The argument is the number of bytes the \<open>while (count-- > 0)\<close> loop still compares.\<close>

fun memcmp :: "mem \<Rightarrow> addr \<Rightarrow> addr \<Rightarrow> nat \<Rightarrow> int" where
  "memcmp m p q 0 = 0"
| "memcmp m p q (Suc n) =
     (if m p \<noteq> m q then if sint (m p) < sint (m q) then -1 else 1
      else memcmp m (p + 1) (q + 1) n)"

subsection \<open>Strings\<close>

partial_function (option) strlen_from :: "mem \<Rightarrow> addr \<Rightarrow> addr \<Rightarrow> u32 option" where
  "strlen_from m s p = (if m p \<noteq> 0 then strlen_from m s (p + 1) else Some (p - s))"

definition strlen :: "mem \<Rightarrow> addr \<Rightarrow> u32 option" where
  "strlen m s = strlen_from m s s"

function strnlen_from :: "mem \<Rightarrow> addr \<Rightarrow> int \<Rightarrow> int \<Rightarrow> int" where
  "strnlen_from m s maxlen i =
     (if i < maxlen \<and> m (s + of_int i) \<noteq> 0 then strnlen_from m s maxlen (i + 1) else i)"
  by pat_completeness auto
termination
  by (relation "measure (\<lambda>(m, s, maxlen, i). nat (maxlen - i))") auto

declare strnlen_from.simps [simp del]

definition strnlen :: "mem \<Rightarrow> addr \<Rightarrow> int \<Rightarrow> int" where
  "strnlen m s maxlen = strnlen_from m s maxlen 0"

definition strcpy :: "mem \<Rightarrow> addr \<Rightarrow> addr \<Rightarrow> (mem \<times> addr) option" where
  "strcpy m dst src =
     (case strlen m src of
        None \<Rightarrow> None
      | Some len \<Rightarrow> Some ((fst (memcpy m dst src len))(dst + len := 0), dst))"

text \<open>The loop runs at most \<open>maxlen - 1\<close> times and returns the advanced destination.\<close>

fun strncpy_loop :: "nat \<Rightarrow> mem \<Rightarrow> addr \<Rightarrow> addr \<Rightarrow> mem \<times> addr" where
  "strncpy_loop 0 m dst src = (m, dst)"
| "strncpy_loop (Suc n) m dst src =
     (if m src = 0 then (m, dst) else strncpy_loop n (m(dst := m src)) (dst + 1) (src + 1))"

definition strncpy :: "mem \<Rightarrow> addr \<Rightarrow> addr \<Rightarrow> int \<Rightarrow> mem \<times> addr" where
  "strncpy m dst src maxlen = strncpy_loop (nat (maxlen - 1)) m dst src"

text \<open>\<open>sizeof(dst)\<close> is the size of the pointer, 4.\<close>

definition strcat :: "mem \<Rightarrow> addr \<Rightarrow> addr \<Rightarrow> (mem \<times> addr) option" where
  "strcat m dst src = (case strcpy m (dst + 4) src of None \<Rightarrow> None | Some (m', _) \<Rightarrow> Some (m', dst))"

partial_function (option) strcmp :: "mem \<Rightarrow> addr \<Rightarrow> addr \<Rightarrow> int option" where
  "strcmp m s1 s2 =
     (if m s1 \<noteq> 0 \<and> m s1 = m s2 then strcmp m (s1 + 1) (s2 + 1)
      else Some (of_bool (sint (m s1) > sint (m s2)) - of_bool (sint (m s2) > sint (m s1))))"

text \<open>A non-negative \<open>maxlen\<close>; the subtraction of the bytes is unsigned.\<close>

fun strncmp :: "mem \<Rightarrow> addr \<Rightarrow> addr \<Rightarrow> nat \<Rightarrow> int" where
  "strncmp m s1 s2 0 = 0"
| "strncmp m s1 s2 (Suc n) =
     (if m s1 \<noteq> 0 \<and> m s1 = m s2 then strncmp m (s1 + 1) (s2 + 1) n
      else uint (m s1) - uint (m s2))"

partial_function (option) strchr :: "mem \<Rightarrow> addr \<Rightarrow> int \<Rightarrow> addr option" where
  "strchr m s c =
     (if m s \<noteq> 0 \<and> sint (m s) \<noteq> c then strchr m (s + 1) c
      else Some (if sint (m s) = c then s else 0))"

partial_function (option) strrchr_from :: "mem \<Rightarrow> addr \<Rightarrow> addr \<Rightarrow> u8 \<Rightarrow> addr option" where
  "strrchr_from m p s c =
     (let p' = (if m s = c then s else p)
      in if m s = 0 then Some p' else strrchr_from m p' (s + 1) c)"

definition strrchr :: "mem \<Rightarrow> addr \<Rightarrow> int \<Rightarrow> addr option" where
  "strrchr m s c = strrchr_from m 0 s (word_of_int c)"

text \<open>The inner loop over \<open>accept\<close>: does the byte occur in the set?\<close>

partial_function (option) strbrk_accepts :: "mem \<Rightarrow> u8 \<Rightarrow> addr \<Rightarrow> bool option" where
  "strbrk_accepts m c a =
     (if m a = 0 then Some False else if c = m a then Some True else strbrk_accepts m c (a + 1))"

partial_function (option) strbrk :: "mem \<Rightarrow> addr \<Rightarrow> addr \<Rightarrow> addr option" where
  "strbrk m s accept =
     (if m s = 0 then Some 0
      else case strbrk_accepts m (m s) accept of
             None \<Rightarrow> None
           | Some hit \<Rightarrow> if hit then Some s else strbrk m (s + 1) accept)"

subsection \<open>Tokens\<close>

text \<open>
  The two loops of \<open>strtok\<close>: \<open>want = True\<close> skips delimiters, \<open>want = False\<close> skips the token. The
  test is \<open>strchr(delim, *p)\<close>, whose result counts as true unless it is NULL.
\<close>

partial_function (option) strtok_skip :: "bool \<Rightarrow> mem \<Rightarrow> addr \<Rightarrow> addr \<Rightarrow> addr option" where
  "strtok_skip want m delim p =
     (if m p = 0 then Some p
      else case strchr m delim (sint (m p)) of
             None \<Rightarrow> None
           | Some r \<Rightarrow> if (r \<noteq> 0) = want then strtok_skip want m delim (p + 1) else Some p)"

text \<open>The state is the memory and the static variable \<open>p\<close>.\<close>

definition strtok :: "mem \<Rightarrow> addr \<Rightarrow> addr \<Rightarrow> addr \<Rightarrow> (mem \<times> addr \<times> addr) option" where
  "strtok m p0 s delim =
     (let p = (if s \<noteq> 0 then s else p0) in
      if p = 0 then Some (m, p, 0)
      else case strtok_skip True m delim p of
        None \<Rightarrow> None
      | Some t \<Rightarrow>
          if m t = 0 then Some (m, t, 0)
          else case strtok_skip False m delim t of
            None \<Rightarrow> None
          | Some q \<Rightarrow> if m q \<noteq> 0 then Some (m(q := 0), q + 1, t) else Some (m, q, t))"

text \<open>The allocator is an argument: it maps a size to a pointer.\<close>

definition strdup :: "(u32 \<Rightarrow> addr) \<Rightarrow> mem \<Rightarrow> addr \<Rightarrow> (mem \<times> addr) option" where
  "strdup kmalloc m s =
     (if s = 0 then Some (m, 0)
      else if m s = 0 then Some (m, 0)
      else case strlen m s of
        None \<Rightarrow> None
      | Some len \<Rightarrow>
          let c = kmalloc (len + 1) in
          if c = 0 then Some (m, 0)
          else Some ((fst (memcpy m c s len))(c + len := 0), c))"

subsection \<open>Copies move the old bytes\<close>

text \<open>
  Walking through distinct indices \<open>is\<close>, each byte is read before it is overwritten when no
  earlier destination is a later source.
\<close>

definition no_clobber :: "addr \<Rightarrow> addr \<Rightarrow> nat list \<Rightarrow> bool" where
  "no_clobber d s is \<longleftrightarrow> sorted_wrt (\<lambda>i j. d + of_nat i \<noteq> s + of_nat j \<and> (of_nat i :: addr) \<noteq> of_nat j) is"

lemma fold_copy_byte:
  assumes "no_clobber d s is"
  shows "(\<forall>i\<in>set is. fold (copy_byte d s) is m (d + of_nat i) = m (s + of_nat i))
    \<and> (\<forall>a. (\<forall>i\<in>set is. a \<noteq> d + of_nat i) \<longrightarrow> fold (copy_byte d s) is m a = m a)"
  using assms
proof (induction "is" arbitrary: m)
  case Nil
  then show ?case by simp
next
  case (Cons i "is")
  let ?m = "copy_byte d s i m"
  have n: "\<forall>j\<in>set is. d + of_nat i \<noteq> s + of_nat j \<and> (of_nat i :: addr) \<noteq> of_nat j"
    and rest: "no_clobber d s is"
    using Cons.prems by (auto simp: no_clobber_def)
  note IH = Cons.IH [OF rest, of ?m]
  have "fold (copy_byte d s) is ?m (d + of_nat i) = ?m (d + of_nat i)"
    using IH n by simp
  then have i: "fold (copy_byte d s) is ?m (d + of_nat i) = m (s + of_nat i)"
    by (simp add: copy_byte_def)
  moreover have "fold (copy_byte d s) is ?m (d + of_nat j) = m (s + of_nat j)" if "j \<in> set is" for j
  proof -
    have "s + of_nat j \<noteq> d + of_nat i" using n that by metis
    then have "?m (s + of_nat j) = m (s + of_nat j)" by (simp add: copy_byte_def)
    then show ?thesis using IH that by simp
  qed
  moreover have "fold (copy_byte d s) is ?m a = m a"
    if "\<forall>j\<in>set (i # is). a \<noteq> d + of_nat j" for a
  proof -
    have "?m a = m a" using that by (simp add: copy_byte_def)
    then show ?thesis using IH that by simp
  qed
  ultimately show ?case by simp
qed

lemma unat_addr_offset:
  assumes "unat (p :: addr) + n \<le> 4294967296" and "i < n"
  shows "unat (p + of_nat i) = unat p + i"
proof -
  have "unat (of_nat i :: addr) = i" using assms by (simp add: unsigned_of_nat take_bit_nat_eq_self)
  with assms show ?thesis by (subst unat_add_no_wrap) simp_all
qed

lemma addr_offset_neq:
  assumes "unat (p :: addr) + n \<le> 4294967296" and "unat (q :: addr) + n \<le> 4294967296"
    and "i < n" and "j < n" and "unat p + i \<noteq> unat q + j"
  shows "p + of_nat i \<noteq> q + of_nat j"
  using assms by (auto simp: word_unat_eq_iff unat_addr_offset)

lemma of_nat_addr_neq:
  assumes "i < n" and "j < n" and "n \<le> 4294967296" and "i \<noteq> j"
  shows "(of_nat i :: addr) \<noteq> of_nat j"
  using assms by (auto simp: word_unat_eq_iff unsigned_of_nat take_bit_nat_eq_self)

lemma no_clobber_up:
  assumes "unat (d :: addr) + n \<le> 4294967296" and "unat s + n \<le> 4294967296"
    and "unat d \<le> unat s \<or> unat s + n \<le> unat d"
  shows "no_clobber d s [0..<n]"
  unfolding no_clobber_def sorted_wrt_iff_nth_less
proof (intro allI impI conjI)
  fix i j assume "i < j" "j < length [0..<n]"
  then have ij: "i < j" "j < n" by simp_all
  show "d + of_nat ([0..<n] ! i) \<noteq> s + of_nat ([0..<n] ! j)"
    using ij assms addr_offset_neq [of d n s i j] by auto
  show "(of_nat ([0..<n] ! i) :: addr) \<noteq> of_nat ([0..<n] ! j)"
    using ij assms of_nat_addr_neq [of i n j] by simp
qed

lemma no_clobber_down:
  assumes "unat (d :: addr) + n \<le> 4294967296" and "unat s + n \<le> 4294967296" and "unat s \<le> unat d"
  shows "no_clobber d s (rev [0..<n])"
  unfolding no_clobber_def sorted_wrt_rev unfolding sorted_wrt_iff_nth_less
proof (intro allI impI conjI)
  fix i j assume "i < j" "j < length [0..<n]"
  then have ij: "i < j" "j < n" by simp_all
  show "d + of_nat ([0..<n] ! j) \<noteq> s + of_nat ([0..<n] ! i)"
    using ij assms addr_offset_neq [of d n s j i] by auto
  show "(of_nat ([0..<n] ! j) :: addr) \<noteq> of_nat ([0..<n] ! i)"
    using ij assms of_nat_addr_neq [of i n j] by auto
qed

text \<open>The bytes of \<open>n\<close> cells from \<open>p\<close>, and the cells themselves.\<close>

definition bytes :: "mem \<Rightarrow> addr \<Rightarrow> nat \<Rightarrow> u8 list" where
  "bytes m p n = map (\<lambda>i. m (p + of_nat i)) [0..<n]"

definition cells :: "addr \<Rightarrow> nat \<Rightarrow> addr set" where
  "cells p n = (\<lambda>i. p + of_nat i) ` {..<n}"

lemma fold_copy_bytes:
  assumes "no_clobber d s is" and "set is = {..<n}"
  shows "bytes (fold (copy_byte d s) is m) d n = bytes m s n
    \<and> (\<forall>a. a \<notin> cells d n \<longrightarrow> fold (copy_byte d s) is m a = m a)"
  using fold_copy_byte [OF assms(1), of m] unfolding assms(2) by (auto simp: bytes_def cells_def)

lemma memcpy_bytes:
  assumes "unat (d :: addr) + unat n \<le> 4294967296" and "unat s + unat n \<le> 4294967296"
  shows "bytes (fst (memcpy m d s n)) d (unat n) = bytes m s (unat n)
    \<and> (\<forall>a. a \<notin> cells d (unat n) \<longrightarrow> fst (memcpy m d s n) a = m a)"
proof (cases "d < s")
  case True
  then have "no_clobber d s [0..<unat n]"
    using assms by (intro no_clobber_up) (simp_all add: word_less_nat_alt)
  then show ?thesis using True fold_copy_bytes [of d s "[0..<unat n]" "unat n" m]
    by (simp add: memcpy_def atLeast0LessThan)
next
  case False
  then have "no_clobber d s (rev [0..<unat n])"
    using assms by (intro no_clobber_down) (simp_all add: word_less_nat_alt)
  then show ?thesis using False fold_copy_bytes [of d s "rev [0..<unat n]" "unat n" m]
    by (simp add: memcpy_def atLeast0LessThan)
qed

lemma memset_bytes:
  "bytes (memset m p c sz) p (unat sz) = replicate (unat sz) c
    \<and> (\<forall>a. a \<notin> cells p (unat sz) \<longrightarrow> memset m p c sz a = m a)"
proof -
  have "(\<forall>i<n. fold (\<lambda>i m. m(p + of_nat i := c)) [0..<n] m (p + of_nat i) = c)
      \<and> (\<forall>a. a \<notin> cells p n \<longrightarrow> fold (\<lambda>i m. m(p + of_nat i := c)) [0..<n] m a = m a)" for n
    by (induction n) (auto simp: cells_def less_Suc_eq lessThan_Suc)
  then show ?thesis by (simp add: memset_def bytes_def list_eq_iff_nth_eq)
qed

text \<open>
  C11. Both block copies are correct for every overlap of source and destination: as long as the
  two blocks do not run over the end of the address space, the destination afterwards holds the
  bytes the source held before, no other cell changes, and \<open>memmove\<close> leaves the same memory as
  \<open>memcpy\<close>.
\<close>

theorem memmove_memcpy_correct:
  assumes "unat d + unat n \<le> 4294967296" and "unat s + unat n \<le> 4294967296"
  shows "bytes (fst (memmove m d s n)) d (unat n) = bytes m s (unat n)
    \<and> (\<forall>a. a \<notin> cells d (unat n) \<longrightarrow> fst (memmove m d s n) a = m a)
    \<and> snd (memmove m d s n) = d \<and> fst (memmove m d s n) = fst (memcpy m d s n)"
proof -
  have mm: "bytes (fst (memmove m d s n)) d (unat n) = bytes m s (unat n)
    \<and> (\<forall>a. a \<notin> cells d (unat n) \<longrightarrow> fst (memmove m d s n) a = m a)"
  proof (cases "d < s \<or> d \<ge> s + n")
    case True
    have "unat d \<le> unat s \<or> unat s + unat n \<le> unat d"
    proof (cases "unat s + unat n = 4294967296")
      case wrap: True
      then show ?thesis using assms(1) by linarith
    next
      case False
      then have "unat (s + n) = unat s + unat n" using assms(2) by (simp add: unat_add_no_wrap)
      then show ?thesis using True by (auto simp: word_less_nat_alt word_le_nat_alt)
    qed
    then have "no_clobber d s [0..<unat n]"
      by (rule no_clobber_up [OF assms])
    then show ?thesis using True fold_copy_bytes [of d s "[0..<unat n]" "unat n" m]
      by (simp add: memmove_def atLeast0LessThan)
  next
    case False
    then have "no_clobber d s (rev [0..<unat n])"
      using assms by (intro no_clobber_down) (simp_all add: word_less_nat_alt)
    then show ?thesis using False fold_copy_bytes [of d s "rev [0..<unat n]" "unat n" m]
      by (simp add: memmove_def atLeast0LessThan)
  qed
  have "fst (memmove m d s n) = fst (memcpy m d s n)"
  proof
    fix a
    show "fst (memmove m d s n) a = fst (memcpy m d s n) a"
    proof (cases "a \<in> cells d (unat n)")
      case True
      then obtain i where "i < unat n" "a = d + of_nat i" by (auto simp: cells_def)
      then show ?thesis
        using mm memcpy_bytes [OF assms, of m] by (auto simp: bytes_def)
    qed (use mm memcpy_bytes [OF assms, of m] in simp)
  qed
  with mm show ?thesis by (auto simp: memmove_def)
qed

theorem memmove_memcpy_correct_witness:
  "bytes (fst (memmove (\<lambda>a. ucast (a - 0x1000)) 0x1004 0x1000 8)) 0x1004 8 = [0, 1, 2, 3, 4, 5, 6, 7]"
  using conjunct1 [OF memmove_memcpy_correct [of "0x1004" 8 "0x1000" "\<lambda>a. ucast (a - 0x1000)"]]
  by (simp add: bytes_def upt_rec)

subsection \<open>Strings in memory\<close>

text \<open>A terminated string: the bytes \<open>xs\<close>, none of them 0, followed by a 0 byte.\<close>

fun cstr :: "mem \<Rightarrow> addr \<Rightarrow> u8 list \<Rightarrow> bool" where
  "cstr m p [] \<longleftrightarrow> m p = 0"
| "cstr m p (x # xs) \<longleftrightarrow> x \<noteq> 0 \<and> m p = x \<and> cstr m (p + 1) xs"

lemma cstr_append:
  "cstr m p (xs @ ys) \<longleftrightarrow> bytes m p (length xs) = xs \<and> 0 \<notin> set xs \<and> cstr m (p + of_nat (length xs)) ys"
proof (induction xs arbitrary: p)
  case Nil
  then show ?case by (simp add: bytes_def)
next
  case (Cons x xs)
  have "bytes m p (Suc n) = m p # bytes m (p + 1) n" for n
    by (simp add: bytes_def map_upt_Suc algebra_simps del: upt_Suc)
  with Cons.IH [of "p + 1"] show ?case by (auto simp: algebra_simps)
qed

lemma cstr_iff: "cstr m p xs \<longleftrightarrow> bytes m p (length xs) = xs \<and> 0 \<notin> set xs \<and> m (p + of_nat (length xs)) = 0"
  using cstr_append [of m p xs "[]"] by simp

lemma cstr_nth: "cstr m p xs \<Longrightarrow> i < length xs \<Longrightarrow> m (p + of_nat i) = xs ! i \<and> xs ! i \<noteq> 0"
proof (induction xs arbitrary: p i)
  case (Cons x xs)
  then show ?case by (cases i) (force simp: algebra_simps)+
qed simp

lemma cstr_end: "cstr m p xs \<Longrightarrow> m (p + of_nat (length xs)) = 0"
  by (simp only: cstr_iff)

lemma strlen_from_cstr:
  "cstr m p xs \<Longrightarrow> strlen_from m s p = Some (p + of_nat (length xs) - s)"
  by (induction xs arbitrary: p) (simp_all add: strlen_from.simps algebra_simps)

lemma strlen_cstr: "cstr m p xs \<Longrightarrow> strlen m p = Some (of_nat (length xs))"
  by (simp add: strlen_def strlen_from_cstr)

lemma strnlen_cstr:
  assumes "cstr m p xs"
  shows "strnlen m p (int n) = int (min n (length xs))"
proof -
  have "strnlen_from m p (int n) (int i) = int (min n (length xs))" if "i \<le> min n (length xs)" for i
    using that
  proof (induction "n - i" arbitrary: i rule: less_induct)
    case less
    have z: "i < length xs \<Longrightarrow> m (p + of_nat i) \<noteq> 0" using cstr_nth [OF assms] by simp
    note e = cstr_end [OF assms]
    show ?case
    proof (cases "i < n \<and> i < length xs")
      case True
      have "strnlen_from m p (int n) (int (Suc i)) = int (min n (length xs))"
        using True by (intro less.hyps) auto
      then show ?thesis using True z by (subst strnlen_from.simps) (simp add: algebra_simps)
    next
      case False
      then show ?thesis using less.prems e by (subst strnlen_from.simps) (auto simp: min_def)
    qed
  qed
  from this [of 0] show ?thesis by (simp add: strnlen_def)
qed

text \<open>The order \<open>strcmp\<close> computes on terminated strings.\<close>

fun str_order :: "u8 list \<Rightarrow> u8 list \<Rightarrow> int" where
  "str_order (x # xs) (y # ys) =
     (if x = y then str_order xs ys else if sint x > sint y then 1 else -1)"
| "str_order (x # xs) [] = (if sint x > 0 then 1 else -1)"
| "str_order [] (y # ys) = (if sint y > 0 then -1 else 1)"
| "str_order [] [] = 0"

lemma sint_8_eq_iff: "sint (x :: u8) = sint y \<longleftrightarrow> x = y"
  by (rule word_eq_iff_signed [symmetric])

lemma strcmp_cstr:
  "cstr m p xs \<Longrightarrow> cstr m q ys \<Longrightarrow> strcmp m p q = Some (str_order xs ys)"
proof (induction xs ys arbitrary: p q rule: str_order.induct)
  case (1 x xs y ys)
  then show ?case
    using sint_8_eq_iff [of x y] by (subst strcmp.simps) (auto simp: not_less_iff_gr_or_eq)
next
  case (2 x xs)
  then show ?case
    using sint_8_eq_iff [of x 0] by (subst strcmp.simps) (auto simp: not_less_iff_gr_or_eq)
next
  case (3 y ys)
  then show ?case
    using sint_8_eq_iff [of y 0] by (subst strcmp.simps) (auto simp: not_less_iff_gr_or_eq)
next
  case 4
  then show ?case by (subst strcmp.simps) simp
qed

lemma str_order_0_iff: "str_order xs ys = 0 \<longleftrightarrow> xs = ys"
  by (induction xs ys rule: str_order.induct) auto

lemma strncmp_cstr:
  "cstr m p xs \<Longrightarrow> cstr m q ys \<Longrightarrow> strncmp m p q n = 0 \<longleftrightarrow> take n xs = take n ys"
proof (induction n arbitrary: p q xs ys)
  case 0
  then show ?case by simp
next
  case (Suc n)
  show ?case
  proof (cases xs)
    case Nil
    then show ?thesis using Suc.prems by (cases ys) (auto simp: word_uint_eq_iff)
  next
    case (Cons x xs')
    then show ?thesis using Suc.prems Suc.IH
      by (cases ys) (auto simp: word_uint_eq_iff)
  qed
qed

lemma strchr_cstr:
  assumes "cstr m p xs" and "- 128 \<le> c" and "c < 128" and "c \<noteq> 0"
  shows "strchr m p c = Some (if word_of_int c \<in> set xs
      then p + of_nat (length (takeWhile (\<lambda>x. x \<noteq> word_of_int c) xs)) else 0)"
proof -
  have s: "sint (word_of_int c :: u8) = c" using assms(2,3) by (simp add: int_word_sint)
  have c: "sint x = c \<longleftrightarrow> x = word_of_int c" for x :: u8
    using sint_8_eq_iff [of x "word_of_int c"] unfolding s .
  have z: "(word_of_int c :: u8) \<noteq> 0" using c [of 0] assms(4) by auto
  from assms(1) show ?thesis
  proof (induction xs arbitrary: p)
    case Nil
    then show ?case using z by (subst strchr.simps) (simp add: c assms(4) eq_commute [of 0])
  next
    case (Cons x xs)
    then show ?case by (subst strchr.simps) (auto simp: c algebra_simps)
  qed
qed

lemma length_takeWhile_mem: "x \<in> set ys \<Longrightarrow> length (takeWhile (\<lambda>y. y \<noteq> x) ys) < length ys"
  by (induction ys) auto

lemma strrchr_from_cstr:
  "cstr m s xs \<Longrightarrow> c \<noteq> 0 \<Longrightarrow> strrchr_from m p s c = Some (if c \<in> set xs
     then s + of_nat (length xs - 1 - length (takeWhile (\<lambda>x. x \<noteq> c) (rev xs))) else p)"
proof (induction xs arbitrary: s p)
  case Nil
  then show ?case by (subst strrchr_from.simps) simp
next
  case (Cons x xs)
  show ?case
  proof (cases "c \<in> set xs")
    case True
    then have le: "length (takeWhile (\<lambda>x. x \<noteq> c) (rev xs)) < length xs"
      using length_takeWhile_mem [of c "rev xs"] by simp
    have "takeWhile (\<lambda>x. x \<noteq> c) (rev xs @ [x]) = takeWhile (\<lambda>x. x \<noteq> c) (rev xs)"
      using True by (subst takeWhile_append1 [of c]) simp_all
    moreover have "s + 1 + of_nat (length xs - 1 - length (takeWhile (\<lambda>x. x \<noteq> c) (rev xs)))
        = s + of_nat (length xs - length (takeWhile (\<lambda>x. x \<noteq> c) (rev xs)))"
      using le by (simp add: of_nat_diff)
    ultimately show ?thesis using Cons True by (subst strrchr_from.simps) simp
  next
    case False
    then have "takeWhile (\<lambda>x. x \<noteq> c) (rev xs @ [x]) = rev xs @ takeWhile (\<lambda>x. x \<noteq> c) [x]"
      by (subst takeWhile_append2) auto
    with Cons False show ?thesis by (subst strrchr_from.simps) auto
  qed
qed

lemma strbrk_accepts_cstr: "cstr m a ds \<Longrightarrow> c \<noteq> 0 \<Longrightarrow> strbrk_accepts m c a = Some (c \<in> set ds)"
proof (induction ds arbitrary: a)
  case Nil
  then show ?case by (subst strbrk_accepts.simps) simp
next
  case (Cons d ds)
  then show ?case by (subst strbrk_accepts.simps) auto
qed

lemma strbrk_cstr:
  assumes "cstr m accept ds"
  shows "cstr m s xs \<Longrightarrow> strbrk m s accept = Some (if set xs \<inter> set ds = {} then 0
     else s + of_nat (length (takeWhile (\<lambda>x. x \<notin> set ds) xs)))"
proof (induction xs arbitrary: s)
  case Nil
  then show ?case by (subst strbrk.simps) simp
next
  case (Cons x xs)
  then show ?case
    using strbrk_accepts_cstr [OF assms, of x] by (subst strbrk.simps) (auto simp: algebra_simps)
qed

lemma cells_iff:
  assumes "unat (p :: addr) + n \<le> 4294967296"
  shows "a \<in> cells p n \<longleftrightarrow> unat p \<le> unat a \<and> unat a < unat p + n"
proof
  assume "a \<in> cells p n"
  then show "unat p \<le> unat a \<and> unat a < unat p + n"
    using unat_addr_offset [OF assms] by (auto simp: cells_def)
next
  assume r: "unat p \<le> unat a \<and> unat a < unat p + n"
  then have "unat a - unat p < n" by linarith
  moreover from this have "a = p + of_nat (unat a - unat p)"
    using r by (simp add: word_unat_eq_iff unat_addr_offset [OF assms])
  ultimately show "a \<in> cells p n" unfolding cells_def by blast
qed

lemma cstr_frame:
  assumes "cstr m p xs" and "\<And>a. a \<in> cells p (Suc (length xs)) \<Longrightarrow> m' a = m a"
  shows "cstr m' p xs"
proof -
  have c: "p + of_nat i \<in> cells p (Suc (length xs))" if "i \<le> length xs" for i
    using that by (auto simp: cells_def)
  have "bytes m' p (length xs) = bytes m p (length xs)"
    using c assms(2) by (auto simp: bytes_def)
  then show ?thesis using assms(1) c [of "length xs"] assms(2) by (simp add: cstr_iff)
qed

text \<open>Copying the \<open>length xs\<close> bytes of a string and storing the terminator makes the string again.\<close>

lemma copy_terminate_cstr:
  assumes "cstr m src xs" and "unat dst + length xs < 4294967296" and "unat src + length xs < 4294967296"
  defines "n \<equiv> of_nat (length xs) :: u32"
  defines "m' \<equiv> (fst (memcpy m dst src n))(dst + n := 0)"
  shows "cstr m' dst xs \<and> (\<forall>a. a \<notin> cells dst (Suc (length xs)) \<longrightarrow> m' a = m a)"
proof -
  have n: "unat n = length xs"
    using assms(2) by (simp add: n_def unsigned_of_nat take_bit_nat_eq_self)
  have b: "bytes (fst (memcpy m dst src n)) dst (length xs) = xs"
    and o: "\<forall>a. a \<notin> cells dst (length xs) \<longrightarrow> fst (memcpy m dst src n) a = m a"
    using memcpy_bytes [of dst n src m] assms(1-3) by (auto simp: n cstr_iff)
  have "dst + of_nat i \<noteq> dst + n" if "i < length xs" for i
    unfolding n_def using that assms(2)
    by (intro addr_offset_neq [of dst "Suc (length xs)"]) simp_all
  then have "bytes m' dst (length xs) = bytes (fst (memcpy m dst src n)) dst (length xs)"
    by (simp add: m'_def bytes_def)
  then have "bytes m' dst (length xs) = xs" by (simp only: b)
  moreover have "0 \<notin> set xs" using assms(1) by (simp add: cstr_iff)
  ultimately have "cstr m' dst xs" by (simp add: cstr_iff m'_def n_def)
  moreover have "m' a = m a" if "a \<notin> cells dst (Suc (length xs))" for a
    using that o by (auto simp: m'_def n_def cells_def lessThan_Suc)
  ultimately show ?thesis by blast
qed

text \<open>The membership test \<open>strchr(delim, *p)\<close> of \<open>strtok\<close>.\<close>

lemma strchr_member:
  assumes "cstr m delim ds" and "x \<noteq> 0" and "delim \<noteq> 0" and "unat delim + length ds \<le> 4294967296"
  shows "\<exists>r. strchr m delim (sint x) = Some r \<and> (r \<noteq> 0 \<longleftrightarrow> x \<in> set ds)"
proof -
  have r: "- 128 \<le> sint x" "sint x < 128"
    using sint_range_size [of x] by (simp_all add: word_size)
  have w: "(word_of_int (sint x) :: u8) = x" by (simp add: scast_eq [symmetric])
  have nz: "sint x \<noteq> 0" using assms(2) sint_8_eq_iff [of x 0] by simp
  have p: "delim + of_nat (length (takeWhile (\<lambda>y. y \<noteq> x) ds)) \<noteq> 0" if "x \<in> set ds"
  proof -
    note length_takeWhile_mem [OF that]
    then have "unat (delim + of_nat (length (takeWhile (\<lambda>y. y \<noteq> x) ds))) \<noteq> 0"
      using assms(3) unat_addr_offset [OF assms(4)] by (simp add: unat_eq_0)
    then show ?thesis by auto
  qed
  show ?thesis
    using strchr_cstr [OF assms(1) r nz] p unfolding w by auto
qed

lemma strtok_skip_cstr:
  assumes "cstr m delim ds" and "delim \<noteq> 0" and "unat delim + length ds \<le> 4294967296"
    and "\<forall>y\<in>set ys. (y \<in> set ds) = want" and "zs = [] \<or> (hd zs \<in> set ds) \<noteq> want"
  shows "cstr m p (ys @ zs) \<Longrightarrow> strtok_skip want m delim p = Some (p + of_nat (length ys))"
  using assms(4)
proof (induction ys arbitrary: p)
  case Nil
  show ?case
  proof (cases zs)
    case Nil
    then show ?thesis using \<open>cstr m p ([] @ zs)\<close> by (subst strtok_skip.simps) simp
  next
    case (Cons z zs')
    then have z: "z \<noteq> 0" "m p = z" using \<open>cstr m p ([] @ zs)\<close> by auto
    obtain r where "strchr m delim (sint z) = Some r" "r \<noteq> 0 \<longleftrightarrow> z \<in> set ds"
      using strchr_member [OF assms(1) z(1) assms(2,3)] by blast
    then show ?thesis using z Cons assms(5) by (subst strtok_skip.simps) auto
  qed
next
  case (Cons y ys)
  then have y: "y \<noteq> 0" "m p = y" by auto
  obtain r where "strchr m delim (sint y) = Some r" "r \<noteq> 0 \<longleftrightarrow> y \<in> set ds"
    using strchr_member [OF assms(1) y(1) assms(2,3)] by blast
  then show ?case using Cons y by (subst strtok_skip.simps) (auto simp: algebra_simps)
qed

text \<open>
  \<open>strcpy\<close> returns for every terminated source, the destination then holds the same
  string, even when the blocks overlap, and nothing outside the destination changes. On any two
  terminated strings \<open>strcmp\<close> returns, and it returns 0 exactly when they are equal.
\<close>

theorem strcpy_strcmp_correct:
  assumes "cstr m src xs" and "cstr m other ys"
    and "unat dst + length xs < 4294967296" and "unat src + length xs < 4294967296"
  shows "\<exists>m' r. strcpy m dst src = Some (m', dst) \<and> cstr m' dst xs
    \<and> (\<forall>a. a \<notin> cells dst (Suc (length xs)) \<longrightarrow> m' a = m a)
    \<and> strcmp m src other = Some r \<and> (r = 0 \<longleftrightarrow> xs = ys)"
  using copy_terminate_cstr [OF assms(1,3,4)] strcmp_cstr [OF assms(1,2)] strlen_cstr [OF assms(1)]
  by (simp add: strcpy_def str_order_0_iff)

text \<open>A memory with the string \<open>/a/b\<close> at 0x100 and the delimiter string \<open>/\<close> at 0x200.\<close>

definition path_mem :: mem where
  "path_mem = (\<lambda>a. if a = 0x100 \<or> a = 0x102 \<or> a = 0x200 then 47 else if a = 0x101 then 97
                   else if a = 0x103 then 98 else 0)"

lemma path_mem_cstr: "cstr path_mem 0x100 [47, 97, 47, 98]" "cstr path_mem 0x200 [47]"
  by (simp_all add: path_mem_def)

theorem strcpy_strcmp_correct_witness:
  "\<exists>m'. strcpy path_mem 0x300 0x100 = Some (m', 0x300) \<and> cstr m' 0x300 [47, 97, 47, 98]"
  using strcpy_strcmp_correct [OF path_mem_cstr, of "0x300"] by auto

text \<open>
  One call of \<open>strtok\<close> on a string made of leading delimiters, a token and a rest that
  starts with a delimiter returns the token, cuts it off with a terminator, and leaves the
  static pointer on the string after that delimiter, so that the next call continues there.
\<close>

theorem strtok_token:
  assumes "cstr m s (pre @ tok @ d # rest)" and "cstr m delim ds" and "s \<noteq> 0" and "delim \<noteq> 0"
    and "set pre \<subseteq> set ds" and "tok \<noteq> []" and "set tok \<inter> set ds = {}" and "d \<in> set ds"
    and "unat delim + length ds < 4294967296"
    and "unat s + length (pre @ tok @ d # rest) < 4294967296"
  defines "t \<equiv> s + of_nat (length pre)" and "q \<equiv> s + of_nat (length pre + length tok)"
  shows "strtok m p0 s delim = Some (m(q := 0), q + 1, t)
    \<and> cstr (m(q := 0)) t tok \<and> cstr (m(q := 0)) (q + 1) rest"
proof -
  have ds: "unat delim + length ds \<le> 4294967296" using assms(9) by simp
  have t: "cstr m t (tok @ d # rest)" using assms(1) by (simp add: cstr_append t_def)
  have q: "q = t + of_nat (length tok)" by (simp add: q_def t_def)
  have dq: "m q = d" "d \<noteq> 0" and rest: "cstr m (q + 1) rest" and tb: "bytes m t (length tok) = tok" "0 \<notin> set tok"
    using t unfolding q by (simp_all add: cstr_append)
  obtain x xs where tok: "tok = x # xs" using assms(6) by (cases tok) auto
  have mt: "m t \<noteq> 0" using t tok by simp
  have "strtok_skip True m delim s = Some t"
    unfolding t_def using assms(5,7) tok
    by (intro strtok_skip_cstr [OF assms(2,4) ds _ _ assms(1)]) auto
  moreover have "strtok_skip False m delim t = Some q"
    unfolding q using assms(7,8) by (intro strtok_skip_cstr [OF assms(2,4) ds _ _ t]) auto
  ultimately have "strtok m p0 s delim = Some (m(q := 0), q + 1, t)"
    using assms(3) mt dq by (simp add: strtok_def)
  moreover have "t + of_nat i \<noteq> q" if "i < length tok" for i
    using that of_nat_addr_neq [of i "Suc (length tok)" "length tok"] assms(10) by (simp add: q)
  then have "bytes (m(q := 0)) t (length tok) = bytes m t (length tok)" by (simp add: bytes_def)
  then have "cstr (m(q := 0)) t tok" using tb by (simp add: cstr_iff q)
  moreover have "cstr (m(q := 0)) (q + 1) rest"
  proof (rule cstr_frame [OF rest])
    fix a assume "a \<in> cells (q + 1) (Suc (length rest))"
    then obtain i where i: "a = q + of_nat (Suc i)" "i \<le> length rest"
      by (auto simp: cells_def algebra_simps)
    have "(of_nat (Suc i) :: addr) \<noteq> of_nat 0"
      using i(2) assms(10) by (intro of_nat_addr_neq [of _ "Suc (Suc (length rest))"]) simp_all
    then show "(m(q := 0)) a = m a" using i(1) by simp
  qed
  ultimately show ?thesis by blast
qed

theorem strtok_token_witness:
  "strtok path_mem 0 0x100 0x200 = Some (path_mem(0x102 := 0), 0x103, 0x101)"
  using strtok_token [of path_mem "0x100" "[47]" "[97]" 47 "[98]" "0x200" "[47]" 0] path_mem_cstr
  by simp

end
