(* ===== verification/Wey_Bytes.thy ===== *)
theory Wey_Bytes
  imports Wey_String
begin

text \<open>
  Multi-byte values in memory and in byte lists, least significant byte first as the processor
  stores them: pointers inside free objects, and the packed structures read from disks and files.
\<close>

definition load32 :: "mem \<Rightarrow> addr \<Rightarrow> u32" where
  "load32 m a = ucast (m a) OR push_bit 8 (ucast (m (a + 1))) OR push_bit 16 (ucast (m (a + 2)))
     OR push_bit 24 (ucast (m (a + 3)))"

definition store32 :: "mem \<Rightarrow> addr \<Rightarrow> u32 \<Rightarrow> mem" where
  "store32 m a v = m(a := ucast v, a + 1 := ucast (drop_bit 8 v), a + 2 := ucast (drop_bit 16 v),
     a + 3 := ucast (drop_bit 24 v))"

lemma addr_neq_offsets [simp]:
  "(a :: addr) + 1 \<noteq> a" "a + 2 \<noteq> a" "a + 3 \<noteq> a" "a + 1 \<noteq> a + 2" "a + 1 \<noteq> a + 3" "a + 2 \<noteq> a + 3"
  "a \<noteq> a + 1" "a \<noteq> a + 2" "a \<noteq> a + 3" "a + 2 \<noteq> a + 1" "a + 3 \<noteq> a + 1" "a + 3 \<noteq> a + 2"
  by simp_all

lemma join_bytes:
  "ucast (ucast v :: u8) OR push_bit 8 (ucast (ucast (drop_bit 8 v) :: u8))
     OR push_bit 16 (ucast (ucast (drop_bit 16 v) :: u8)) OR push_bit 24 (ucast (ucast (drop_bit 24 v) :: u8)) = (v :: u32)"
proof (rule bit_word_eqI)
  fix n assume "n < LENGTH(32)"
  then show "bit (ucast (ucast v :: u8) OR push_bit 8 (ucast (ucast (drop_bit 8 v) :: u8))
      OR push_bit 16 (ucast (ucast (drop_bit 16 v) :: u8))
      OR push_bit 24 (ucast (ucast (drop_bit 24 v) :: u8)) :: u32) n \<longleftrightarrow> bit v n"
    by (cases "24 \<le> n"; cases "16 \<le> n"; cases "8 \<le> n") (auto simp: bit_simps)
qed

lemma load_store32 [simp]: "load32 (store32 m a v) a = v"
  unfolding load32_def store32_def by (simp only: fun_upd_apply addr_neq_offsets if_True if_False join_bytes simp_thms)

lemma store32_outside: "b \<notin> cells a 4 \<Longrightarrow> store32 m a v b = m b"
  by (simp add: cells_def store32_def lessThan_Suc numeral_eq_Suc)

lemma load32_cong: "(\<And>b. b \<in> cells a 4 \<Longrightarrow> m' b = m b) \<Longrightarrow> load32 m' a = load32 m a"
  by (simp add: load32_def cells_def lessThan_Suc numeral_eq_Suc)

lemma load_store32_other: "cells a 4 \<inter> cells b 4 = {} \<Longrightarrow> load32 (store32 m a v) b = load32 m b"
  by (rule load32_cong) (auto intro: store32_outside)

text \<open>Fields of a packed structure at an offset of a byte list.\<close>

definition le16 :: "u8 list \<Rightarrow> nat \<Rightarrow> u16" where
  "le16 bs i = ucast (bs ! i) OR push_bit 8 (ucast (bs ! (i + 1)))"

definition le32 :: "u8 list \<Rightarrow> nat \<Rightarrow> u32" where
  "le32 bs i = ucast (bs ! i) OR push_bit 8 (ucast (bs ! (i + 1)))
     OR push_bit 16 (ucast (bs ! (i + 2))) OR push_bit 24 (ucast (bs ! (i + 3)))"

end
