(* ===== verification/Wey_Sort.thy ===== *)
theory Wey_Sort
  imports Wey_Prelude "HOL-Library.Multiset"
begin

text \<open>
  Insertion sort of an array as the kernel writes it: an inner loop that shifts the greater
  entries up and stores the key, and an outer loop over the array. The boot allocator and the
  firmware memory map each have their own copy of it.
\<close>

locale insertion_sort =
  fixes key :: "'a \<Rightarrow> 'k::linorder"
    and shift :: "nat \<Rightarrow> 'a \<Rightarrow> 'a list \<Rightarrow> 'a list"
    and sort_from :: "nat \<Rightarrow> 'a list \<Rightarrow> 'a list"
  assumes shift_0: "shift 0 x rs = rs[0 := x]"
    and shift_Suc: "shift (Suc j) x rs = (if key (rs ! j) > key x then shift j x (rs[Suc j := rs ! j]) else rs[Suc j := x])"
    and sort_from_eq: "sort_from i rs = (if i < length rs then sort_from (Suc i) (shift i (rs ! i) rs) else rs)"
begin

lemma shift_insert:
  "\<exists>us vs. ys = us @ vs \<and> shift (length ys) k (ys @ x # zs) = us @ k # vs @ zs
     \<and> (\<forall>v\<in>set vs. key k < key v) \<and> (us = [] \<or> key (last us) \<le> key k)"
proof (induction ys arbitrary: x zs rule: rev_induct)
  case Nil
  then show ?case by (simp add: shift_0)
next
  case (snoc y ys)
  show ?case
  proof (cases "key y > key k")
    case True
    from snoc.IH [of y "y # zs"] obtain us vs where *: "ys = us @ vs"
        "shift (length ys) k (ys @ y # y # zs) = us @ k # vs @ y # zs"
        "\<forall>v\<in>set vs. key k < key v" "us = [] \<or> key (last us) \<le> key k"
      by blast
    have "shift (length (ys @ [y])) k ((ys @ [y]) @ x # zs) = shift (length ys) k (ys @ y # y # zs)"
      using True by (simp add: shift_Suc nth_append list_update_append)
    with * True show ?thesis by (intro exI [of _ us] exI [of _ "vs @ [y]"]) auto
  next
    case False
    then show ?thesis
      by (intro exI [of _ "ys @ [y]"] exI [of _ "[]"]) (simp add: shift_Suc nth_append list_update_append)
  qed
qed

lemma shift_sorted:
  assumes "sorted (map key ys)"
  shows "\<exists>ys'. shift (length ys) k (ys @ x # zs) = ys' @ zs \<and> sorted (map key ys') \<and> mset ys' = add_mset k (mset ys)"
proof -
  from shift_insert [of ys k x zs] obtain us vs where *: "ys = us @ vs"
      "shift (length ys) k (ys @ x # zs) = us @ k # vs @ zs"
      "\<forall>v\<in>set vs. key k < key v" "us = [] \<or> key (last us) \<le> key k"
    by blast
  have "\<forall>u\<in>set us. key u \<le> key k"
  proof (cases us rule: rev_cases)
    case (snoc us' l)
    then show ?thesis using * assms by (auto simp: sorted_append intro: order_trans)
  qed simp
  then have "sorted (map key (us @ k # vs))"
    using * assms by (auto simp: sorted_append intro: less_imp_le)
  with * show ?thesis by (intro exI [of _ "us @ k # vs"]) simp
qed

lemma sort_from_sorted:
  assumes "sorted (map key (take i rs))" and "i \<le> length rs"
  shows "sorted (map key (sort_from i rs)) \<and> mset (sort_from i rs) = mset rs"
  using assms
proof (induction "length rs - i" arbitrary: i rs)
  case 0
  then show ?case by (simp add: sort_from_eq [of i])
next
  case (Suc d)
  then have i: "i < length rs" by linarith
  have rs: "rs = take i rs @ rs ! i # drop (Suc i) rs" using i by (simp add: id_take_nth_drop)
  from shift_sorted [OF Suc.prems(1), of "rs ! i" "rs ! i" "drop (Suc i) rs"] i
  obtain ys' where ys': "shift i (rs ! i) rs = ys' @ drop (Suc i) rs"
      "sorted (map key ys')" "mset ys' = add_mset (rs ! i) (mset (take i rs))"
    by (auto simp: rs [symmetric] min_def)
  have l: "length ys' = Suc i" using arg_cong [OF ys'(3), of size] i by simp
  have m: "mset (ys' @ drop (Suc i) rs) = mset rs" by (subst (2) rs) (simp add: ys'(3))
  have "sorted (map key (sort_from (Suc i) (ys' @ drop (Suc i) rs)))
      \<and> mset (sort_from (Suc i) (ys' @ drop (Suc i) rs)) = mset (ys' @ drop (Suc i) rs)"
    using Suc.hyps(2) l ys'(2) i by (intro Suc.hyps(1)) simp_all
  then show ?case using i ys'(1) m by (simp add: sort_from_eq [of i])
qed

lemma sort_correct: "sorted (map key (sort_from 1 rs)) \<and> mset (sort_from 1 rs) = mset rs"
proof (cases rs)
  case Nil
  then show ?thesis using sort_from_eq [of 1 "[]"] by simp
next
  case (Cons r rest)
  then show ?thesis by (intro sort_from_sorted) simp_all
qed

end

end
