(* ===== verification/Wey_Memblock.thy ===== *)
theory Wey_Memblock
  imports Wey_Sort
begin

text \<open>
  The boot-time physical allocator, \<open>memory/pmm/memblock.c\<close>. A region table is the list of the first \<open>count\<close> entries of the
  array \<open>regions\<close>; sorting and merging update that list by index in the order of the source,
  and are shown to compute the functional sort and merge.
\<close>

subsection \<open>Data\<close>

definition MAX_REGIONS :: nat where
  "MAX_REGIONS = 128"

definition UINTPTR_MAX :: u64 where
  "UINTPTR_MAX = 0xFFFFFFFF"

record memblock_region =
  mr_base :: u64
  mr_size :: u32

record memblock_type =
  mt_name :: string
  mt_regions :: "memblock_region list"
  mt_totalmem :: u64

record memblock =
  mb_memory :: memblock_type
  mb_reserved :: memblock_type

abbreviation mt_count :: "memblock_type \<Rightarrow> nat" where
  "mt_count t \<equiv> length (mt_regions t)"

subsection \<open>Sorting and merging the table\<close>

text \<open>The inner \<open>while\<close> loop of \<open>memblock_sort\<close> with its final store \<open>regions[j] = key\<close>.\<close>

fun memblock_sort_shift :: "nat \<Rightarrow> memblock_region \<Rightarrow> memblock_region list \<Rightarrow> memblock_region list" where
  "memblock_sort_shift 0 key rs = rs[0 := key]"
| "memblock_sort_shift (Suc j) key rs =
     (if mr_base (rs ! j) > mr_base key then memblock_sort_shift j key (rs[Suc j := rs ! j])
      else rs[Suc j := key])"

lemma length_sort_shift [simp]: "length (memblock_sort_shift j key rs) = length rs"
  by (induction j key rs rule: memblock_sort_shift.induct) auto

function memblock_sort_from :: "nat \<Rightarrow> memblock_region list \<Rightarrow> memblock_region list" where
  "memblock_sort_from i rs =
     (if i < length rs then memblock_sort_from (Suc i) (memblock_sort_shift i (rs ! i) rs) else rs)"
  by pat_completeness auto
termination
  by (relation "measure (\<lambda>(i, rs). length rs - i)") auto

declare memblock_sort_from.simps [simp del]

definition memblock_sort :: "memblock_type \<Rightarrow> memblock_type" where
  "memblock_sort t = t\<lparr>mt_regions := memblock_sort_from 1 (mt_regions t)\<rparr>"

text \<open>The end of a region, cut off at \<open>UINTPTR_MAX\<close>, as \<open>memblock_merge\<close> computes it.\<close>

definition region_end :: "memblock_region \<Rightarrow> u64" where
  "region_end r =
     (if ucast (mr_size r) > UINTPTR_MAX - mr_base r then UINTPTR_MAX
      else mr_base r + ucast (mr_size r))"

function memblock_merge_from ::
    "nat \<Rightarrow> nat \<Rightarrow> memblock_region list \<Rightarrow> nat \<times> memblock_region list" where
  "memblock_merge_from i out rs =
     (if i < length rs then
        let prev_base = mr_base (rs ! out); cur_base = mr_base (rs ! i);
            prev_end = region_end (rs ! out); cur_end = region_end (rs ! i)
        in if cur_base \<le> prev_end then
             if cur_end > prev_end
             then memblock_merge_from (Suc i) out
                    (rs[out := (rs ! out)\<lparr>mr_size := ucast (cur_end - prev_base)\<rparr>])
             else memblock_merge_from (Suc i) out rs
           else memblock_merge_from (Suc i) (Suc out) (rs[Suc out := rs ! i])
      else (out, rs))"
  by pat_completeness auto
termination
  by (relation "measure (\<lambda>(i, out, rs). length rs - i)") auto

declare memblock_merge_from.simps [simp del]

definition memblock_merge :: "memblock_type \<Rightarrow> memblock_type" where
  "memblock_merge t =
     (if mt_count t < 2 then t
      else let (out, rs) = memblock_merge_from 1 0 (mt_regions t); rs' = take (Suc out) rs
           in t\<lparr>mt_regions := rs', mt_totalmem := (\<Sum>r\<leftarrow>rs'. ucast (mr_size r))\<rparr>)"

subsection \<open>The interface\<close>

definition memblock_init :: "memblock \<Rightarrow> memblock" where
  "memblock_init mb =
     mb\<lparr>mb_reserved := (mb_reserved mb)\<lparr>mt_regions := [], mt_name := ''Reserved''\<rparr>,
        mb_memory := (mb_memory mb)\<lparr>mt_regions := [], mt_name := ''Memory''\<rparr>\<rparr>"

text \<open>The common body of \<open>memblock_reserve\<close> and \<open>memblock_add\<close> on their own table.\<close>

definition memblock_insert :: "u64 \<Rightarrow> u32 \<Rightarrow> memblock_type \<Rightarrow> memblock_type" where
  "memblock_insert base sz t =
     (if sz = 0 then t
      else if mt_count t \<ge> MAX_REGIONS then t
      else memblock_merge (memblock_sort
             (t\<lparr>mt_regions := mt_regions t @ [\<lparr>mr_base = base, mr_size = sz\<rparr>]\<rparr>)))"

definition memblock_reserve :: "u64 \<Rightarrow> u32 \<Rightarrow> memblock \<Rightarrow> memblock" where
  "memblock_reserve base sz mb = mb\<lparr>mb_reserved := memblock_insert base sz (mb_reserved mb)\<rparr>"

definition memblock_add :: "u64 \<Rightarrow> u32 \<Rightarrow> memblock \<Rightarrow> memblock" where
  "memblock_add base sz mb = mb\<lparr>mb_memory := memblock_insert base sz (mb_memory mb)\<rparr>"

definition memblock_is_reserved :: "u64 \<Rightarrow> u32 \<Rightarrow> memblock \<Rightarrow> bool" where
  "memblock_is_reserved base sz mb =
     (if ucast sz > UINTPTR_MAX - base then True
      else let e = base + ucast sz
           in list_ex (\<lambda>r. \<not> (e \<le> mr_base r \<or> base \<ge> mr_base r + ucast (mr_size r)))
                (mt_regions (mb_reserved mb)))"

text \<open>
  The \<open>while (cur + size <= end)\<close> loop both allocators share; the step is the alignment or 1.
  The value \<open>None\<close> stands for a loop that never ends, \<open>Some None\<close> for one that ends without a hit.
\<close>

partial_function (option) memblock_scan ::
    "memblock \<Rightarrow> u32 \<Rightarrow> u64 \<Rightarrow> u64 \<Rightarrow> u64 \<Rightarrow> u64 option option" where
  "memblock_scan mb sz step e cur =
     (if cur + ucast sz \<le> e then
        if \<not> memblock_is_reserved cur sz mb then Some (Some cur)
        else memblock_scan mb sz step e (cur + step)
      else Some None)"

text \<open>
  \<open>ALIGN_UP(start, align)\<close> mixes a 64-bit value with a 32-bit alignment: the mask
  \<open>~(align - 1)\<close> is computed in 32 bits and then widened.
\<close>

definition align_up_mixed :: "u64 \<Rightarrow> u32 \<Rightarrow> u64" where
  "align_up_mixed v a = (v + ucast a - 1) AND ucast (NOT (a - 1))"

fun memblock_alloc_loop ::
    "memblock \<Rightarrow> u32 \<Rightarrow> u32 \<Rightarrow> memblock_region list \<Rightarrow> u64 option option" where
  "memblock_alloc_loop mb sz align [] = Some None"
| "memblock_alloc_loop mb sz align (r # rs) =
     (if ucast (mr_size r) > UINTPTR_MAX - mr_base r then memblock_alloc_loop mb sz align rs
      else let e = mr_base r + ucast (mr_size r); cur = align_up_mixed (mr_base r) align
           in if ucast sz > UINTPTR_MAX - cur then Some None
              else case memblock_scan mb sz (ucast align) e cur of
                     None \<Rightarrow> None
                   | Some (Some a) \<Rightarrow> Some (Some a)
                   | Some None \<Rightarrow> memblock_alloc_loop mb sz align rs)"

definition memblock_alloc :: "u32 \<Rightarrow> u32 \<Rightarrow> memblock \<Rightarrow> (memblock \<times> addr) option" where
  "memblock_alloc sz align mb =
     (if sz = 0 then Some (mb, 0)
      else case memblock_alloc_loop mb sz (if align = 0 then 1 else align)
                  (mt_regions (mb_memory mb)) of
             None \<Rightarrow> None
           | Some None \<Rightarrow> Some (mb, 0)
           | Some (Some cur) \<Rightarrow> Some (memblock_reserve cur sz mb, ucast cur))"

fun memblock_alloc_range_loop ::
    "memblock \<Rightarrow> u32 \<Rightarrow> u64 \<Rightarrow> u64 \<Rightarrow> memblock_region list \<Rightarrow> u64 option option" where
  "memblock_alloc_range_loop mb sz base e [] = Some None"
| "memblock_alloc_range_loop mb sz base e (r # rs) =
     (let r_end = region_end r;
          alloc_start = (if mr_base r > base then mr_base r else base);
          alloc_end = (if r_end < e then r_end else e)
      in if alloc_start \<ge> alloc_end \<or> ucast sz > alloc_end - alloc_start
         then memblock_alloc_range_loop mb sz base e rs
         else case memblock_scan mb sz 1 alloc_end alloc_start of
                None \<Rightarrow> None
              | Some (Some a) \<Rightarrow> Some (Some a)
              | Some None \<Rightarrow> memblock_alloc_range_loop mb sz base e rs)"

definition memblock_alloc_range :: "u64 \<Rightarrow> u64 \<Rightarrow> u32 \<Rightarrow> memblock \<Rightarrow> (memblock \<times> addr) option" where
  "memblock_alloc_range base e sz mb =
     (if sz = 0 \<or> base \<ge> e then Some (mb, 0)
      else case memblock_alloc_range_loop mb sz base e (mt_regions (mb_memory mb)) of
             None \<Rightarrow> None
           | Some None \<Rightarrow> Some (mb, 0)
           | Some (Some cur) \<Rightarrow> Some (memblock_reserve cur sz mb, ucast cur))"

subsection \<open>Sorting\<close>

interpretation mbs: insertion_sort mr_base memblock_sort_shift memblock_sort_from
  by unfold_locales (simp, simp, rule memblock_sort_from.simps)

lemma memblock_sort_correct:
  "sorted (map mr_base (mt_regions (memblock_sort t))) \<and>
   mset (mt_regions (memblock_sort t)) = mset (mt_regions t)"
  unfolding memblock_sort_def using mbs.sort_correct by simp

subsection \<open>Merging\<close>

text \<open>The functional merge of a sorted table: the first region swallows what it touches.\<close>

fun merge_into :: "memblock_region \<Rightarrow> memblock_region list \<Rightarrow> memblock_region list" where
  "merge_into p [] = [p]"
| "merge_into p (c # cs) =
     (if mr_base c \<le> region_end p
      then merge_into (if region_end c > region_end p
                       then p\<lparr>mr_size := ucast (region_end c - mr_base p)\<rparr> else p) cs
      else p # merge_into c cs)"

lemma merge_from_eq:
  assumes "out < i" and "i \<le> length rs"
  shows "take (Suc (fst (memblock_merge_from i out rs))) (snd (memblock_merge_from i out rs))
         = take out rs @ merge_into (rs ! out) (drop i rs)"
  using assms
proof (induction i out rs rule: memblock_merge_from.induct)
  case (1 i out rs)
  show ?case
  proof (cases "i < length rs")
    case True
    then have d: "drop i rs = rs ! i # drop (Suc i) rs" by (simp add: Cons_nth_drop_Suc)
    consider (grow) "mr_base (rs ! i) \<le> region_end (rs ! out)" "region_end (rs ! i) > region_end (rs ! out)"
      | (keep) "mr_base (rs ! i) \<le> region_end (rs ! out)" "\<not> region_end (rs ! i) > region_end (rs ! out)"
      | (move) "\<not> mr_base (rs ! i) \<le> region_end (rs ! out)" by blast
    then show ?thesis
    proof cases
      case grow
      then show ?thesis
        using "1.IH"(1) [OF True refl refl refl refl grow] "1.prems" True
        by (simp add: memblock_merge_from.simps [of i] Let_def d)
    next
      case keep
      then show ?thesis
        using "1.IH"(2) [OF True refl refl refl refl keep] "1.prems" True
        by (simp add: memblock_merge_from.simps [of i] Let_def d)
    next
      case move
      have t: "take (Suc out) (rs[Suc out := rs ! i]) = take out rs @ [rs ! out]"
        using "1.prems" True by (simp add: take_Suc_conv_app_nth)
      show ?thesis
        using "1.IH"(3) [OF True refl refl refl refl move] "1.prems" True move
        by (simp add: memblock_merge_from.simps [of i] Let_def d t)
    qed
  next
    case False
    then show ?thesis
      using "1.prems" by (simp add: memblock_merge_from.simps take_Suc_conv_app_nth)
  qed
qed

text \<open>The addresses of a region and of a table, as natural numbers.\<close>

abbreviation lo :: "memblock_region \<Rightarrow> nat" where
  "lo r \<equiv> unat (mr_base r)"

abbreviation hi :: "memblock_region \<Rightarrow> nat" where
  "hi r \<equiv> unat (mr_base r) + unat (mr_size r)"

definition covers :: "memblock_region list \<Rightarrow> nat set" where
  "covers rs = (\<Union>r\<in>set rs. {lo r..<hi r})"

definition region_ok :: "memblock_region \<Rightarrow> bool" where
  "region_ok r \<longleftrightarrow> 0 < unat (mr_size r) \<and> hi r \<le> 0xFFFFFFFF"

text \<open>The table invariant: regions below 4 GiB, in increasing order, with gaps between them.\<close>

definition table_ok :: "memblock_region list \<Rightarrow> bool" where
  "table_ok rs \<longleftrightarrow> (\<forall>r\<in>set rs. region_ok r) \<and> sorted_wrt (\<lambda>a b. hi a < lo b) rs"

lemma covers_simps [simp]:
  "covers [] = {}"
  "covers (r # rs) = {lo r..<hi r} \<union> covers rs"
  "covers (rs @ rs') = covers rs \<union> covers rs'"
  by (auto simp: covers_def)

lemma covers_mset: "mset rs = mset rs' \<Longrightarrow> covers rs = covers rs'"
  by (drule mset_eq_setD) (simp add: covers_def)

lemma unat_uintptr_minus:
  assumes "unat b \<le> 0xFFFFFFFF"
  shows "unat (UINTPTR_MAX - b) = 0xFFFFFFFF - unat b"
  using assms unfolding UINTPTR_MAX_def by (subst unat_sub_no_wrap) simp_all

lemma size_fits_iff:
  fixes s :: u32
  assumes "unat b \<le> 0xFFFFFFFF"
  shows "ucast s > UINTPTR_MAX - b \<longleftrightarrow> unat b + unat s > 0xFFFFFFFF"
  using assms by (auto simp: word_less_nat_alt unat_uintptr_minus)

lemma unat_base_plus_size:
  fixes s :: u32
  assumes "unat b \<le> 0xFFFFFFFF"
  shows "unat (b + ucast s :: u64) = unat b + unat s"
proof -
  have "unat b + unat s < 18446744073709551616" using assms unat_32_bound [of s] by linarith
  then show ?thesis by (subst unat_add_no_wrap) simp_all
qed

lemma unat_region_end:
  assumes "region_ok r"
  shows "unat (region_end r) = hi r"
proof -
  have "lo r \<le> 0xFFFFFFFF" "hi r \<le> 0xFFFFFFFF" using assms by (simp_all add: region_ok_def)
  then show ?thesis by (simp add: region_end_def size_fits_iff unat_base_plus_size)
qed

lemma grown_region:
  assumes "region_ok p" and "region_ok c" and "mr_base p \<le> mr_base c"
    and "region_end c > region_end p"
  defines "p' \<equiv> p\<lparr>mr_size := ucast (region_end c - mr_base p)\<rparr>"
  shows "region_ok p' \<and> lo p' = lo p \<and> hi p' = hi c"
proof -
  have le: "lo p \<le> lo c" using assms(3) by (simp add: word_le_nat_alt)
  have "unat (region_end c - mr_base p) = hi c - lo p"
    using le by (subst unat_sub_no_wrap) (simp_all add: unat_region_end [OF assms(2)])
  moreover have "hi c - lo p < 4294967296"
    using assms(2) unfolding region_ok_def by linarith
  ultimately have "unat (mr_size p') = hi c - lo p"
    by (simp add: p'_def unsigned_ucast_eq take_bit_nat_eq_self)
  with le assms(2) show ?thesis by (simp add: p'_def region_ok_def)
qed

lemma merge_into_correct:
  assumes "region_ok p" and "\<forall>c\<in>set cs. region_ok c" and "sorted (map mr_base (p # cs))"
  shows "table_ok (merge_into p cs) \<and> covers (merge_into p cs) = covers (p # cs)
    \<and> (\<forall>r\<in>set (merge_into p cs). lo p \<le> lo r)"
  using assms
proof (induction p cs rule: merge_into.induct)
  case (1 p)
  then show ?case by (simp add: table_ok_def)
next
  case (2 p c cs)
  have ok: "region_ok p" "region_ok c" and le: "mr_base p \<le> mr_base c" "lo p \<le> lo c"
    using "2.prems" by (auto simp: word_le_nat_alt)
  note e = unat_region_end [OF ok(1)] unat_region_end [OF ok(2)]
  show ?case
  proof (cases "mr_base c \<le> region_end p")
    case touch: True
    then have t: "lo c \<le> hi p" by (simp add: word_le_nat_alt e)
    define p' where "p' = (if region_end c > region_end p
                          then p\<lparr>mr_size := ucast (region_end c - mr_base p)\<rparr> else p)"
    have p': "region_ok p'" "mr_base p' = mr_base p" "hi p' = max (hi p) (hi c)"
      using grown_region [OF ok le(1)] ok unfolding p'_def by (auto simp: word_less_nat_alt e)
    have "sorted (map mr_base (p' # cs))" using "2.prems"(3) p'(2) by auto
    with "2.IH"(1) [OF touch, folded p'_def] p' "2.prems"
    have "table_ok (merge_into p' cs)" "covers (merge_into p' cs) = covers (p' # cs)"
         "\<forall>r\<in>set (merge_into p' cs). lo p \<le> lo r" by simp_all
    moreover have "{lo p'..<hi p'} = {lo p..<hi p} \<union> {lo c..<hi c}"
      using p'(2,3) t le by auto
    ultimately show ?thesis using touch by (simp add: p'_def [symmetric] Un_assoc)
  next
    case False
    then have g: "hi p < lo c" by (simp add: word_le_nat_alt e)
    have "table_ok (merge_into c cs) \<and> covers (merge_into c cs) = covers (c # cs)
        \<and> (\<forall>r\<in>set (merge_into c cs). lo c \<le> lo r)"
      using "2.IH"(2) [OF False] "2.prems" by simp
    with g le ok False show ?thesis by (fastforce simp: table_ok_def)
  qed
qed

lemma memblock_merge_correct:
  assumes "\<forall>r\<in>set (mt_regions t). region_ok r" and "sorted (map mr_base (mt_regions t))"
  shows "table_ok (mt_regions (memblock_merge t)) \<and>
         covers (mt_regions (memblock_merge t)) = covers (mt_regions t)"
proof (cases "mt_regions t")
  case Nil
  then show ?thesis by (simp add: memblock_merge_def table_ok_def)
next
  case (Cons r rs)
  show ?thesis
  proof (cases rs)
    case Nil
    then show ?thesis using Cons assms by (simp add: memblock_merge_def table_ok_def)
  next
    case (Cons r' rs')
    have "mt_regions (memblock_merge t) = merge_into r rs"
      using merge_from_eq [of 0 1 "r # rs"] \<open>mt_regions t = r # rs\<close> Cons
      by (simp add: memblock_merge_def Let_def split_beta)
    then show ?thesis
      using merge_into_correct [of r rs] assms \<open>mt_regions t = r # rs\<close> by simp
  qed
qed

lemma memblock_insert_ok:
  assumes "table_ok (mt_regions t)" and "unat base + unat sz \<le> 0xFFFFFFFF"
  shows "table_ok (mt_regions (memblock_insert base sz t))"
    and "mt_count t < MAX_REGIONS \<Longrightarrow>
         covers (mt_regions (memblock_insert base sz t))
         = covers (mt_regions t) \<union> {unat base..<unat base + unat sz}"
proof -
  let ?r = "\<lparr>mr_base = base, mr_size = sz\<rparr>"
  let ?t = "memblock_sort (t\<lparr>mt_regions := mt_regions t @ [?r]\<rparr>)"
  have s: "sorted (map mr_base (mt_regions ?t))"
      "mset (mt_regions ?t) = mset (mt_regions t @ [?r])"
    using memblock_sort_correct [of "t\<lparr>mt_regions := mt_regions t @ [?r]\<rparr>"] by simp_all
  have "sz \<noteq> 0 \<Longrightarrow> table_ok (mt_regions (memblock_merge ?t)) \<and>
      covers (mt_regions (memblock_merge ?t)) = covers (mt_regions ?t)"
  proof (rule memblock_merge_correct)
    assume "sz \<noteq> 0"
    then have "region_ok ?r" using assms(2) by (simp add: region_ok_def unat_gt_0)
    then show "\<forall>r\<in>set (mt_regions ?t). region_ok r"
      using assms(1) mset_eq_setD [OF s(2)] by (auto simp: table_ok_def)
  qed (rule s)
  moreover have "covers (mt_regions ?t) = covers (mt_regions t) \<union> {unat base..<unat base + unat sz}"
    by (simp add: covers_mset [OF s(2)])
  ultimately show "table_ok (mt_regions (memblock_insert base sz t))"
    and "mt_count t < MAX_REGIONS \<Longrightarrow> covers (mt_regions (memblock_insert base sz t))
         = covers (mt_regions t) \<union> {unat base..<unat base + unat sz}"
    using assms(1) by (auto simp: memblock_insert_def)
qed

subsection \<open>Searching\<close>

abbreviation reserved_set :: "memblock \<Rightarrow> nat set" where
  "reserved_set mb \<equiv> covers (mt_regions (mb_reserved mb))"

lemma meets_UN: "(\<exists>r\<in>S. A \<inter> f r \<noteq> {}) \<longleftrightarrow> A \<inter> (\<Union>r\<in>S. f r) \<noteq> {}"
  by blast

lemma is_reserved_iff:
  assumes "table_ok (mt_regions (mb_reserved mb))" and "sz \<noteq> 0"
    and "unat b + unat sz \<le> 0xFFFFFFFF"
  shows "memblock_is_reserved b sz mb \<longleftrightarrow> {unat b..<unat b + unat sz} \<inter> reserved_set mb \<noteq> {}"
proof -
  have b: "unat b \<le> 0xFFFFFFFF" using assms(3) by linarith
  have s: "0 < unat sz" using assms(2) by (simp add: unat_gt_0)
  have "(\<not> (b + ucast sz \<le> mr_base r \<or> b \<ge> mr_base r + ucast (mr_size r)))
      \<longleftrightarrow> {unat b..<unat b + unat sz} \<inter> {lo r..<hi r} \<noteq> {}"
    if "r \<in> set (mt_regions (mb_reserved mb))" for r
  proof -
    have r: "0 < unat (mr_size r)" "lo r \<le> 0xFFFFFFFF"
      using that assms(1) by (auto simp: table_ok_def region_ok_def)
    have "{unat b..<unat b + unat sz} \<inter> {lo r..<hi r} \<noteq> {} \<longleftrightarrow> lo r < unat b + unat sz \<and> unat b < hi r"
      unfolding Int_atLeastLessThan using s r(1) by auto
    then show ?thesis using b r by (auto simp: word_le_nat_alt unat_base_plus_size not_le)
  qed
  then have "(\<exists>r\<in>set (mt_regions (mb_reserved mb)).
        \<not> (b + ucast sz \<le> mr_base r \<or> b \<ge> mr_base r + ucast (mr_size r)))
      \<longleftrightarrow> {unat b..<unat b + unat sz} \<inter> reserved_set mb \<noteq> {}"
    unfolding covers_def meets_UN [symmetric] by (rule bex_cong [OF refl])
  moreover have "\<not> ucast sz > UINTPTR_MAX - b" using assms(3) by (simp add: size_fits_iff [OF b])
  ultimately show ?thesis
    unfolding memblock_is_reserved_def Let_def list_ex_iff by (simp only: if_False)
qed

text \<open>A position the scan may return: on the grid, inside the window, and not reserved.\<close>

definition scan_hit :: "memblock \<Rightarrow> u32 \<Rightarrow> nat \<Rightarrow> nat \<Rightarrow> nat \<Rightarrow> nat \<Rightarrow> bool" where
  "scan_hit mb sz step e cur b \<longleftrightarrow>
     (\<exists>k. b = cur + k * step) \<and> b + unat sz \<le> e \<and> {b..<b + unat sz} \<inter> reserved_set mb = {}"

definition is_least_hit :: "(nat \<Rightarrow> bool) \<Rightarrow> u64 option \<Rightarrow> bool" where
  "is_least_hit P res =
     (case res of None \<Rightarrow> \<forall>b. \<not> P b | Some a \<Rightarrow> P (unat a) \<and> (\<forall>b. P b \<longrightarrow> unat a \<le> b))"

lemma is_least_hit_cong: "(\<And>b. P b \<longleftrightarrow> Q b) \<Longrightarrow> is_least_hit P res = is_least_hit Q res"
  by (cases res) (simp_all add: is_least_hit_def)

lemma grid_shift: "(\<exists>k. b = cur + k * step) \<longleftrightarrow> b = cur \<or> (\<exists>k. b = cur + step + k * (step::nat))"
  (is "?L \<longleftrightarrow> ?R")
proof
  assume ?L
  then obtain k where k: "b = cur + k * step" ..
  then show ?R by (cases k) (auto simp: algebra_simps)
next
  assume ?R
  then consider "b = cur" | k where "b = cur + step + k * step" by blast
  then show ?L
  proof cases
    case 1
    then show ?thesis by (intro exI [of _ 0]) simp
  next
    case (2 k)
    then show ?thesis by (intro exI [of _ "Suc k"]) simp
  qed
qed

lemma memblock_scan_least:
  assumes "table_ok (mt_regions (mb_reserved mb))" and "sz \<noteq> 0" and "step \<noteq> 0"
    and "unat step \<le> 0xFFFFFFFF" and "unat e \<le> 0xFFFFFFFF" and "unat cur \<le> 0x1FFFFFFFF"
  shows "\<exists>res. memblock_scan mb sz step e cur = Some res
    \<and> is_least_hit (scan_hit mb sz (unat step) (unat e) (unat cur)) res"
  using assms(6)
proof (induction "unat e + 1 - unat cur" arbitrary: cur rule: less_induct)
  case less
  have "unat cur + unat sz < 18446744073709551616"
    using less.prems unat_32_bound [of sz] by linarith
  then have u: "unat (cur + ucast sz) = unat cur + unat sz" by (subst unat_add_no_wrap) simp_all
  show ?case
  proof (cases "cur + ucast sz \<le> e")
    case True
    then have le: "unat cur + unat sz \<le> unat e" by (simp add: word_le_nat_alt u)
    with assms(5) have r: "memblock_is_reserved cur sz mb
        \<longleftrightarrow> {unat cur..<unat cur + unat sz} \<inter> reserved_set mb \<noteq> {}"
      by (intro is_reserved_iff assms(1,2)) linarith
    show ?thesis
    proof (cases "memblock_is_reserved cur sz mb")
      case res: True
      have "0 < unat step" using assms(3) by (simp add: unat_gt_0)
      moreover have c: "unat cur \<le> unat e" using le by linarith
      moreover have us: "unat (cur + step) = unat cur + unat step"
        using c assms(4,5) by (subst unat_add_no_wrap) simp_all
      ultimately have "unat e + 1 - unat (cur + step) < unat e + 1 - unat cur"
        "unat (cur + step) \<le> 0x1FFFFFFFF"
        using assms(4,5) by linarith+
      from less.hyps [OF this] obtain r' where r': "memblock_scan mb sz step e (cur + step) = Some r'"
          "is_least_hit (scan_hit mb sz (unat step) (unat e) (unat cur + unat step)) r'"
        unfolding us by blast
      have "scan_hit mb sz (unat step) (unat e) (unat cur + unat step) b
          \<longleftrightarrow> scan_hit mb sz (unat step) (unat e) (unat cur) b" for b
        unfolding scan_hit_def grid_shift [of b "unat cur"] using res r by blast
      then have "is_least_hit (scan_hit mb sz (unat step) (unat e) (unat cur)) r'"
        using r'(2) is_least_hit_cong by blast
      then show ?thesis
        using True res r'(1) by (subst memblock_scan.simps) simp
    next
      case False
      then have "is_least_hit (scan_hit mb sz (unat step) (unat e) (unat cur)) (Some cur)"
        using le r by (auto simp: is_least_hit_def scan_hit_def)
      with True False show ?thesis by (subst memblock_scan.simps) simp
    qed
  next
    case False
    then have "\<not> unat cur + unat sz \<le> unat e" by (simp add: word_le_nat_alt u)
    then have "is_least_hit (scan_hit mb sz (unat step) (unat e) (unat cur)) None"
      by (auto simp: is_least_hit_def scan_hit_def)
    with False show ?thesis by (subst memblock_scan.simps) simp
  qed
qed

subsection \<open>Allocation is first fit\<close>

text \<open>An aligned block inside one region of \<open>rs\<close> that is not reserved.\<close>

definition free_slot :: "memblock \<Rightarrow> u32 \<Rightarrow> nat \<Rightarrow> memblock_region list \<Rightarrow> nat \<Rightarrow> bool" where
  "free_slot mb sz align rs a \<longleftrightarrow>
     align dvd a \<and> (\<exists>r\<in>set rs. lo r \<le> a \<and> a + unat sz \<le> hi r)
     \<and> {a..<a + unat sz} \<inter> reserved_set mb = {}"

lemma round_up_le_iff:
  fixes a b v :: nat
  assumes "0 < a" and "a dvd b"
  shows "(v + a - 1) - (v + a - 1) mod a \<le> b \<longleftrightarrow> v \<le> b"
proof -
  have e: "(v + a - 1) - (v + a - 1) mod a = (v + a - 1) div a * a"
    by (simp only: minus_mod_eq_div_mult)
  from assms(2) obtain k where k: "b = k * a" by (metis dvd_def mult.commute)
  have "(v + a - 1) div a * a \<le> k * a \<longleftrightarrow> (v + a - 1) div a \<le> k" using assms(1) by simp
  also have "\<dots> \<longleftrightarrow> v + a - 1 < Suc k * a"
    using div_less_iff_less_mult [OF assms(1), of "v + a - 1" "Suc k"] by (simp only: less_Suc_eq_le)
  also have "\<dots> \<longleftrightarrow> v \<le> k * a" using assms(1) unfolding mult_Suc by linarith
  finally show ?thesis unfolding e k .
qed

lemma unat_align_up_mixed:
  fixes v :: u64 and a :: u32
  assumes "a = 2 ^ k" and "k < 32" and "unat v + unat a \<le> 4294967296"
  shows "unat (align_up_mixed v a) = (unat v + unat a - 1) - (unat v + unat a - 1) mod unat a"
proof -
  have a: "unat a = 2 ^ k" using assms(1,2) by (simp only:) (rule unat_power_of_two, simp)
  have w: "ucast a = (2 ^ k :: u64)"
    using assms(2) by (simp add: word_unat_eq_iff a unat_power_of_two)
  have one: "1 \<le> unat a" unfolding a by simp
  have "unat (v + ucast a) = unat v + unat a"
    using assms(3) by (subst unat_add_no_wrap) simp_all
  then have s: "unat (v + ucast a - 1) = unat v + unat a - 1"
    using one by (subst unat_sub_no_wrap) simp_all
  have "align_up_mixed v a = ALIGN_UP v (2 ^ k)"
    unfolding align_up_mixed_def ALIGN_UP_def w [symmetric]
  proof (rule bit_eqI)
    fix n
    have hi: "\<not> bit (v + ucast a - 1) n" if "32 \<le> n"
    proof -
      have "unat (v + ucast a - 1) < 2 ^ 32" unfolding s using assms(3) one by simp
      also have "\<dots> \<le> 2 ^ n" using that by (simp only: power_increasing one_le_numeral)
      finally have "\<not> bit (unat (v + ucast a - 1)) n" by (simp add: bit_iff_odd)
      then show ?thesis by (simp add: bit_unsigned_iff)
    qed
    have "ucast a - 1 = (ucast (a - 1) :: u64)"
      using one by (simp add: word_unat_eq_iff unat_sub_no_wrap)
    then show "bit ((v + ucast a - 1) AND ucast (NOT (a - 1))) n
        \<longleftrightarrow> bit ((v + ucast a - 1) AND NOT (ucast a - 1)) n"
      using hi by (cases "n < 32") (auto simp: bit_simps)
  qed
  then show ?thesis
    using assms(2,3) by (simp add: unat_ALIGN_UP a)
qed

lemma alloc_window:
  assumes "align = 2 ^ k" and "k < 32" and "lo r + unat align \<le> 4294967296" and "region_ok r"
  defines "cur \<equiv> align_up_mixed (mr_base r) align"
  shows "unat cur \<le> 0xFFFFFFFF"
    and "unat align dvd b \<Longrightarrow> unat cur \<le> b \<longleftrightarrow> lo r \<le> b"
    and "scan_hit mb sz (unat align) (hi r) (unat cur) b \<longleftrightarrow> free_slot mb sz (unat align) [r] b"
proof -
  have pos: "0 < unat align" using assms(1,2) by (simp add: unat_power_of_two)
  note c = unat_align_up_mixed [OF assms(1-3), folded cur_def]
  show "unat cur \<le> 0xFFFFFFFF" unfolding c using assms(3) pos by linarith
  show le: "unat cur \<le> b \<longleftrightarrow> lo r \<le> b" if "unat align dvd b" for b
    unfolding c by (rule round_up_le_iff [OF pos that])
  have "unat align dvd unat cur" unfolding c by (rule dvd_minus_mod)
  then have "(\<exists>j. b = unat cur + j * unat align) \<longleftrightarrow> unat align dvd b \<and> unat cur \<le> b"
    by (auto simp: le_iff_add dvd_add_right_iff elim!: dvdE) (metis dvd_add_right_iff dvd_def dvd_triv_left mult.commute)
  then show "scan_hit mb sz (unat align) (hi r) (unat cur) b \<longleftrightarrow> free_slot mb sz (unat align) [r] b"
    using le [of b] by (auto simp: scan_hit_def free_slot_def)
qed

lemma free_slot_Cons:
  "free_slot mb sz al (r # rs) b \<longleftrightarrow> free_slot mb sz al [r] b \<or> free_slot mb sz al rs b"
  by (auto simp: free_slot_def)

lemma free_slot_later:
  assumes "table_ok (r # rs)" and "free_slot mb sz al rs b"
  shows "hi r < b"
  using assms by (auto simp: free_slot_def table_ok_def intro: less_le_trans)

lemma least_hit_first:
  assumes "is_least_hit P (Some a)" and "\<And>b. Q b \<Longrightarrow> unat a \<le> b"
  shows "is_least_hit (\<lambda>b. P b \<or> Q b) (Some a)"
  using assms by (auto simp: is_least_hit_def)

lemma alloc_loop_least:
  assumes "table_ok rs" and "table_ok (mt_regions (mb_reserved mb))" and "sz \<noteq> 0"
    and "align = 2 ^ k" and "k < 32" and "\<forall>r\<in>set rs. lo r + unat align \<le> 4294967296"
  shows "\<exists>res. memblock_alloc_loop mb sz align rs = Some res
    \<and> is_least_hit (free_slot mb sz (unat align) rs) res"
  using assms(1,6)
proof (induction rs)
  case Nil
  then show ?case by (simp add: is_least_hit_def free_slot_def)
next
  case (Cons r rs)
  let ?cur = "align_up_mixed (mr_base r) align" and ?e = "mr_base r + ucast (mr_size r)"
  have ok: "region_ok r" and rs: "table_ok rs" using Cons.prems(1) by (auto simp: table_ok_def)
  then have lo: "lo r \<le> 0xFFFFFFFF" and hi: "hi r \<le> 0xFFFFFFFF" by (auto simp: region_ok_def)
  have e: "unat ?e = hi r" by (rule unat_base_plus_size [OF lo])
  have al: "lo r + unat align \<le> 4294967296" using Cons.prems(2) by simp
  note win = alloc_window [OF assms(4,5) al ok]
  show ?case
  proof (cases "ucast sz > UINTPTR_MAX - ?cur")
    case True
    then have big: "unat ?cur + unat sz > 0xFFFFFFFF" by (simp add: size_fits_iff [OF win(1)])
    have "\<not> free_slot mb sz (unat align) (r # rs) b" for b
    proof
      assume f: "free_slot mb sz (unat align) (r # rs) b"
      then have d: "unat align dvd b" by (simp add: free_slot_def)
      from free_slot_Cons [THEN iffD1, OF f] have "lo r \<le> b"
      proof
        assume "free_slot mb sz (unat align) rs b"
        from free_slot_later [OF Cons.prems(1) this] show ?thesis by simp
      qed (simp add: free_slot_def)
      then have "unat ?cur \<le> b" using win(2) [OF d] by simp
      moreover have "b + unat sz \<le> 0xFFFFFFFF"
        using f Cons.prems(1) by (fastforce simp: free_slot_def table_ok_def region_ok_def)
      ultimately show False using big by linarith
    qed
    with True show ?thesis
      using lo hi by (simp add: size_fits_iff [OF lo] is_least_hit_def)
  next
    case False
    have st: "align \<noteq> 0" using assms(4,5) unat_power_of_two [of k, where 'a = 32] by force
    have "unat align \<le> 0xFFFFFFFF" using unat_32_bound [of align] by linarith
    then have "\<exists>res. memblock_scan mb sz (ucast align) ?e ?cur = Some res
        \<and> is_least_hit (scan_hit mb sz (unat (ucast align :: u64)) (unat ?e) (unat ?cur)) res"
      using win(1) e hi st
      by (intro memblock_scan_least assms(2,3)) (auto simp: word_unat_eq_iff)
    then obtain res where res: "memblock_scan mb sz (ucast align) ?e ?cur = Some res"
        "is_least_hit (free_slot mb sz (unat align) [r]) res"
      unfolding e using is_least_hit_cong [OF win(3)] by auto
    show ?thesis
    proof (cases res)
      case None
      with res(2) have n: "free_slot mb sz (unat align) (r # rs) = free_slot mb sz (unat align) rs"
        by (intro ext) (subst free_slot_Cons, simp add: is_least_hit_def)
      show ?thesis using Cons.IH [OF rs] Cons.prems(2) False lo hi res(1) None
        by (simp add: size_fits_iff [OF lo] n)
    next
      case (Some a)
      have "unat a \<le> b" if "free_slot mb sz (unat align) rs b" for b
        using free_slot_later [OF Cons.prems(1) that] res(2) Some
        by (auto simp: is_least_hit_def free_slot_def)
      then have "is_least_hit (free_slot mb sz (unat align) (r # rs)) (Some a)"
        unfolding is_least_hit_cong [of "free_slot mb sz (unat align) (r # rs)", OF free_slot_Cons]
        by (rule least_hit_first [OF res(2) [unfolded Some]])
      with False lo hi res(1) Some show ?thesis by (simp add: size_fits_iff [OF lo])
    qed
  qed
qed

subsection \<open>Allocation in a range\<close>

definition range_slot :: "memblock \<Rightarrow> u32 \<Rightarrow> u64 \<Rightarrow> u64 \<Rightarrow> memblock_region list \<Rightarrow> nat \<Rightarrow> bool" where
  "range_slot mb sz base e rs a \<longleftrightarrow> free_slot mb sz 1 rs a \<and> unat base \<le> a \<and> a + unat sz \<le> unat e"

lemma range_slot_Cons:
  "range_slot mb sz base e (r # rs) b \<longleftrightarrow> range_slot mb sz base e [r] b \<or> range_slot mb sz base e rs b"
  unfolding range_slot_def using free_slot_Cons [of mb sz 1 r rs b] by blast

lemma range_window:
  fixes base e :: u64
  assumes "region_ok r" and "sz \<noteq> 0"
  defines "s \<equiv> (if mr_base r > base then mr_base r else base)"
    and "t \<equiv> (if region_end r < e then region_end r else e)"
  shows "scan_hit mb sz 1 (unat t) (unat s) b \<longleftrightarrow> range_slot mb sz base e [r] b"
    and "unat t \<le> 0xFFFFFFFF"
    and "s < t \<and> \<not> ucast sz > t - s \<or> (\<forall>b. \<not> range_slot mb sz base e [r] b)"
proof -
  have end_r: "unat (region_end r) = hi r" by (rule unat_region_end [OF assms(1)])
  have s: "unat s = max (lo r) (unat base)" by (simp add: s_def word_less_nat_alt)
  have t: "unat t = min (hi r) (unat e)" by (simp add: t_def word_less_nat_alt end_r)
  show hit: "scan_hit mb sz 1 (unat t) (unat s) b \<longleftrightarrow> range_slot mb sz base e [r] b" for b
    by (auto simp: scan_hit_def range_slot_def free_slot_def s t intro: le_Suc_ex)
  show "unat t \<le> 0xFFFFFFFF" using assms(1) by (auto simp: t region_ok_def)
  have pos: "0 < unat sz" using assms(2) by (simp add: unat_gt_0)
  show "s < t \<and> \<not> ucast sz > t - s \<or> (\<forall>b. \<not> range_slot mb sz base e [r] b)"
  proof (cases "unat s + unat sz \<le> unat t")
    case True
    then have "unat s < unat t" using pos by linarith
    moreover from this have "unat (t - s) = unat t - unat s" by (simp add: unat_sub_no_wrap)
    ultimately show ?thesis using True by (auto simp: word_less_nat_alt)
  next
    case False
    then show ?thesis unfolding hit [symmetric] by (auto simp: scan_hit_def)
  qed
qed

lemma alloc_range_loop_least:
  assumes "table_ok rs" and "table_ok (mt_regions (mb_reserved mb))" and "sz \<noteq> 0"
  shows "\<exists>res. memblock_alloc_range_loop mb sz base e rs = Some res
    \<and> is_least_hit (range_slot mb sz base e rs) res"
  using assms(1)
proof (induction rs)
  case Nil
  then show ?case by (simp add: is_least_hit_def range_slot_def free_slot_def)
next
  case (Cons r rs)
  let ?s = "if mr_base r > base then mr_base r else base"
  let ?t = "if region_end r < e then region_end r else e"
  have ok: "region_ok r" and rs: "table_ok rs" using Cons.prems by (auto simp: table_ok_def)
  note win = range_window(1) [OF ok assms(3), of mb e base] range_window(2) [OF ok assms(3), of e]
    range_window(3) [OF ok assms(3), of base e mb]
  show ?case
  proof (cases "?s \<ge> ?t \<or> ucast sz > ?t - ?s")
    case True
    then have "\<not> range_slot mb sz base e [r] b" for b using win(3) by (auto simp: not_less)
    then have n: "range_slot mb sz base e (r # rs) = range_slot mb sz base e rs"
      by (intro ext) (subst range_slot_Cons, simp)
    show ?thesis unfolding n memblock_alloc_range_loop.simps Let_def if_P [OF True]
      by (rule Cons.IH [OF rs])
  next
    case False
    then have "unat ?s \<le> unat ?t" by (simp add: word_le_nat_alt not_le)
    with win(2) have s: "unat ?s \<le> 0x1FFFFFFFF" by linarith
    obtain res where res: "memblock_scan mb sz 1 ?t ?s = Some res"
        "is_least_hit (scan_hit mb sz (unat (1 :: u64)) (unat ?t) (unat ?s)) res"
      using memblock_scan_least [OF assms(2,3) _ _ win(2) s, of 1] by auto
    then have l: "is_least_hit (range_slot mb sz base e [r]) res"
      unfolding unat_1 is_least_hit_cong [OF win(1)] by blast
    show ?thesis
    proof (cases res)
      case None
      with l have n: "range_slot mb sz base e (r # rs) = range_slot mb sz base e rs"
        by (intro ext) (subst range_slot_Cons, simp add: is_least_hit_def)
      show ?thesis
        unfolding n memblock_alloc_range_loop.simps Let_def if_not_P [OF False] res(1) None option.case
        by (rule Cons.IH [OF rs])
    next
      case (Some a)
      have "unat a \<le> b" if "range_slot mb sz base e rs b" for b
        using free_slot_later [OF Cons.prems, of mb sz 1 b] that l Some
        by (auto simp: is_least_hit_def range_slot_def free_slot_def)
      then have "is_least_hit (range_slot mb sz base e (r # rs)) (Some a)"
        unfolding is_least_hit_cong [of "range_slot mb sz base e (r # rs)", OF range_slot_Cons]
        by (rule least_hit_first [OF l [unfolded Some]])
      then show ?thesis
        unfolding memblock_alloc_range_loop.simps Let_def if_not_P [OF False] res(1) Some option.case by blast
    qed
  qed
qed

subsection \<open>Properties\<close>

definition memblock_ok :: "memblock \<Rightarrow> bool" where
  "memblock_ok mb \<longleftrightarrow> table_ok (mt_regions (mb_memory mb)) \<and> table_ok (mt_regions (mb_reserved mb))"

text \<open>A machine with 64 KiB at 0x1000 of which the first 2 KiB are reserved.\<close>

definition small_machine :: memblock where
  "small_machine =
     \<lparr>mb_memory = \<lparr>mt_name = ''Memory'', mt_regions = [\<lparr>mr_base = 0x1000, mr_size = 0x10000\<rparr>], mt_totalmem = 0\<rparr>,
      mb_reserved = \<lparr>mt_name = ''Reserved'', mt_regions = [\<lparr>mr_base = 0x1000, mr_size = 0x800\<rparr>], mt_totalmem = 0\<rparr>\<rparr>"

lemma small_machine_ok: "memblock_ok small_machine"
  by (simp add: memblock_ok_def small_machine_def table_ok_def region_ok_def)

lemma reserve_found:
  assumes "memblock_ok mb" and "mt_count (mb_reserved mb) < MAX_REGIONS"
    and "unat cur + unat sz \<le> 0xFFFFFFFF"
  shows "memblock_ok (memblock_reserve cur sz mb) \<and> mb_memory (memblock_reserve cur sz mb) = mb_memory mb
    \<and> reserved_set (memblock_reserve cur sz mb)
        = reserved_set mb \<union> {unat (ucast cur :: addr)..<unat (ucast cur :: addr) + unat sz}
    \<and> unat (ucast cur :: addr) = unat cur"
proof -
  have "unat (ucast cur :: addr) = unat cur"
    using assms(3) by (simp add: unsigned_ucast_eq take_bit_nat_eq_self)
  then show ?thesis
    using assms by (simp add: memblock_ok_def memblock_reserve_def memblock_insert_ok)
qed





text \<open>
  \<open>memblock_alloc_range\<close> always returns: it finds the lowest unreserved block inside the
  requested window and one memory region and reserves it, or returns NULL and changes nothing
  when there is none. No assumption on the window is needed.
\<close>

theorem memblock_alloc_range_first_fit:
  assumes "memblock_ok mb" and "sz \<noteq> 0" and "base < e" and "mt_count (mb_reserved mb) < MAX_REGIONS"
  shows "\<exists>mb' p. memblock_alloc_range base e sz mb = Some (mb', p) \<and> memblock_ok mb'
    \<and> mb_memory mb' = mb_memory mb
    \<and> (let free = range_slot mb sz base e (mt_regions (mb_memory mb)) in
        if \<exists>a. free a
        then free (unat p) \<and> (\<forall>a. free a \<longrightarrow> unat p \<le> a)
             \<and> reserved_set mb' = reserved_set mb \<union> {unat p..<unat p + unat sz}
        else p = 0 \<and> mb' = mb)"
proof -
  have t: "table_ok (mt_regions (mb_memory mb))" "table_ok (mt_regions (mb_reserved mb))"
    using assms(1) by (simp_all add: memblock_ok_def)
  have c: "\<not> (sz = 0 \<or> base \<ge> e)" using assms(2,3) by simp
  obtain res where res: "memblock_alloc_range_loop mb sz base e (mt_regions (mb_memory mb)) = Some res"
      "is_least_hit (range_slot mb sz base e (mt_regions (mb_memory mb))) res"
    using alloc_range_loop_least [OF t assms(2)] by blast
  show ?thesis
  proof (cases res)
    case None
    with res c assms(1) show ?thesis by (simp add: memblock_alloc_range_def is_least_hit_def Let_def)
  next
    case (Some cur)
    then have free: "range_slot mb sz base e (mt_regions (mb_memory mb)) (unat cur)"
      and least: "\<forall>a. range_slot mb sz base e (mt_regions (mb_memory mb)) a \<longrightarrow> unat cur \<le> a"
      using res(2) by (simp_all add: is_least_hit_def)
    have b: "unat cur + unat sz \<le> 0xFFFFFFFF"
      using free t(1) by (fastforce simp: range_slot_def free_slot_def table_ok_def region_ok_def)
    have ex: "\<exists>a. range_slot mb sz base e (mt_regions (mb_memory mb)) a" using free by (rule exI)
    have "memblock_alloc_range base e sz mb = Some (memblock_reserve cur sz mb, ucast cur)"
      using res(1) Some c by (simp add: memblock_alloc_range_def)
    with reserve_found [OF assms(1,4) b] free least show ?thesis
      unfolding Let_def if_P [OF ex]
      by (intro exI [of _ "memblock_reserve cur sz mb"] exI [of _ "ucast cur"]) (simp only: simp_thms)
  qed
qed

theorem memblock_alloc_range_first_fit_witness:
  "\<exists>mb' p. memblock_alloc_range 0x1400 0x3000 0x100 small_machine = Some (mb', p)
     \<and> range_slot small_machine 0x100 0x1400 0x3000 (mt_regions (mb_memory small_machine)) (unat p)"
proof -
  let ?free = "range_slot small_machine 0x100 0x1400 0x3000 (mt_regions (mb_memory small_machine))"
  have f: "\<exists>a. ?free a"
    by (intro exI [of _ "0x1800"]) (simp add: range_slot_def free_slot_def small_machine_def)
  have "(0x100 :: u32) \<noteq> 0" "(0x1400 :: u64) < 0x3000"
    "mt_count (mb_reserved small_machine) < MAX_REGIONS"
    by (simp_all add: small_machine_def MAX_REGIONS_def)
  from memblock_alloc_range_first_fit [OF small_machine_ok this] obtain mb' p
    where "memblock_alloc_range 0x1400 0x3000 0x100 small_machine = Some (mb', p)" "?free (unat p)"
    unfolding Let_def if_P [OF f] by blast
  then show ?thesis by (intro exI conjI)
qed

text \<open>
  The boundary of the first-fit property: once the reserved table holds \<open>MAX_REGIONS\<close>
  entries, \<open>memblock_reserve\<close> silently drops the request, so an allocation that succeeds leaves
  no trace and the same call hands out the same block again.
\<close>

theorem memblock_alloc_full_table:
  assumes "mt_count (mb_reserved mb) \<ge> MAX_REGIONS" and "memblock_alloc sz align mb = Some (mb', p)"
  shows "memblock_alloc sz align mb' = Some (mb', p)"
  using assms
  by (auto simp: memblock_alloc_def memblock_reserve_def memblock_insert_def split: if_splits option.splits)

definition full_machine :: memblock where
  "full_machine =
     \<lparr>mb_memory = \<lparr>mt_name = ''Memory'', mt_regions = [\<lparr>mr_base = 0x1000, mr_size = 0x10000\<rparr>], mt_totalmem = 0\<rparr>,
      mb_reserved = \<lparr>mt_name = ''Reserved'',
        mt_regions = map (\<lambda>i. \<lparr>mr_base = 0x100000 + 0x2000 * of_nat i, mr_size = 0x1000\<rparr>) [0..<128],
        mt_totalmem = 0x80000\<rparr>\<rparr>"

lemma full_machine_alloc: "memblock_alloc 0x100 0x10 full_machine = Some (full_machine, 0x1000)"
proof -
  have "(0x1100 :: u64) \<le> 0x100000 + 0x2000 * of_nat i" if "i < 128" for i
    using that by (simp add: word_le_nat_alt unat_word_ariths unsigned_of_nat take_bit_eq_mod)
  then have "\<not> memblock_is_reserved 0x1000 0x100 full_machine"
    by (simp add: memblock_is_reserved_def full_machine_def UINTPTR_MAX_def list_ex_iff del: upt_conv_Cons)
  then show ?thesis
    by (simp add: memblock_alloc_def memblock_scan.simps memblock_reserve_def memblock_insert_def
        full_machine_def UINTPTR_MAX_def align_up_mixed_def MAX_REGIONS_def)
qed

theorem memblock_alloc_full_table_witness:
  "memblock_alloc 0x100 0x10 full_machine = Some (full_machine, 0x1000)"
  using memblock_alloc_full_table [OF _ full_machine_alloc] by (simp add: full_machine_def MAX_REGIONS_def)

text \<open>
  The alignment hypothesis of the first-fit property is needed: for a region in the last
  page below 4 GiB the 32-bit mask of \<open>ALIGN_UP\<close> wraps the start to address 0, and
  \<open>memblock_alloc\<close> then reserves and returns addresses that are not memory at all.
\<close>

theorem memblock_alloc_align_wrap:
  "\<exists>mb'. memblock_alloc 0x100 0x1000
       \<lparr>mb_memory = \<lparr>mt_name = n, mt_regions = [\<lparr>mr_base = 0xFFFFF800, mr_size = 0x400\<rparr>], mt_totalmem = m\<rparr>,
        mb_reserved = \<lparr>mt_name = n', mt_regions = [], mt_totalmem = m'\<rparr>\<rparr> = Some (mb', 0)
     \<and> mt_regions (mb_reserved mb') = [\<lparr>mr_base = 0, mr_size = 0x100\<rparr>]"
  by (simp add: memblock_alloc_def memblock_scan.simps memblock_is_reserved_def UINTPTR_MAX_def
      align_up_mixed_def memblock_reserve_def memblock_insert_def MAX_REGIONS_def
      memblock_sort_def memblock_sort_from.simps memblock_merge_def)

end
