(* ===== verification/Wey_Alloc.thy ===== *)
theory Wey_Alloc
  imports Main
begin

text \<open>
  The interface of an allocator. A state hands out blocks; \<open>inv s A\<close> says that \<open>s\<close> is well
  formed when the blocks \<open>A\<close> are handed out, \<open>free s\<close> are the resources not handed out, and
  \<open>extent b\<close> are the resources of a block. The page allocator and the process-id allocator
  implement it, and what holds of every allocator is proved once here.
\<close>

locale allocator =
  fixes inv :: "'s \<Rightarrow> 'b set \<Rightarrow> bool"
    and get :: "'s \<Rightarrow> 's \<times> 'b option"
    and put :: "'b \<Rightarrow> 's \<Rightarrow> 's"
    and free :: "'s \<Rightarrow> 'r set"
    and extent :: "'b \<Rightarrow> 'r set"
  assumes get_some: "inv s A \<Longrightarrow> get s = (s', Some b) \<Longrightarrow>
      inv s' (insert b A) \<and> b \<notin> A \<and> extent b \<noteq> {} \<and> extent b \<subseteq> free s \<and> free s' = free s - extent b"
    and get_none: "inv s A \<Longrightarrow> get s = (s', None) \<Longrightarrow> s' = s"
    and put_back: "inv s A \<Longrightarrow> b \<in> A \<Longrightarrow> inv (put b s) (A - {b}) \<and> free (put b s) = free s \<union> extent b"
begin

text \<open>Giving a block straight back restores the invariant and the free resources.\<close>

lemma get_put:
  assumes "inv s A" and "get s = (s', Some b)"
  shows "inv (put b s') A \<and> free (put b s') = free s"
proof -
  from get_some [OF assms] have g: "inv s' (insert b A)" "b \<notin> A" "extent b \<subseteq> free s" "free s' = free s - extent b"
    by blast+
  from put_back [OF g(1)] have "inv (put b s') (insert b A - {b})" "free (put b s') = free s' \<union> extent b" by blast+
  with g show ?thesis by (simp add: insert_absorb Un_absorb2)
qed

text \<open>A sequence of successful requests, and its blocks.\<close>

fun get_n :: "nat \<Rightarrow> 's \<Rightarrow> ('s \<times> 'b list) option" where
  "get_n 0 s = Some (s, [])"
| "get_n (Suc n) s =
     (case get s of (s', None) \<Rightarrow> None
      | (s', Some b) \<Rightarrow> (case get_n n s' of None \<Rightarrow> None | Some (s'', bs) \<Rightarrow> Some (s'', b # bs)))"

lemma get_n_disjoint:
  assumes "inv s A" and "get_n n s = Some (s', bs)"
  shows "inv s' (A \<union> set bs) \<and> (\<forall>b\<in>set bs. extent b \<subseteq> free s) \<and> free s' = free s - \<Union> (extent ` set bs)
    \<and> sorted_wrt (\<lambda>b c. extent b \<inter> extent c = {}) bs"
  using assms
proof (induction n arbitrary: s A s' bs)
  case 0
  then show ?case by simp
next
  case (Suc n)
  obtain s1 b bs' where e: "get s = (s1, Some b)" "get_n n s1 = Some (s', bs')" "bs = b # bs'"
    using Suc.prems(2) by (auto split: prod.splits option.splits)
  from get_some [OF Suc.prems(1) e(1)] have g: "inv s1 (insert b A)" "extent b \<subseteq> free s" "free s1 = free s - extent b"
    by blast+
  from Suc.IH [OF g(1) e(2)] g e(3) show ?case by auto
qed

text \<open>An allocator never hands out more blocks than it has resources.\<close>

lemma get_n_bound:
  assumes "inv s A" and "get_n n s = Some (s', bs)" and "finite (free s)"
  shows "n \<le> card (free s)"
  using assms
proof (induction n arbitrary: s A bs)
  case 0
  then show ?case by simp
next
  case (Suc n)
  obtain s1 b bs' where e: "get s = (s1, Some b)" "get_n n s1 = Some (s', bs')"
    using Suc.prems(2) by (auto split: prod.splits option.splits)
  from get_some [OF Suc.prems(1) e(1)]
  have g: "inv s1 (insert b A)" "extent b \<noteq> {}" "extent b \<subseteq> free s" "free s1 = free s - extent b" by blast+
  then have "card (free s1) < card (free s)"
    using Suc.prems(3) by (intro psubset_card_mono) auto
  moreover have "finite (free s1)" using Suc.prems(3) g(4) by simp
  ultimately show ?case using Suc.IH [OF g(1) e(2)] by simp
qed

end

end
