(* ===== verification/Wey_Page.thy ===== *)
theory Wey_Page
  imports Wey_Config Wey_Errno Wey_Memblock Wey_Alloc
begin

text \<open>
  The buddy page allocator of \<open>memory/heap/page.c\<close> with \<open>include/mm/page.h\<close>. A \<open>struct page *\<close>
  is its page frame number, its index in the \<open>vmemmap\<close> array; frame numbers are addresses
  shifted by 12, below \<open>2 ^ 20\<close>, so their sums never wrap and they are natural numbers here. A
  \<open>free_list\<close> is the list of the frames on it, which \<open>list_add\<close> extends at the front and
  \<open>list_remove\<close> shrinks, as the list theory shows for the pointer representation. The counters
  \<open>nr_free\<close> and \<open>free_pages\<close> keep their width and wrap. The zone lock is not modelled: every
  operation holds it from start to end.
\<close>

subsection \<open>Data\<close>

definition MAX_ORDER :: nat where
  "MAX_ORDER = 11"

definition PG_BUDDY :: u16 where
  "PG_BUDDY = 1"

definition PG_RESERVED :: u16 where
  "PG_RESERVED = 2"

definition PG_BAD :: u16 where
  "PG_BAD = 4"

record page =
  pg_order :: nat
  pg_flags :: u16
  pg_refcount :: u32

record zone =
  free_list :: "nat \<Rightarrow> nat list"
  nr_free :: "nat \<Rightarrow> u32"
  reserved_pages :: u32
  free_pages :: u32
  pages :: "nat \<Rightarrow> page"
  max_pfn_mapped :: nat

abbreviation set_page :: "nat \<Rightarrow> page \<Rightarrow> zone \<Rightarrow> zone" where
  "set_page p pg z \<equiv> z\<lparr>pages := (pages z)(p := pg)\<rparr>"

text \<open>Put a frame at the front of a free list and count it; the head of a free block.\<close>

definition area_add :: "nat \<Rightarrow> nat \<Rightarrow> zone \<Rightarrow> zone" where
  "area_add k p z =
     z\<lparr>free_list := (free_list z)(k := p # free_list z k), nr_free := (nr_free z)(k := nr_free z k + 1)\<rparr>"

definition mark_buddy :: "nat \<Rightarrow> nat \<Rightarrow> zone \<Rightarrow> zone" where
  "mark_buddy p k z = set_page p (pages z p\<lparr>pg_order := k, pg_flags := PG_BUDDY, pg_refcount := 0\<rparr>) z"

text \<open>\<open>list_remove\<close> unlinks the node from whichever list it is on.\<close>

definition list_unlink :: "nat \<Rightarrow> zone \<Rightarrow> zone" where
  "list_unlink p z = z\<lparr>free_list := (\<lambda>k. remove1 p (free_list z k))\<rparr>"

subsection \<open>Addresses\<close>

definition phys_to_page :: "addr \<Rightarrow> nat" where
  "phys_to_page phys = unat (drop_bit 12 phys)"

definition page_to_phys :: "nat \<Rightarrow> addr" where
  "page_to_phys p = push_bit 12 (of_nat p)"

definition page_to_virt :: "nat \<Rightarrow> addr" where
  "page_to_virt p = page_to_phys p + of_int KERNEL_DIRECTMAP_START"

definition virt_to_page :: "addr \<Rightarrow> nat" where
  "virt_to_page v = phys_to_page (v - of_int KERNEL_DIRECTMAP_START)"

subsection \<open>Set-up from the boot allocator\<close>

definition pfn_is_reserved :: "memblock \<Rightarrow> zone \<Rightarrow> nat \<Rightarrow> bool" where
  "pfn_is_reserved mb z pfn =
     (let pg = pages z pfn in
      if pg_flags pg AND PG_RESERVED \<noteq> 0 \<or> pg_flags pg = PG_BAD then True
      else if pg_flags pg AND PG_BUDDY \<noteq> 0 then True
      else memblock_is_reserved (ucast (push_bit 12 (of_nat pfn) :: u32)) 0x1000 mb)"

definition pfn_range_reserved :: "memblock \<Rightarrow> zone \<Rightarrow> nat \<Rightarrow> nat \<Rightarrow> bool" where
  "pfn_range_reserved mb z start n = list_ex (pfn_is_reserved mb z) [start..<start + n]"

text \<open>The loop that raises the order of the block at \<open>pfn\<close> as far as it can.\<close>

function page_init_order :: "memblock \<Rightarrow> zone \<Rightarrow> nat \<Rightarrow> nat \<Rightarrow> nat \<Rightarrow> nat" where
  "page_init_order mb z end_pfn pfn order =
     (if order < MAX_ORDER - 1 then
        let n = 2 ^ (order + 1) in
        if pfn + n > end_pfn then order
        else if pfn AND (n - 1) \<noteq> 0 then order
        else if pfn_range_reserved mb z pfn n then order
        else page_init_order mb z end_pfn pfn (order + 1)
      else order)"
  by pat_completeness auto
termination
  by (relation "measure (\<lambda>(mb, z, e, p, k). MAX_ORDER - k)") (auto simp: MAX_ORDER_def)

declare page_init_order.simps [simp del]

function page_init_scan :: "memblock \<Rightarrow> nat \<Rightarrow> nat \<Rightarrow> zone \<Rightarrow> zone" where
  "page_init_scan mb end_pfn pfn z =
     (if pfn < end_pfn then
        if pfn_is_reserved mb z pfn then
          page_init_scan mb end_pfn (pfn + 1)
            (set_page pfn (pages z pfn\<lparr>pg_flags := PG_RESERVED\<rparr>) z\<lparr>reserved_pages := reserved_pages z + 1\<rparr>)
        else
          let order = page_init_order mb z end_pfn pfn 0; z' = area_add order pfn (mark_buddy pfn order z)
          in page_init_scan mb end_pfn (pfn + 2 ^ order) (z'\<lparr>free_pages := free_pages z' + 2 ^ order\<rparr>)
      else z)"
  by pat_completeness auto
termination
  by (relation "measure (\<lambda>(mb, e, p, z). e - p)") (auto simp: diff_less_mono2)

declare page_init_scan.simps [simp del]

definition page_init_region :: "memblock \<Rightarrow> memblock_region \<Rightarrow> zone \<Rightarrow> zone" where
  "page_init_region mb r z =
     (let start_pfn = unat (ucast (drop_bit 12 (ALIGN_UP (mr_base r) 0x1000)) :: u32);
          end_pfn = unat (ucast (drop_bit 12 (mr_base r + ucast (mr_size r))) :: u32)
      in if start_pfn \<ge> max_pfn_mapped z then z
         else let end_pfn' = (if end_pfn > max_pfn_mapped z then max_pfn_mapped z else end_pfn)
              in page_init_scan mb end_pfn' start_pfn z)"

definition page_init :: "memblock \<Rightarrow> zone \<Rightarrow> zone" where
  "page_init mb z =
     fold (page_init_region mb) (mt_regions (mb_memory mb))
       (z\<lparr>reserved_pages := 0, free_pages := 0, free_list := \<lambda>_. [], nr_free := \<lambda>_. 0\<rparr>)"

subsection \<open>Allocation\<close>

text \<open>The \<open>while (cur > order)\<close> loop: put the upper half back and keep the lower one.\<close>

function page_split :: "nat \<Rightarrow> nat \<Rightarrow> nat \<Rightarrow> zone \<Rightarrow> zone" where
  "page_split order cur p z =
     (if cur > order then
        let cur' = cur - 1; buddy = p + 2 ^ cur'
        in page_split order cur' p (area_add cur' buddy (mark_buddy buddy cur' z))
      else z)"
  by pat_completeness auto
termination
  by (relation "measure (\<lambda>(order, cur, p, z). cur)") auto

declare page_split.simps [simp del]

function page_alloc_from :: "nat \<Rightarrow> u16 \<Rightarrow> nat \<Rightarrow> zone \<Rightarrow> zone \<times> nat option" where
  "page_alloc_from order flags cur z =
     (if cur < MAX_ORDER then
        case free_list z cur of
          [] \<Rightarrow> page_alloc_from order flags (cur + 1) z
        | p # _ \<Rightarrow>
            let z1 = (list_unlink p z)\<lparr>nr_free := (nr_free z)(cur := nr_free z cur - 1)\<rparr>;
                z2 = page_split order cur p z1;
                z3 = set_page p (pages z2 p\<lparr>pg_flags := flags, pg_order := order, pg_refcount := 1\<rparr>) z2
            in (z3\<lparr>free_pages := free_pages z3 - 2 ^ order\<rparr>, Some p)
      else (z, None))"
  by pat_completeness auto
termination
  by (relation "measure (\<lambda>(order, flags, cur, z). MAX_ORDER - cur)") auto

declare page_alloc_from.simps [simp del]

definition page_alloc :: "nat \<Rightarrow> u16 \<Rightarrow> zone \<Rightarrow> zone \<times> nat option" where
  "page_alloc order flags z = page_alloc_from order flags order z"

subsection \<open>Release\<close>

text \<open>The merging loop; \<open>pfn & ~(1 << order)\<close> clears one bit. It returns the merged block.\<close>

function page_merge :: "nat \<Rightarrow> nat \<Rightarrow> zone \<Rightarrow> nat \<times> nat \<times> zone" where
  "page_merge pfn order z =
     (if order < MAX_ORDER - 1 then
        let buddy = pfn XOR 2 ^ order in
        if buddy \<ge> max_pfn_mapped z then (pfn, order, z)
        else if pg_flags (pages z buddy) AND PG_BUDDY = 0 \<or> pg_order (pages z buddy) \<noteq> order
             then (pfn, order, z)
        else let z1 = (list_unlink buddy z)\<lparr>nr_free := (nr_free z)(order := nr_free z order - 1)\<rparr>;
                 pg = pages z1 buddy;
                 z2 = set_page buddy (pg\<lparr>pg_flags := pg_flags pg AND NOT PG_BUDDY, pg_order := 0\<rparr>) z1
             in page_merge (unset_bit order pfn) (order + 1) z2
      else (pfn, order, z))"
  by pat_completeness auto
termination
  by (relation "measure (\<lambda>(pfn, order, z). MAX_ORDER - order)") (auto simp: MAX_ORDER_def)

declare page_merge.simps [simp del]

definition page_free :: "nat option \<Rightarrow> zone \<Rightarrow> zone \<times> (errno + unit)" where
  "page_free page z =
     (case page of
        None \<Rightarrow> (z, Inl EINVAL)
      | Some p \<Rightarrow>
          let pg = pages z p in
          if pg_flags pg AND PG_RESERVED \<noteq> 0 then (z, Inl EINVAL)
          else if sint (pg_refcount pg) > 1 then (z, Inl EINVAL)
          else if pg_flags pg AND PG_BUDDY \<noteq> 0 then (z, Inl EINVAL)
          else let orig_order = pg_order pg;
                   z1 = set_page p (pg\<lparr>pg_flags := PG_BUDDY, pg_refcount := 0\<rparr>) z;
                   (q, order, z2) = page_merge p orig_order z1;
                   z3 = area_add order q (mark_buddy q order z2)
               in (z3\<lparr>free_pages := free_pages z3 + 2 ^ orig_order\<rparr>, Inr ()))"

definition page_get :: "nat \<Rightarrow> zone \<Rightarrow> zone" where
  "page_get p z = set_page p (pages z p\<lparr>pg_refcount := pg_refcount (pages z p) + 1\<rparr>) z"

definition page_put :: "nat \<Rightarrow> zone \<Rightarrow> zone" where
  "page_put p z =
     (let c = pg_refcount (pages z p) - 1; z' = set_page p (pages z p\<lparr>pg_refcount := c\<rparr>) z
      in if c = 0 then fst (page_free (Some p) z') else z')"

text \<open>\<open>__page_add_memory\<close> releases every whole page of a range as a fresh block of order 0.\<close>

function page_add_loop :: "nat \<Rightarrow> nat \<Rightarrow> zone \<Rightarrow> zone" where
  "page_add_loop a e z =
     (if a < e then
        let p = virt_to_page (of_nat a);
            z' = set_page p (pages z p\<lparr>pg_flags := 0, pg_order := 0, pg_refcount := 0\<rparr>) z
        in page_add_loop (a + 0x1000) e (fst (page_free (Some p) z'))
      else z)"
  by pat_completeness auto
termination
  by (relation "measure (\<lambda>(a, e, z). e - a)") auto

declare page_add_loop.simps [simp del]

definition page_add_memory :: "addr \<Rightarrow> u32 \<Rightarrow> zone \<Rightarrow> zone" where
  "page_add_memory vaddr sz z =
     (let start = ALIGN_UP vaddr 0x1000; e = ALIGN_DOWN (start + sz) 0x1000
      in if sz > 0xFFFFFFFF - start then z
         else page_add_loop (unat start) (unat e) z)"

subsection \<open>Blocks\<close>

definition blk :: "nat \<times> nat \<Rightarrow> nat set" where
  "blk b = {fst b..<fst b + 2 ^ snd b}"

definition aligned :: "nat \<times> nat \<Rightarrow> bool" where
  "aligned b \<longleftrightarrow> 2 ^ snd b dvd fst b"

lemma mem_blk:
  assumes "aligned (c, j)"
  shows "x \<in> blk (c, j) \<longleftrightarrow> x div 2 ^ j = c div 2 ^ j"
proof -
  from assms obtain m where c: "c = 2 ^ j * m" by (auto simp: aligned_def)
  show ?thesis by (auto simp: c blk_def div_pow_iff mult.commute)
qed

lemma head_in_blk [simp]: "p \<in> blk (p, k)"
  by (simp add: blk_def)

lemma blk_smaller_head:
  assumes "aligned (c, j)" and "aligned (b, k)" and "b \<in> blk (c, j)" and "j \<le> k"
  shows "b = c"
proof -
  have "(2::nat) ^ j dvd 2 ^ k" using assms(4) by (rule le_imp_power_dvd)
  then have "2 ^ j dvd b" using assms(2) by (auto simp: aligned_def intro: dvd_trans)
  moreover have "2 ^ j dvd c" using assms(1) by (simp add: aligned_def)
  moreover have "b div 2 ^ j = c div 2 ^ j" using mem_blk [OF assms(1)] assms(3) by simp
  ultimately show ?thesis by (metis dvd_div_mult_self)
qed

text \<open>A block and its buddy are the two halves of the block of the next order.\<close>

lemma buddy_pair:
  assumes "aligned (p, k)"
  defines "b \<equiv> p XOR 2 ^ k" and "q \<equiv> unset_bit k p"
  shows "aligned (b, k)" and "aligned (q, Suc k)" and "blk (q, Suc k) = blk (p, k) \<union> blk (b, k)"
    and "blk (p, k) \<inter> blk (b, k) = {}" and "b XOR 2 ^ k = p" and "b \<noteq> p" and "q \<in> {p, b}"
proof -
  from assms(1) have d: "2 ^ k dvd p" by (simp add: aligned_def)
  from d obtain m where p: "p = 2 ^ k * m" ..
  have b: "b = (if odd m then p - 2 ^ k else p + 2 ^ k)"
    unfolding b_def xor_power_aligned [OF d] by (simp add: p)
  have q: "q = (if odd m then p - 2 ^ k else p)"
    unfolding q_def unset_bit_aligned [OF d] by (simp add: p)
  obtain h where h: "m = 2 * h \<or> m = 2 * h + 1" by (metis odd_two_times_div_two_succ even_two_times_div_two)
  have b': "b = 2 ^ k * (if odd m then 2 * h else 2 * h + 1)" and q': "q = 2 ^ Suc k * h"
    using h by (auto simp: b q p algebra_simps)
  show "aligned (b, k)" "aligned (q, Suc k)" unfolding b' q' by (simp_all add: aligned_def)
  show "blk (q, Suc k) = blk (p, k) \<union> blk (b, k)" "blk (p, k) \<inter> blk (b, k) = {}"
    using h by (auto simp: blk_def b' q' p algebra_simps)
  have d': "2 ^ k dvd b" unfolding b' by simp
  show "b XOR 2 ^ k = p"
    unfolding xor_power_aligned [OF d'] using h by (auto simp: b' p algebra_simps)
  show "b \<noteq> p" using h by (auto simp: b' p)
  show "q \<in> {p, b}" using q b by auto
qed

lemma buddy_in_larger:
  assumes "aligned (p, k)" and "aligned (c, j)" and "k < j" and "p XOR 2 ^ k \<in> blk (c, j)"
  shows "p \<in> blk (c, j)"
proof -
  note bp = buddy_pair [OF assms(1)]
  let ?b = "p XOR 2 ^ k"
  have "p div 2 ^ Suc k = ?b div 2 ^ Suc k"
    using mem_blk [OF bp(2), of p] mem_blk [OF bp(2), of ?b] bp(3) by auto
  then have "p div 2 ^ Suc k div 2 ^ (j - Suc k) = ?b div 2 ^ Suc k div 2 ^ (j - Suc k)" by simp
  moreover have "x div 2 ^ Suc k div 2 ^ (j - Suc k) = x div 2 ^ j" for x :: nat
    unfolding div_mult2_eq [symmetric] power_add [symmetric] using assms(3) by simp
  ultimately show ?thesis using assms(4) mem_blk [OF assms(2)] by simp
qed

subsection \<open>The zone invariant\<close>

definition free_blocks :: "zone \<Rightarrow> (nat \<times> nat) set" where
  "free_blocks z = {(p, k). p \<in> set (free_list z k)}"

definition free_set :: "zone \<Rightarrow> nat set" where
  "free_set z = \<Union> (blk ` free_blocks z)"

definition free_count :: "zone \<Rightarrow> u32" where
  "free_count z = (\<Sum>k<MAX_ORDER. of_nat (length (free_list z k)) * 2 ^ k)"

definition blocks_ok :: "nat \<Rightarrow> (nat \<times> nat) set \<Rightarrow> bool" where
  "blocks_ok n B \<longleftrightarrow> (\<forall>b\<in>B. snd b < MAX_ORDER \<and> aligned b \<and> fst b + 2 ^ snd b \<le> n)
     \<and> (\<forall>b\<in>B. \<forall>c\<in>B. b \<noteq> c \<longrightarrow> blk b \<inter> blk c = {})"

definition is_buddy :: "zone \<Rightarrow> nat \<Rightarrow> bool" where
  "is_buddy z p \<longleftrightarrow> pg_flags (pages z p) AND PG_BUDDY \<noteq> 0"

text \<open>
  \<open>A\<close> holds the blocks handed out to callers and \<open>X\<close> the blocks an operation is working on.
  Free, allocated and working blocks are pairwise disjoint; a free block's head carries
  \<open>PG_BUDDY\<close> and its order, an allocated head its order and neither flag; and a page with
  \<open>PG_BUDDY\<close> lies in one of the blocks.
\<close>

definition free_heads_ok :: "zone \<Rightarrow> bool" where
  "free_heads_ok z \<longleftrightarrow> (\<forall>(p, k)\<in>free_blocks z. is_buddy z p \<and> pg_order (pages z p) = k)"

definition alloc_heads_ok :: "zone \<Rightarrow> (nat \<times> nat) set \<Rightarrow> bool" where
  "alloc_heads_ok z A \<longleftrightarrow> (\<forall>(p, k)\<in>A. \<not> is_buddy z p
     \<and> pg_flags (pages z p) AND PG_RESERVED = 0 \<and> pg_order (pages z p) = k)"

definition lists_ok :: "zone \<Rightarrow> bool" where
  "lists_ok z \<longleftrightarrow> (\<forall>k. distinct (free_list z k) \<and> nr_free z k = of_nat (length (free_list z k)))"

definition zone_core :: "zone \<Rightarrow> (nat \<times> nat) set \<Rightarrow> (nat \<times> nat) set \<Rightarrow> bool" where
  "zone_core z A X \<longleftrightarrow> blocks_ok (max_pfn_mapped z) (free_blocks z \<union> A \<union> X)
     \<and> free_blocks z \<inter> A = {} \<and> free_blocks z \<inter> X = {} \<and> A \<inter> X = {}
     \<and> lists_ok z \<and> free_heads_ok z \<and> alloc_heads_ok z A
     \<and> (\<forall>p. is_buddy z p \<longrightarrow> p \<in> \<Union> (blk ` (free_blocks z \<union> A \<union> X)))"

definition zone_inv :: "zone \<Rightarrow> (nat \<times> nat) set \<Rightarrow> bool" where
  "zone_inv z A \<longleftrightarrow> zone_core z A {} \<and> free_pages z = free_count z"

lemma in_free_blocks: "(p, k) \<in> free_blocks z \<longleftrightarrow> p \<in> set (free_list z k)"
  by (simp add: free_blocks_def)

lemma buddy_flags [simp]: "PG_BUDDY AND PG_BUDDY \<noteq> 0" "PG_BUDDY AND PG_RESERVED = 0" "PG_BUDDY \<noteq> 0"
  by (simp_all add: PG_BUDDY_def PG_RESERVED_def)

lemma clear_buddy_flag [simp]: "(x AND NOT PG_BUDDY) AND PG_BUDDY = 0"
  by (rule bit_eqI) (simp add: bit_simps)

lemma blocks_ok_block:
  assumes "blocks_ok n B" and "b \<in> B"
  shows "snd b < MAX_ORDER" and "aligned b" and "fst b + 2 ^ snd b \<le> n"
  using assms by (auto simp: blocks_ok_def)

lemma blocks_ok_disj: "blocks_ok n B \<Longrightarrow> b \<in> B \<Longrightarrow> c \<in> B \<Longrightarrow> b \<noteq> c \<Longrightarrow> blk b \<inter> blk c = {}"
  by (simp add: blocks_ok_def)

lemma blocks_ok_same_head: "blocks_ok n B \<Longrightarrow> (p, k) \<in> B \<Longrightarrow> c \<in> B \<Longrightarrow> p \<in> blk c \<Longrightarrow> c = (p, k)"
  using blocks_ok_disj [of n B "(p, k)" c] head_in_blk [of p k] by blast

text \<open>Replacing working blocks by blocks that cover the same frames.\<close>

lemma blocks_ok_replace:
  assumes "blocks_ok n (B \<union> X)" and "B \<inter> X = {}" and "\<Union> (blk ` Y) = \<Union> (blk ` X)"
    and "\<forall>b\<in>Y. snd b < MAX_ORDER \<and> aligned b" and "\<forall>b\<in>Y. \<forall>c\<in>Y. b \<noteq> c \<longrightarrow> blk b \<inter> blk c = {}"
  shows "blocks_ok n (B \<union> Y)"
proof -
  have d: "blk b \<inter> blk c = {}" if "b \<in> B" "c \<in> Y" for b c
  proof -
    have "blk c \<subseteq> \<Union> (blk ` X)" using that(2) unfolding assms(3) [symmetric] by blast
    moreover have "blk b \<inter> \<Union> (blk ` X) = {}"
    proof -
      have "blk b \<inter> blk x = {}" if "x \<in> X" for x
        using blocks_ok_disj [OF assms(1), of b x] that \<open>b \<in> B\<close> assms(2) by blast
      then show ?thesis by blast
    qed
    ultimately show ?thesis by blast
  qed
  have le: "fst c + 2 ^ snd c \<le> n" if "c \<in> Y" for c
  proof -
    have "(1::nat) \<le> 2 ^ snd c" by simp
    then have "fst c + 2 ^ snd c - 1 \<in> blk c" unfolding blk_def atLeastLessThan_iff by linarith
    then have "fst c + 2 ^ snd c - 1 \<in> \<Union> (blk ` Y)" using that by (rule UN_I [rotated])
    then obtain x where x: "x \<in> X" "fst c + 2 ^ snd c - 1 \<in> blk x" unfolding assms(3) by (rule UN_E)
    have "fst x + 2 ^ snd x \<le> n" using x(1) by (intro blocks_ok_block(3) [OF assms(1)]) simp
    then show ?thesis using x(2) unfolding blk_def atLeastLessThan_iff by linarith
  qed
  show ?thesis
    unfolding blocks_ok_def
  proof (intro conjI ballI impI)
    fix b assume "b \<in> B \<union> Y"
    then show "snd b < MAX_ORDER" "aligned b" "fst b + 2 ^ snd b \<le> n"
      using blocks_ok_block [OF assms(1), of b] assms(4) le by auto
  next
    fix b c assume "b \<in> B \<union> Y" "c \<in> B \<union> Y" "b \<noteq> c"
    then show "blk b \<inter> blk c = {}"
      using blocks_ok_disj [OF assms(1), of b c] assms(5) d [of b c] d [of c b] by auto
  qed
qed

subsection \<open>Ghost steps: moving blocks between the owners\<close>

lemma zone_core_fields:
  assumes "free_list z' = free_list z" "nr_free z' = nr_free z" "pages z' = pages z"
    "max_pfn_mapped z' = max_pfn_mapped z"
  shows "zone_core z' A X = zone_core z A X" "free_blocks z' = free_blocks z" "free_count z' = free_count z"
  using assms
  by (simp_all add: zone_core_def free_blocks_def free_heads_ok_def alloc_heads_ok_def lists_ok_def
      is_buddy_def free_count_def)

lemma core_replace:
  assumes "zone_core z A X" and "\<Union> (blk ` Y) = \<Union> (blk ` X)" and "\<forall>b\<in>Y. snd b < MAX_ORDER \<and> aligned b"
    and "\<forall>b\<in>Y. \<forall>c\<in>Y. b \<noteq> c \<longrightarrow> blk b \<inter> blk c = {}"
  shows "zone_core z A Y"
proof -
  let ?B = "free_blocks z \<union> A"
  have c: "blocks_ok (max_pfn_mapped z) (?B \<union> X)" "?B \<inter> X = {}"
    using assms(1) by (auto simp: zone_core_def)
  have "?B \<inter> Y = {}"
  proof (intro equals0I, elim IntE)
    fix b assume b: "b \<in> ?B" "b \<in> Y"
    then have "fst b \<in> \<Union> (blk ` X)" unfolding assms(2) [symmetric] by (auto simp: blk_def)
    then obtain x where x: "x \<in> X" "fst b \<in> blk x" by blast
    then have "blk b \<inter> blk x \<noteq> {}" by (auto simp: blk_def)
    then show False using blocks_ok_disj [OF c(1), of b x] b(1) x(1) c(2) by blast
  qed
  moreover have "blocks_ok (max_pfn_mapped z) (?B \<union> Y)"
    by (rule blocks_ok_replace [OF c assms(2-4)])
  moreover have "\<Union> (blk ` (?B \<union> Y)) = \<Union> (blk ` (?B \<union> X))" by (simp add: assms(2))
  ultimately show ?thesis using assms(1) by (auto simp: zone_core_def)
qed

lemma core_split:
  assumes "zone_core z A {(p, Suc k)}"
  shows "zone_core z A {(p, k), (p + 2 ^ k, k)}"
proof (rule core_replace [OF assms])
  have b: "Suc k < MAX_ORDER" "aligned (p, Suc k)"
    using assms blocks_ok_block [of _ _ "(p, Suc k)"] by (auto simp: zone_core_def)
  from b(2) show "\<forall>b\<in>{(p, k), (p + 2 ^ k, k)}. snd b < MAX_ORDER \<and> aligned b"
    using b(1) by (auto simp: aligned_def dvd_mult_left mult.commute intro!: dvd_add)
qed (auto simp: blk_def)

lemma core_join:
  assumes "zone_core z A {(p, k), (p XOR 2 ^ k, k)}" and "Suc k < MAX_ORDER"
  shows "zone_core z A {(unset_bit k p, Suc k)}"
proof (rule core_replace [OF assms(1)])
  have a: "aligned (p, k)"
    using assms(1) blocks_ok_block [of _ _ "(p, k)"] by (auto simp: zone_core_def)
  show "\<forall>b\<in>{(unset_bit k p, Suc k)}. snd b < MAX_ORDER \<and> aligned b"
    using buddy_pair(2) [OF a] assms(2) by simp
  show "\<Union> (blk ` {(unset_bit k p, Suc k)}) = \<Union> (blk ` {(p, k), (p XOR 2 ^ k, k)})"
    using buddy_pair(3) [OF a] by simp
qed simp

lemma core_take:
  assumes "zone_core z A X" and "b \<in> A"
  shows "zone_core z (A - {b}) (insert b X)"
proof -
  have "free_blocks z \<union> (A - {b}) \<union> insert b X = free_blocks z \<union> A \<union> X" using assms(2) by blast
  then show ?thesis using assms by (auto simp: zone_core_def alloc_heads_ok_def)
qed

lemma core_give:
  assumes "zone_core z A (insert (p, k) X)" and "(p, k) \<notin> X" and "\<not> is_buddy z p"
    and "pg_flags (pages z p) AND PG_RESERVED = 0" and "pg_order (pages z p) = k"
  shows "zone_core z (insert (p, k) A) X"
proof -
  have "free_blocks z \<union> insert (p, k) A \<union> X = free_blocks z \<union> A \<union> insert (p, k) X" by blast
  then show ?thesis using assms by (auto simp: zone_core_def alloc_heads_ok_def)
qed

text \<open>Writing the descriptor of a frame of a working block.\<close>

lemma core_set_page:
  assumes "zone_core z A X" and "b \<in> X" and "p \<in> blk b"
  shows "zone_core (set_page p pg z) A X"
proof -
  let ?B = "free_blocks z \<union> A \<union> X"
  have ok: "blocks_ok (max_pfn_mapped z) ?B" and fx: "free_blocks z \<inter> X = {}" and ax: "A \<inter> X = {}"
    using assms(1) by (auto simp: zone_core_def)
  have ne: "q \<noteq> p" if "(q, k) \<in> free_blocks z \<union> A" for q k
  proof
    assume "q = p"
    then have "b = (p, k)" using blocks_ok_same_head [OF ok, of p k b] that assms(2,3) by blast
    then show False using that \<open>q = p\<close> assms(2) fx ax by blast
  qed
  have pB: "p \<in> \<Union> (blk ` ?B)" using assms(2,3) by blast
  have f: "free_blocks (set_page p pg z) = free_blocks z" by (simp add: free_blocks_def)
  have ib: "is_buddy (set_page p pg z) q = is_buddy z q" if "q \<noteq> p" for q
    using that by (simp add: is_buddy_def)
  have "free_heads_ok (set_page p pg z)"
    using assms(1) ne ib unfolding zone_core_def free_heads_ok_def f by fastforce
  moreover have "alloc_heads_ok (set_page p pg z) A"
    using assms(1) ne ib unfolding zone_core_def alloc_heads_ok_def by fastforce
  moreover have "q \<in> \<Union> (blk ` ?B)" if "is_buddy (set_page p pg z) q" for q
    using that assms(1) pB ib by (cases "q = p") (auto simp: zone_core_def)
  ultimately show ?thesis
    using assms(1) unfolding zone_core_def f by (simp add: lists_ok_def)
qed

subsection \<open>Steps on the free lists\<close>

lemma free_count_upd:
  assumes "k < MAX_ORDER" and "free_list z' = (free_list z)(k := xs)"
  shows "free_count z' = free_count z + (of_nat (length xs) - of_nat (length (free_list z k))) * 2 ^ k"
proof -
  have k: "k \<in> {..<MAX_ORDER}" using assms(1) by simp
  have "free_count z' = of_nat (length xs) * 2 ^ k
      + (\<Sum>i\<in>{..<MAX_ORDER} - {k}. of_nat (length (free_list z i)) * 2 ^ i)"
    unfolding free_count_def assms(2) by (simp add: sum.remove [OF _ k])
  moreover have "free_count z = of_nat (length (free_list z k)) * 2 ^ k
      + (\<Sum>i\<in>{..<MAX_ORDER} - {k}. of_nat (length (free_list z i)) * 2 ^ i)"
    unfolding free_count_def by (simp add: sum.remove [OF _ k])
  ultimately show ?thesis by (simp add: algebra_simps)
qed

lemma unlink_lists:
  assumes "zone_core z A X" and "p \<in> set (free_list z k)"
  shows "free_list (list_unlink p z) = (free_list z)(k := remove1 p (free_list z k))"
proof
  fix j
  have "p \<notin> set (free_list z j)" if "j \<noteq> k"
  proof
    assume "p \<in> set (free_list z j)"
    then have m: "(p, j) \<in> free_blocks z \<union> A \<union> X" "(p, k) \<in> free_blocks z \<union> A \<union> X"
      using assms(2) by (auto simp: in_free_blocks)
    have "(p, j) = (p, k)"
      using assms(1) m by (intro blocks_ok_same_head [OF _ m(2,1)]) (auto simp: zone_core_def)
    then show False using that by simp
  qed
  then show "free_list (list_unlink p z) j = ((free_list z)(k := remove1 p (free_list z k))) j"
    by (simp add: list_unlink_def remove1_idem)
qed

lemma of_nat_length_minus: "xs \<noteq> [] \<Longrightarrow> (of_nat (length xs - Suc 0) :: u32) = of_nat (length xs) - 1"
  by (cases xs) simp_all

lemma core_unlink:
  assumes "zone_core z A X" and "p \<in> set (free_list z k)"
  defines "z' \<equiv> (list_unlink p z)\<lparr>nr_free := (nr_free z)(k := nr_free z k - 1)\<rparr>"
  shows "zone_core z' A (insert (p, k) X)" and "free_blocks z' = free_blocks z - {(p, k)}"
    and "free_count z' = free_count z - 2 ^ k"
proof -
  have l: "free_list z' = (free_list z)(k := remove1 p (free_list z k))"
    using unlink_lists [OF assms(1,2)] by (simp add: z'_def)
  have core: "blocks_ok (max_pfn_mapped z) (free_blocks z \<union> A \<union> X)" "lists_ok z" "free_heads_ok z"
      "alloc_heads_ok z A"
    using assms(1) by (simp_all add: zone_core_def)
  have d: "distinct (free_list z k)" using core(2) by (simp add: lists_ok_def)
  have pos: "0 < length (free_list z k)" using assms(2) by (cases "free_list z k") auto
  have mem: "(p, k) \<in> free_blocks z" using assms(2) by (simp add: in_free_blocks)
  show f: "free_blocks z' = free_blocks z - {(p, k)}"
    unfolding free_blocks_def l using d by (auto split: if_splits)
  have p: "pages z' = pages z" "max_pfn_mapped z' = max_pfn_mapped z"
    by (simp_all add: z'_def list_unlink_def)
  have u: "free_blocks z' \<union> A \<union> insert (p, k) X = free_blocks z \<union> A \<union> X" using mem f by blast
  have "lists_ok z'"
    using core(2) d assms(2) pos unfolding lists_ok_def l
    by (simp add: z'_def list_unlink_def length_remove1 of_nat_length_minus)
  then show "zone_core z' A (insert (p, k) X)"
    using assms(1) mem unfolding zone_core_def u
    by (auto simp: f p free_heads_ok_def alloc_heads_ok_def is_buddy_def)
  have "k < MAX_ORDER" using blocks_ok_block(1) [OF core(1), of "(p, k)"] mem by simp
  from free_count_upd [OF this l] show "free_count z' = free_count z - 2 ^ k"
    using assms(2) pos by (simp add: length_remove1 of_nat_length_minus algebra_simps)
qed

lemma core_add:
  assumes "zone_core z A (insert (p, k) X)" and "(p, k) \<notin> X"
  defines "z' \<equiv> area_add k p (mark_buddy p k z)"
  shows "zone_core z' A X" and "free_blocks z' = insert (p, k) (free_blocks z)"
    and "free_count z' = free_count z + 2 ^ k"
proof -
  let ?z = "mark_buddy p k z"
  have m: "zone_core ?z A (insert (p, k) X)"
    unfolding mark_buddy_def by (rule core_set_page [OF assms(1), of "(p, k)"]) simp_all
  have fz: "free_blocks ?z = free_blocks z" "free_count ?z = free_count z"
    by (simp_all add: mark_buddy_def free_blocks_def free_count_def)
  have l: "free_list z' = (free_list ?z)(k := p # free_list ?z k)" by (simp add: z'_def area_add_def)
  have b: "is_buddy ?z p" "pg_order (pages ?z p) = k" by (simp_all add: mark_buddy_def is_buddy_def)
  have p: "pages z' = pages ?z" "max_pfn_mapped z' = max_pfn_mapped ?z"
    by (simp_all add: z'_def area_add_def)
  have nf: "(p, k) \<notin> free_blocks ?z" using m by (auto simp: zone_core_def)
  show f: "free_blocks z' = insert (p, k) (free_blocks z)"
    unfolding free_blocks_def l by (auto simp: mark_buddy_def split: if_splits)
  have u: "free_blocks z' \<union> A \<union> X = free_blocks ?z \<union> A \<union> insert (p, k) X" unfolding f fz by blast
  have "lists_ok z'"
    using m nf unfolding zone_core_def lists_ok_def l by (simp add: in_free_blocks z'_def area_add_def)
  then show "zone_core z' A X"
    using m b assms(2) unfolding zone_core_def u
    by (auto simp: f fz p free_heads_ok_def alloc_heads_ok_def is_buddy_def)
  have "k < MAX_ORDER"
    using m blocks_ok_block(1) [of _ _ "(p, k)"] by (auto simp: zone_core_def)
  from free_count_upd [OF this l] show "free_count z' = free_count z + 2 ^ k"
    by (simp add: fz algebra_simps)
qed

subsection \<open>Splitting and merging\<close>

definition upper_halves :: "nat \<Rightarrow> nat \<Rightarrow> nat \<Rightarrow> (nat \<times> nat) set" where
  "upper_halves order cur p = (\<lambda>i. (p + 2 ^ i, i)) ` {order..<cur}"

lemma upper_halves_blk:
  "order \<le> cur \<Longrightarrow> \<Union> (blk ` upper_halves order cur p) = blk (p, cur) - blk (p, order)"
proof (induction cur rule: dec_induct)
  case base
  then show ?case by (simp add: upper_halves_def)
next
  case (step cur)
  have "upper_halves order (Suc cur) p = insert (p + 2 ^ cur, cur) (upper_halves order cur p)"
    using step.hyps by (auto simp: upper_halves_def atLeastLessThanSuc)
  moreover have "blk (p, Suc cur) - blk (p, order) = blk (p + 2 ^ cur, cur) \<union> (blk (p, cur) - blk (p, order))"
  proof -
    have "{p..<p + 2 * b} - {p..<p + a} = {p + b..<p + b + b} \<union> ({p..<p + b} - {p..<p + a})"
      if "a \<le> b" for a b :: nat
      using that by auto
    from this [of "2 ^ order" "2 ^ cur"] show ?thesis using step.hyps by (simp add: blk_def)
  qed
  ultimately show ?case using step.IH by simp
qed

lemma core_page_split:
  assumes "zone_core z A {(p, cur)}" and "order \<le> cur"
  defines "z' \<equiv> page_split order cur p z"
  shows "zone_core z' A {(p, order)} \<and> free_blocks z' = free_blocks z \<union> upper_halves order cur p
    \<and> free_count z' = free_count z + 2 ^ cur - 2 ^ order
    \<and> free_pages z' = free_pages z \<and> max_pfn_mapped z' = max_pfn_mapped z"
  unfolding z'_def using assms(2,1)
proof (induction cur arbitrary: z rule: dec_induct)
  case base
  then show ?case by (subst (1 2 3 4 5) page_split.simps) (simp add: upper_halves_def)
next
  case (step cur)
  let ?b = "p + 2 ^ cur" and ?z = "area_add cur (p + 2 ^ cur) (mark_buddy (p + 2 ^ cur) cur z)"
  have "zone_core z A (insert (?b, cur) {(p, cur)})"
    using core_split [OF step.prems] by (simp add: insert_commute)
  note add = core_add [OF this]
  have e: "page_split order (Suc cur) p z = page_split order cur p ?z"
    using step.hyps(1) by (subst page_split.simps) (simp add: Let_def)
  have u: "upper_halves order (Suc cur) p = insert (?b, cur) (upper_halves order cur p)"
    using step.hyps by (auto simp: upper_halves_def atLeastLessThanSuc)
  have f: "free_pages ?z = free_pages z" "max_pfn_mapped ?z = max_pfn_mapped z"
    by (simp_all add: area_add_def mark_buddy_def)
  show ?case
    unfolding e u using step.IH [OF add(1)] add(2,3) by (auto simp: f algebra_simps)
qed

text \<open>The descriptor test of the merging loop finds exactly the free buddies.\<close>

lemma buddy_test:
  assumes "zone_core z A {(p, k)}" and "k < MAX_ORDER"
  defines "b \<equiv> p XOR 2 ^ k"
  shows "is_buddy z b \<and> pg_order (pages z b) = k \<longleftrightarrow> b \<in> set (free_list z k)"
proof
  assume "b \<in> set (free_list z k)"
  then show "is_buddy z b \<and> pg_order (pages z b) = k"
    using assms(1) by (auto simp: zone_core_def free_heads_ok_def in_free_blocks [symmetric])
next
  assume t: "is_buddy z b \<and> pg_order (pages z b) = k"
  let ?B = "free_blocks z \<union> A \<union> {(p, k)}"
  have ok: "blocks_ok (max_pfn_mapped z) ?B" using assms(1) by (simp add: zone_core_def)
  have al: "aligned (p, k)" using blocks_ok_block(2) [OF ok, of "(p, k)"] by simp
  note bp = buddy_pair [OF al, folded b_def]
  have "b \<in> \<Union> (blk ` ?B)" using assms(1) t by (simp add: zone_core_def)
  then obtain c j where cj: "(c, j) \<in> ?B" "b \<in> blk (c, j)" by auto
  have nx: "b \<notin> blk (p, k)" using bp(4) head_in_blk [of b k] by blast
  have ac: "aligned (c, j)" using blocks_ok_block(2) [OF ok cj(1)] .
  have jk: "j \<le> k"
  proof (rule ccontr)
    assume "\<not> j \<le> k"
    then have "p \<in> blk (c, j)" using buddy_in_larger [OF al ac] cj(2) by (simp add: b_def)
    then have "(c, j) = (p, k)" by (intro blocks_ok_same_head [OF ok _ cj(1)]) simp_all
    then show False using cj(2) nx by simp
  qed
  have "b = c" by (rule blk_smaller_head [OF ac bp(1) cj(2) jk])
  then have "(c, j) \<in> free_blocks z"
    using cj t nx assms(1) by (auto simp: zone_core_def alloc_heads_ok_def)
  moreover from this have "pg_order (pages z c) = j"
    using assms(1) by (auto simp: zone_core_def free_heads_ok_def)
  ultimately show "b \<in> set (free_list z k)" using t \<open>b = c\<close> by (simp add: in_free_blocks)
qed

lemma core_page_merge:
  assumes "zone_core z A {(p, k)}" and "k < MAX_ORDER" and "page_merge p k z = (q, j, z')"
  shows "zone_core z' A {(q, j)} \<and> \<Union> (blk ` free_blocks z') \<union> blk (q, j) = \<Union> (blk ` free_blocks z) \<union> blk (p, k)
    \<and> free_count z' + 2 ^ j = free_count z + 2 ^ k \<and> free_blocks z' \<subseteq> free_blocks z
    \<and> free_pages z' = free_pages z \<and> max_pfn_mapped z' = max_pfn_mapped z
    \<and> j < MAX_ORDER \<and> (j < MAX_ORDER - 1 \<longrightarrow> (q XOR 2 ^ j, j) \<notin> free_blocks z')
    \<and> (\<forall>x. x \<notin> \<Union> (blk ` free_blocks z) \<longrightarrow> pages z' x = pages z x)"
  using assms
proof (induction p k z rule: page_merge.induct)
  case (1 p k z)
  let ?b = "p XOR 2 ^ k"
  have ok: "blocks_ok (max_pfn_mapped z) (free_blocks z \<union> A \<union> {(p, k)})"
    using "1.prems"(1) by (simp add: zone_core_def)
  note test = buddy_test [OF "1.prems"(1,2)]
  show ?case
  proof (cases "k < MAX_ORDER - 1 \<and> ?b < max_pfn_mapped z \<and> ?b \<in> set (free_list z k)")
    case True
    then have k: "k < MAX_ORDER - 1" "Suc k < MAX_ORDER" by auto
    have t: "\<not> ?b \<ge> max_pfn_mapped z"
        "\<not> (pg_flags (pages z ?b) AND PG_BUDDY = 0 \<or> pg_order (pages z ?b) \<noteq> k)"
      using True test by (auto simp: is_buddy_def)
    define z1 where "z1 = (list_unlink ?b z)\<lparr>nr_free := (nr_free z)(k := nr_free z k - 1)\<rparr>"
    define z2 where "z2 = set_page ?b (pages z1 ?b\<lparr>pg_flags := pg_flags (pages z1 ?b) AND NOT PG_BUDDY, pg_order := 0\<rparr>) z1"
    have un: "zone_core z1 A (insert (?b, k) {(p, k)})" "free_blocks z1 = free_blocks z - {(?b, k)}"
        "free_count z1 = free_count z - 2 ^ k"
      using core_unlink [OF "1.prems"(1), of ?b k] True unfolding z1_def by blast+
    have "zone_core z2 A {(p, k), (?b, k)}"
      unfolding z2_def using un(1) core_set_page [of z1 A "{(p, k), (?b, k)}" "(?b, k)" ?b]
      by (simp add: insert_commute)
    from core_join [OF this k(2)] have core: "zone_core z2 A {(unset_bit k p, Suc k)}" .
    have f: "free_blocks z2 = free_blocks z - {(?b, k)}" "free_count z2 = free_count z - 2 ^ k"
        "free_pages z2 = free_pages z" "max_pfn_mapped z2 = max_pfn_mapped z"
      using un(2,3) zone_core_fields [of z2 z2]
      by (simp_all add: z2_def free_blocks_def free_count_def) (simp_all add: z1_def list_unlink_def)
    have e: "page_merge p k z = page_merge (unset_bit k p) (Suc k) z2"
      using k(1) t by (subst page_merge.simps) (simp add: Let_def z1_def z2_def)
    have al: "aligned (p, k)" using blocks_ok_block(2) [OF ok, of "(p, k)"] by simp
    have bf: "(?b, k) \<in> free_blocks z" using True by (simp add: in_free_blocks)
    have "zone_core z' A {(q, j)} \<and> \<Union> (blk ` free_blocks z') \<union> blk (q, j)
          = \<Union> (blk ` free_blocks z2) \<union> blk (unset_bit k p, Suc k)
        \<and> free_count z' + 2 ^ j = free_count z2 + 2 ^ Suc k \<and> free_blocks z' \<subseteq> free_blocks z2
        \<and> free_pages z' = free_pages z2 \<and> max_pfn_mapped z' = max_pfn_mapped z2
        \<and> j < MAX_ORDER \<and> (j < MAX_ORDER - 1 \<longrightarrow> (q XOR 2 ^ j, j) \<notin> free_blocks z')
        \<and> (\<forall>x. x \<notin> \<Union> (blk ` free_blocks z2) \<longrightarrow> pages z' x = pages z2 x)"
      using "1.IH" [OF k(1) refl t refl refl refl, folded z1_def, folded z2_def] core k(2) "1.prems"(3)
      by (simp add: e)
    moreover have "\<Union> (blk ` free_blocks z2) \<union> blk (unset_bit k p, Suc k)
        = \<Union> (blk ` free_blocks z) \<union> blk (p, k)"
      unfolding buddy_pair(3) [OF al] f(1) using bf by blast
    moreover have "pages z2 x = pages z x" "x \<notin> \<Union> (blk ` free_blocks z2)"
      if "x \<notin> \<Union> (blk ` free_blocks z)" for x
    proof -
      have "x \<noteq> ?b" using that bf head_in_blk [of ?b k] by blast
      then show "pages z2 x = pages z x" by (simp add: z2_def z1_def list_unlink_def)
      show "x \<notin> \<Union> (blk ` free_blocks z2)" using that f(1) by blast
    qed
    ultimately show ?thesis using f by auto
  next
    case False
    have "(?b, k) \<notin> free_blocks z" if "k < MAX_ORDER - 1"
    proof
      assume b: "(?b, k) \<in> free_blocks z"
      have "?b + 2 ^ k \<le> max_pfn_mapped z" using blocks_ok_block(3) [OF ok, of "(?b, k)"] b by simp
      moreover have "(0::nat) < 2 ^ k" by simp
      ultimately have "?b < max_pfn_mapped z" by linarith
      then show False using False that b by (simp add: in_free_blocks)
    qed
    moreover have "page_merge p k z = (p, k, z)"
      using False test by (subst page_merge.simps) (auto simp: Let_def is_buddy_def)
    ultimately show ?thesis using "1.prems" by auto
  qed
qed

subsection \<open>Coalescing\<close>

text \<open>No two buddies are free at the same order: everything that can be merged has been.\<close>

definition coalesced :: "(nat \<times> nat) set \<Rightarrow> bool" where
  "coalesced F \<longleftrightarrow> (\<forall>(p, k)\<in>F. k < MAX_ORDER - 1 \<longrightarrow> (p XOR 2 ^ k, k) \<notin> F)"

lemma coalesced_insert:
  assumes "coalesced F" and "k < MAX_ORDER - 1 \<longrightarrow> (p XOR 2 ^ k, k) \<notin> F" and "aligned (p, k)"
    and "\<forall>b\<in>F. aligned b"
  shows "coalesced (insert (p, k) F)"
  unfolding coalesced_def
proof (intro ballI, clarify)
  fix x i assume x: "(x, i) \<in> insert (p, k) F" "i < MAX_ORDER - 1" "(x XOR 2 ^ i, i) \<in> insert (p, k) F"
  show False
  proof (cases "(x, i) = (p, k)")
    case True
    then show ?thesis using x assms(2) buddy_pair(6) [OF assms(3)] by auto
  next
    case False
    then have xf: "(x, i) \<in> F" using x(1) by blast
    then have "x XOR 2 ^ i = p \<and> i = k" using x assms(1) by (auto simp: coalesced_def)
    moreover have "(x XOR 2 ^ i) XOR 2 ^ i = x" using buddy_pair(5) [of x i] assms(4) xf by blast
    ultimately show ?thesis using xf x(2) assms(2) by auto
  qed
qed

lemma coalesced_subset: "coalesced F \<Longrightarrow> G \<subseteq> F \<Longrightarrow> coalesced G"
  by (fastforce simp: coalesced_def)

lemma coalesced_upper_halves:
  assumes "coalesced F" and "aligned (p, cur)" and "\<forall>b\<in>F. aligned b"
    and "\<forall>i. order \<le> i \<and> i < cur \<longrightarrow> (p, i) \<notin> F" and "order \<le> cur"
  shows "coalesced (F \<union> upper_halves order cur p)"
proof -
  have half: "aligned (p + 2 ^ i, i) \<and> (p + 2 ^ i) XOR 2 ^ i = p" if "i < cur" for i
  proof -
    have "(2::nat) ^ Suc i dvd 2 ^ cur" using that by (intro le_imp_power_dvd) simp
    then have d: "2 ^ Suc i dvd p" using assms(2) by (auto simp: aligned_def intro: dvd_trans)
    then have a: "aligned (p, i)" by (auto simp: aligned_def dest: dvd_mult_left)
    have "p XOR 2 ^ i = p + 2 ^ i"
      using xor_power_aligned [of i p] a d by (auto simp: aligned_def elim!: dvdE)
    then show ?thesis using buddy_pair(1,5) [OF a] by simp
  qed
  have "coalesced (F \<union> upper_halves order (order + d) p)" if "order + d \<le> cur" for d
    using that
  proof (induction d)
    case 0
    then show ?case using assms(1) by (simp add: upper_halves_def)
  next
    case (Suc d)
    let ?U = "upper_halves order (order + d) p" and ?i = "order + d"
    have u: "F \<union> upper_halves order (order + Suc d) p = insert (p + 2 ^ ?i, ?i) (F \<union> ?U)"
      by (auto simp: upper_halves_def atLeastLessThanSuc)
    have "(p, ?i) \<notin> F \<union> ?U" using assms(4) Suc.prems by (auto simp: upper_halves_def)
    moreover have "\<forall>b\<in>F \<union> ?U. aligned b" using assms(3) half Suc.prems by (auto simp: upper_halves_def)
    ultimately show ?case
      unfolding u using half [of ?i] Suc by (intro coalesced_insert) auto
  qed
  from this [of "cur - order"] assms(5) show ?thesis by simp
qed

subsection \<open>Set-up\<close>

lemma and_mask_dvd: "(p::nat) AND (2 ^ n - 1) = 0 \<longleftrightarrow> 2 ^ n dvd p"
  unfolding mask_eq_exp_minus_1 [symmetric] take_bit_eq_mask [symmetric] take_bit_eq_mod
  by (rule mod_eq_0_iff_dvd)

lemma page_init_order_spec:
  assumes "order < MAX_ORDER" and "pfn + 2 ^ order \<le> e" and "aligned (pfn, order)"
    and "\<forall>x\<in>blk (pfn, order). \<not> pfn_is_reserved mb z x"
  defines "k \<equiv> page_init_order mb z e pfn order"
  shows "k < MAX_ORDER \<and> pfn + 2 ^ k \<le> e \<and> aligned (pfn, k) \<and> (\<forall>x\<in>blk (pfn, k). \<not> pfn_is_reserved mb z x)
    \<and> (k < MAX_ORDER - 1 \<and> aligned (pfn, Suc k) \<longrightarrow>
         pfn + 2 ^ Suc k > e \<or> (\<exists>x\<in>blk (pfn, Suc k). pfn_is_reserved mb z x))"
  unfolding k_def using assms(1-4)
proof (induction mb z e pfn order rule: page_init_order.induct)
  case (1 mb z e pfn order)
  have rr: "pfn_range_reserved mb z pfn (2 ^ (order + 1)) \<longleftrightarrow> (\<exists>x\<in>blk (pfn, Suc order). pfn_is_reserved mb z x)"
    by (auto simp: pfn_range_reserved_def list_ex_iff blk_def)
  show ?case
  proof (cases "order < MAX_ORDER - 1 \<and> pfn + 2 ^ (order + 1) \<le> e \<and> aligned (pfn, Suc order)
      \<and> \<not> pfn_range_reserved mb z pfn (2 ^ (order + 1))")
    case True
    then have c: "order < MAX_ORDER - 1" "\<not> pfn + 2 ^ (order + 1) > e" "\<not> pfn AND (2 ^ (order + 1) - 1) \<noteq> 0"
        "\<not> pfn_range_reserved mb z pfn (2 ^ (order + 1))"
      using and_mask_dvd [of pfn "order + 1"] by (auto simp: aligned_def)
    then have "page_init_order mb z e pfn order = page_init_order mb z e pfn (order + 1)"
      by (subst page_init_order.simps) (simp add: Let_def)
    then show ?thesis
      using "1.IH" [OF c(1) refl c(2-4)] True rr by auto
  next
    case False
    have "page_init_order mb z e pfn order = order"
      using False and_mask_dvd [of pfn "order + 1"]
      by (subst page_init_order.simps) (auto simp: Let_def aligned_def)
    with "1.prems" False rr show ?thesis by auto
  qed
qed

lemma core_set_outside:
  assumes "zone_core z A X" and "p \<notin> \<Union> (blk ` (free_blocks z \<union> A \<union> X))"
    and "pg_flags pg AND PG_BUDDY = 0"
  shows "zone_core (set_page p pg z) A X"
proof -
  have ne: "q \<noteq> p" if "(q, k) \<in> free_blocks z \<union> A \<union> X" for q k
    using that assms(2) head_in_blk [of q k] by blast
  have f: "free_blocks (set_page p pg z) = free_blocks z" by (simp add: free_blocks_def)
  have ib: "is_buddy (set_page p pg z) q \<longleftrightarrow> q \<noteq> p \<and> is_buddy z q" for q
    using assms(3) by (simp add: is_buddy_def)
  have "free_heads_ok (set_page p pg z)"
    using assms(1) ne ib unfolding zone_core_def free_heads_ok_def f by fastforce
  moreover have "alloc_heads_ok (set_page p pg z) A"
    using assms(1) ne ib unfolding zone_core_def alloc_heads_ok_def by fastforce
  ultimately show ?thesis
    using assms(1) ib unfolding zone_core_def f by (simp add: lists_ok_def)
qed

lemma core_new:
  assumes "zone_core z A X" and "aligned (p, k)" and "k < MAX_ORDER" and "p + 2 ^ k \<le> max_pfn_mapped z"
    and "\<forall>b\<in>free_blocks z \<union> A \<union> X. blk b \<inter> blk (p, k) = {}"
  shows "zone_core z A (insert (p, k) X)"
proof -
  let ?B = "free_blocks z \<union> A \<union> X"
  have u: "free_blocks z \<union> A \<union> insert (p, k) X = insert (p, k) ?B" by blast
  have n: "(p, k) \<notin> ?B" using assms(5) head_in_blk [of p k] by blast
  have "blocks_ok (max_pfn_mapped z) (insert (p, k) ?B)"
    using assms unfolding blocks_ok_def zone_core_def by (auto simp: Int_commute)
  then show ?thesis using assms(1) n unfolding zone_core_def u by auto
qed

text \<open>
  The invariant of the scan of one region from \<open>s\<close> to \<open>e\<close>, reached \<open>pfn\<close>: \<open>z0\<close> is the zone when
  the scan started, and the frames from \<open>pfn\<close> on are as they were then.
\<close>

definition scan_inv :: "memblock \<Rightarrow> zone \<Rightarrow> nat \<Rightarrow> nat \<Rightarrow> nat \<Rightarrow> zone \<Rightarrow> bool" where
  "scan_inv mb z0 s e pfn z \<longleftrightarrow> zone_inv z {} \<and> coalesced (free_blocks z)
     \<and> max_pfn_mapped z = max_pfn_mapped z0
     \<and> (\<forall>b\<in>free_blocks z. fst b + 2 ^ snd b \<le> pfn)
     \<and> (\<forall>x\<ge>pfn. pages z x = pages z0 x \<and> \<not> is_buddy z x)
     \<and> (\<forall>x\<in>free_set z0. x < s)
     \<and> free_set z = free_set z0 \<union> {x. s \<le> x \<and> x < pfn \<and> \<not> pfn_is_reserved mb z0 x}
     \<and> (\<forall>(x, k)\<in>free_blocks z. (if x < s then x + 2 ^ k < s else
          k < MAX_ORDER - 1 \<and> aligned (x, Suc k) \<longrightarrow>
            x + 2 ^ Suc k > e \<or> (\<exists>y\<in>blk (x, Suc k). pfn_is_reserved mb z0 y)))"

lemma scan_inv_reserved:
  assumes "scan_inv mb z0 s e pfn z" and "pfn_is_reserved mb z pfn" and "s \<le> pfn"
  defines "z' \<equiv> set_page pfn (pages z pfn\<lparr>pg_flags := PG_RESERVED\<rparr>) z\<lparr>reserved_pages := reserved_pages z + 1\<rparr>"
  shows "scan_inv mb z0 s e (pfn + 1) z'"
proof -
  let ?z = "set_page pfn (pages z pfn\<lparr>pg_flags := PG_RESERVED\<rparr>) z"
  have below: "\<forall>b\<in>free_blocks z. fst b + 2 ^ snd b \<le> pfn" using assms(1) by (simp add: scan_inv_def)
  have "zone_core z {} {}" using assms(1) by (simp add: scan_inv_def zone_inv_def)
  moreover have "pfn \<notin> \<Union> (blk ` (free_blocks z \<union> {} \<union> {}))" using below by (force simp: blk_def)
  ultimately have "zone_core ?z {} {}"
    by (rule core_set_outside) (simp add: PG_RESERVED_def PG_BUDDY_def)
  then have core: "zone_core z' {} {}" using zone_core_fields(1) [of z' ?z] by (simp add: z'_def)
  have f: "free_blocks z' = free_blocks z" "free_count z' = free_count z"
    by (simp_all add: z'_def free_blocks_def free_count_def)
  have "pfn_is_reserved mb z0 pfn"
    using assms(1,2) by (simp add: scan_inv_def pfn_is_reserved_def)
  then have "{x. s \<le> x \<and> x < pfn + 1 \<and> \<not> pfn_is_reserved mb z0 x} = {x. s \<le> x \<and> x < pfn \<and> \<not> pfn_is_reserved mb z0 x}"
    by (auto simp: less_Suc_eq)
  moreover have "pages z' x = pages z x" "is_buddy z' x = is_buddy z x" if "pfn + 1 \<le> x" for x
    using that by (simp_all add: z'_def is_buddy_def)
  ultimately show ?thesis
    using assms(1) core below unfolding scan_inv_def free_set_def f zone_inv_def
    by (auto simp: z'_def intro: le_SucI)
qed

lemma scan_inv_block:
  assumes "scan_inv mb z0 s e pfn z" and "\<not> pfn_is_reserved mb z pfn" and "s \<le> pfn" and "pfn < e"
    and "e \<le> max_pfn_mapped z0"
  defines "k \<equiv> page_init_order mb z e pfn 0"
  defines "z1 \<equiv> area_add k pfn (mark_buddy pfn k z)"
  defines "z' \<equiv> z1\<lparr>free_pages := free_pages z1 + 2 ^ k\<rparr>"
  shows "scan_inv mb z0 s e (pfn + 2 ^ k) z'" and "pfn + 2 ^ k \<le> e"
proof -
  have z: "zone_core z {} {}" "free_pages z = free_count z" "coalesced (free_blocks z)"
      "max_pfn_mapped z = max_pfn_mapped z0" "\<forall>b\<in>free_blocks z. fst b + 2 ^ snd b \<le> pfn"
      "\<forall>x\<ge>pfn. pages z x = pages z0 x \<and> \<not> is_buddy z x"
    using assms(1) by (simp_all add: scan_inv_def zone_inv_def)
  have R: "pfn_is_reserved mb z x = pfn_is_reserved mb z0 x" if "x \<ge> pfn" for x
    using z(6) that by (simp add: pfn_is_reserved_def)
  have "k < MAX_ORDER \<and> pfn + 2 ^ k \<le> e \<and> aligned (pfn, k) \<and> (\<forall>x\<in>blk (pfn, k). \<not> pfn_is_reserved mb z x)
      \<and> (k < MAX_ORDER - 1 \<and> aligned (pfn, Suc k) \<longrightarrow>
         pfn + 2 ^ Suc k > e \<or> (\<exists>x\<in>blk (pfn, Suc k). pfn_is_reserved mb z x))"
    unfolding k_def using assms(2,4)
    by (intro page_init_order_spec) (auto simp: MAX_ORDER_def aligned_def blk_def)
  then have k: "k < MAX_ORDER" "pfn + 2 ^ k \<le> e" "aligned (pfn, k)"
      "\<forall>x\<in>blk (pfn, k). \<not> pfn_is_reserved mb z0 x"
      "k < MAX_ORDER - 1 \<and> aligned (pfn, Suc k) \<longrightarrow>
         pfn + 2 ^ Suc k > e \<or> (\<exists>x\<in>blk (pfn, Suc k). pfn_is_reserved mb z0 x)"
    using R by (auto simp: blk_def)
  show "pfn + 2 ^ k \<le> e" by (rule k)
  have "zone_core z {} (insert (pfn, k) {})"
    using z(1) k(3,1)
  proof (rule core_new)
    show "pfn + 2 ^ k \<le> max_pfn_mapped z" using k(2) assms(5) z(4) by simp
    show "\<forall>b\<in>free_blocks z \<union> {} \<union> {}. blk b \<inter> blk (pfn, k) = {}" using z(5) by (force simp: blk_def)
  qed
  note add = core_add [OF this, folded z1_def, simplified]
  have f: "free_blocks z' = insert (pfn, k) (free_blocks z)" "free_count z' = free_count z + 2 ^ k"
    using add(2,3) zone_core_fields(2,3) [of z' z1] by (simp_all add: z'_def)
  have inv: "zone_inv z' {}"
    using add(1) zone_core_fields(1) [of z' z1] f(2) z(2)
    by (simp add: zone_inv_def z'_def z1_def area_add_def mark_buddy_def)
  have al: "\<forall>b\<in>free_blocks z. aligned b"
    using z(1) blocks_ok_block(2) by (fastforce simp: zone_core_def)
  have old: "\<forall>(x, i)\<in>free_blocks z. (if x < s then x + 2 ^ i < s else i < MAX_ORDER - 1 \<and> aligned (x, Suc i)
      \<longrightarrow> x + 2 ^ Suc i > e \<or> (\<exists>y\<in>blk (x, Suc i). pfn_is_reserved mb z0 y))"
    using assms(1) by (simp add: scan_inv_def)
  have "coalesced (free_blocks z')"
    unfolding f(1) using z(3) _ k(3) al
  proof (rule coalesced_insert, intro impI notI)
    let ?b = "pfn XOR 2 ^ k"
    assume k': "k < MAX_ORDER - 1" and b: "(?b, k) \<in> free_blocks z"
    note bp = buddy_pair [OF k(3)]
    have "?b + 2 ^ k \<le> pfn" using z(5) b by auto
    then have q: "?b = unset_bit k pfn" "pfn = ?b + 2 ^ k"
      using xor_power_aligned [of k pfn] unset_bit_aligned [of k pfn] k(3)
      by (auto simp: aligned_def split: if_splits)
    have "\<not> ?b < s" using old b q(2) assms(3) by force
    moreover have "aligned (?b, Suc k)" using bp(2) q(1) by simp
    moreover have "blk (?b, Suc k) = blk (pfn, k) \<union> blk (?b, k)" using bp(3) q(1) by simp
    ultimately have "?b + 2 ^ Suc k > e \<or> (\<exists>y\<in>blk (pfn, k) \<union> blk (?b, k). pfn_is_reserved mb z0 y)"
      using old b k' by force
    moreover have "\<not> ?b + 2 ^ Suc k > e" using k(2) q(2) by simp
    moreover have "\<not> pfn_is_reserved mb z0 y" if "y \<in> blk (?b, k)" for y
    proof -
      have "y \<in> free_set z" using that b by (auto simp: free_set_def)
      moreover have "y \<notin> free_set z0"
        using assms(1) that \<open>\<not> ?b < s\<close> by (auto simp: scan_inv_def blk_def)
      ultimately show ?thesis using assms(1) by (auto simp: scan_inv_def)
    qed
    ultimately show False using k(4) by blast
  qed
  moreover have "\<forall>b\<in>free_blocks z'. fst b + 2 ^ snd b \<le> pfn + 2 ^ k"
    using z(5) by (auto simp: f(1) intro: le_trans)
  moreover have "\<forall>x\<ge>pfn + 2 ^ k. pages z' x = pages z0 x \<and> \<not> is_buddy z' x"
  proof (intro allI impI)
    fix x assume "pfn + 2 ^ k \<le> x"
    moreover have "(0::nat) < 2 ^ k" by simp
    ultimately have "pfn < x" by linarith
    then have "pages z' x = pages z x" by (simp add: z'_def z1_def area_add_def mark_buddy_def)
    then show "pages z' x = pages z0 x \<and> \<not> is_buddy z' x"
      using spec [OF z(6), of x] \<open>pfn < x\<close> by (auto simp: is_buddy_def)
  qed
  moreover have "free_set z' = free_set z0 \<union> {x. s \<le> x \<and> x < pfn + 2 ^ k \<and> \<not> pfn_is_reserved mb z0 x}"
  proof -
    have "{x. s \<le> x \<and> x < pfn + 2 ^ k \<and> \<not> pfn_is_reserved mb z0 x}
        = {x. s \<le> x \<and> x < pfn \<and> \<not> pfn_is_reserved mb z0 x} \<union> blk (pfn, k)"
      using k(4) assms(3) by (auto simp: blk_def)
    moreover have "free_set z' = blk (pfn, k) \<union> free_set z" by (simp add: free_set_def f(1))
    ultimately show ?thesis using assms(1) by (auto simp: scan_inv_def)
  qed
  moreover have "\<forall>(x, i)\<in>free_blocks z'. (if x < s then x + 2 ^ i < s else i < MAX_ORDER - 1 \<and> aligned (x, Suc i)
      \<longrightarrow> x + 2 ^ Suc i > e \<or> (\<exists>y\<in>blk (x, Suc i). pfn_is_reserved mb z0 y))"
    using old k(5) assms(3) unfolding f(1) by simp
  ultimately show "scan_inv mb z0 s e (pfn + 2 ^ k) z'"
    using assms(1) inv unfolding scan_inv_def
    by (simp add: z'_def z1_def area_add_def mark_buddy_def)
qed

lemma page_init_scan_inv:
  assumes "scan_inv mb z0 s e pfn z" and "s \<le> pfn" and "pfn \<le> e" and "e \<le> max_pfn_mapped z0"
  shows "scan_inv mb z0 s e e (page_init_scan mb e pfn z)"
  using assms
proof (induction mb e pfn z rule: page_init_scan.induct)
  case (1 mb e pfn z)
  show ?case
  proof (cases "pfn < e")
    case lt: True
    show ?thesis
    proof (cases "pfn_is_reserved mb z pfn")
      case True
      then show ?thesis
        using "1.IH"(1) [OF lt True] scan_inv_reserved [OF "1.prems"(1) True "1.prems"(2)] "1.prems" lt
        by (subst page_init_scan.simps) simp
    next
      case False
      note blk = scan_inv_block [OF "1.prems"(1) False "1.prems"(2) lt "1.prems"(4)]
      show ?thesis
        using "1.IH"(2) [OF lt False refl refl blk(1) _ blk(2) "1.prems"(4)] "1.prems"(2) lt False
        by (subst page_init_scan.simps) (simp add: Let_def)
    qed
  next
    case False
    then have "pfn = e" using "1.prems"(3) by simp
    then show ?thesis using "1.prems"(1) by (subst page_init_scan.simps) simp
  qed
qed

text \<open>The whole frames of a region: from its start rounded up to its end rounded down.\<close>

definition region_start :: "memblock_region \<Rightarrow> nat" where
  "region_start r = (lo r + 4095) div 4096"

definition region_stop :: "memblock_region \<Rightarrow> nat" where
  "region_stop r = hi r div 4096"

lemma unat_drop_12:
  assumes "unat (a :: u64) \<le> 4294967296"
  shows "unat (ucast (drop_bit 12 a) :: u32) = unat a div 4096"
proof -
  have "unat a div 4096 \<le> 4294967296 div 4096" using assms by (rule div_le_mono)
  then show ?thesis by (simp add: unsigned_ucast_eq take_bit_eq_mod drop_bit_eq_div unat_div)
qed

lemma page_init_region_eq:
  assumes "region_ok r"
  shows "page_init_region mb r z = (if region_start r \<ge> max_pfn_mapped z then z
     else page_init_scan mb (min (region_stop r) (max_pfn_mapped z)) (region_start r) z)"
proof -
  have b: "lo r \<le> 0xFFFFFFFF" "hi r \<le> 0xFFFFFFFF" using assms by (auto simp: region_ok_def)
  have up: "unat (ALIGN_UP (mr_base r) (2 ^ 12)) = (lo r + 2 ^ 12 - 1) - (lo r + 2 ^ 12 - 1) mod 2 ^ 12"
    using b by (intro unat_ALIGN_UP) simp_all
  then have up': "unat (ALIGN_UP (mr_base r) 0x1000) = (lo r + 4095) div 4096 * 4096"
    by (simp add: minus_mod_eq_div_mult)
  have "(lo r + 4095) div 4096 * 4096 \<le> lo r + 4095" by simp
  moreover have "(lo r + 4095) div 4096 \<le> (4294967295 + 4095) div 4096" using b by (intro div_le_mono) simp
  ultimately have "unat (ALIGN_UP (mr_base r) 0x1000) \<le> 4294967296" unfolding up' by simp
  from unat_drop_12 [OF this] have "unat (ucast (drop_bit 12 (ALIGN_UP (mr_base r) 0x1000)) :: u32) = region_start r"
    unfolding up' by (simp add: region_start_def)
  moreover have "unat (ucast (drop_bit 12 (mr_base r + ucast (mr_size r))) :: u32) = region_stop r"
    using b unat_drop_12 [of "mr_base r + ucast (mr_size r)"]
    by (simp add: unat_base_plus_size region_stop_def)
  ultimately show ?thesis by (simp add: page_init_region_def Let_def min_def)
qed

definition usable_frames :: "memblock \<Rightarrow> zone \<Rightarrow> memblock_region list \<Rightarrow> nat set" where
  "usable_frames mb z rs = {x. (\<exists>r\<in>set rs. region_start r \<le> x \<and> x < region_stop r)
     \<and> x < max_pfn_mapped z \<and> \<not> pfn_is_reserved mb z x}"

definition init_inv :: "memblock \<Rightarrow> zone \<Rightarrow> memblock_region list \<Rightarrow> nat \<Rightarrow> zone \<Rightarrow> bool" where
  "init_inv mb z0 rs n z \<longleftrightarrow> zone_inv z {} \<and> coalesced (free_blocks z)
     \<and> max_pfn_mapped z = max_pfn_mapped z0
     \<and> (\<forall>b\<in>free_blocks z. fst b + 2 ^ snd b \<le> n)
     \<and> (\<forall>x\<ge>n. pages z x = pages z0 x \<and> \<not> is_buddy z x)
     \<and> free_set z = usable_frames mb z0 rs"

lemma usable_frames_snoc:
  "usable_frames mb z (rs @ [r]) = usable_frames mb z rs
     \<union> {x. region_start r \<le> x \<and> x < min (region_stop r) (max_pfn_mapped z) \<and> \<not> pfn_is_reserved mb z x}"
  by (auto simp: usable_frames_def)

lemma init_inv_scan:
  assumes "init_inv mb z0 rs n z" and "n < s \<or> n = 0"
  shows "scan_inv mb z s e s z"
proof -
  have below: "\<forall>b\<in>free_blocks z. fst b + 2 ^ snd b \<le> n" using assms(1) by (simp add: init_inv_def)
  have ns: "n \<le> s" using assms(2) by auto
  have strict: "x + 2 ^ k < s" if "(x, k) \<in> free_blocks z" for x k
  proof -
    have "x + 2 ^ k \<le> n" using below that by fastforce
    moreover have "(0::nat) < 2 ^ k" by simp
    ultimately show ?thesis using assms(2) by linarith
  qed
  have "\<forall>x\<in>free_set z. x < s" using strict by (fastforce simp: free_set_def blk_def)
  moreover have "\<forall>b\<in>free_blocks z. fst b + 2 ^ snd b \<le> s" using below ns by fastforce
  moreover have "\<forall>(x, k)\<in>free_blocks z. (if x < s then x + 2 ^ k < s else k < MAX_ORDER - 1 \<and> aligned (x, Suc k)
      \<longrightarrow> x + 2 ^ Suc k > e \<or> (\<exists>y\<in>blk (x, Suc k). pfn_is_reserved mb z y))"
    using strict by fastforce
  moreover have none: "{x. s \<le> x \<and> x < s \<and> P x} = {}" for P by auto
  ultimately show ?thesis
    using assms(1) ns unfolding init_inv_def scan_inv_def none by simp
qed

lemma init_inv_region:
  assumes "init_inv mb z0 rs n z" and "n < region_start r \<or> n = 0" and "region_ok r"
  shows "init_inv mb z0 (rs @ [r]) (max n (region_stop r)) (page_init_region mb r z)"
proof -
  let ?e = "min (region_stop r) (max_pfn_mapped z)" and ?s = "region_start r"
  have max: "max_pfn_mapped z = max_pfn_mapped z0" using assms(1) by (simp add: init_inv_def)
  have weak: "init_inv mb z0 (rs @ [r]) (max n (region_stop r)) z"
    if "{x. ?s \<le> x \<and> x < ?e \<and> \<not> pfn_is_reserved mb z0 x} = {}"
    using assms(1) that unfolding init_inv_def usable_frames_snoc max by (auto intro: le_trans)
  show ?thesis
  proof (cases "?s \<ge> max_pfn_mapped z \<or> ?e < ?s")
    case True
    then have "page_init_region mb r z = z"
      unfolding page_init_region_eq [OF assms(3)] by (subst page_init_scan.simps) auto
    moreover have "{x. ?s \<le> x \<and> x < ?e \<and> \<not> pfn_is_reserved mb z0 x} = {}"
      using True by (auto simp: min_def split: if_splits)
    ultimately show ?thesis using weak by simp
  next
    case False
    then have eq: "page_init_region mb r z = page_init_scan mb ?e ?s z"
      unfolding page_init_region_eq [OF assms(3)] by simp
    have sc: "scan_inv mb z ?s ?e ?e (page_init_scan mb ?e ?s z)"
      using False by (intro page_init_scan_inv init_inv_scan [OF assms(1,2)]) auto
    have R: "pfn_is_reserved mb z x = pfn_is_reserved mb z0 x" if "?s \<le> x" for x
    proof -
      have "pages z x = pages z0 x" using assms(1,2) that by (auto simp: init_inv_def)
      then show ?thesis by (simp add: pfn_is_reserved_def)
    qed
    then have "{x. ?s \<le> x \<and> x < ?e \<and> \<not> pfn_is_reserved mb z x} = {x. ?s \<le> x \<and> x < ?e \<and> \<not> pfn_is_reserved mb z0 x}"
      by blast
    then show ?thesis
      using sc assms(1) unfolding eq init_inv_def scan_inv_def usable_frames_snoc max [symmetric]
      by (auto intro: le_trans)
  qed
qed

lemma init_inv_fold:
  assumes "init_inv mb z0 rs n z" and "\<forall>r\<in>set rs'. n < region_start r \<or> n = 0" and "table_ok rs'"
  shows "\<exists>n'. init_inv mb z0 (rs @ rs') n' (fold (page_init_region mb) rs' z)"
  using assms
proof (induction rs' arbitrary: rs n z)
  case Nil
  then show ?case by auto
next
  case (Cons r rs')
  have r: "region_ok r" and t: "table_ok rs'" and g: "\<forall>r'\<in>set rs'. hi r < lo r'"
    using Cons.prems(3) by (auto simp: table_ok_def)
  have "\<forall>r'\<in>set rs'. max n (region_stop r) < region_start r' \<or> max n (region_stop r) = 0"
  proof
    fix r' assume r': "r' \<in> set rs'"
    have "region_stop r < region_start r'"
    proof -
      have "hi r div 4096 * 4096 \<le> hi r" by simp
      then have "hi r div 4096 * 4096 + 4096 \<le> lo r' + 4095" using g r' by fastforce
      then have "(hi r div 4096 + 1) * 4096 \<le> lo r' + 4095" by simp
      then show ?thesis by (simp add: region_stop_def region_start_def less_eq_div_iff_mult_less_eq Suc_le_eq [symmetric])
    qed
    then show "max n (region_stop r) < region_start r' \<or> max n (region_stop r) = 0"
      using Cons.prems(2) r' by auto
  qed
  moreover have "init_inv mb z0 (rs @ [r]) (max n (region_stop r)) (page_init_region mb r z)"
    using Cons.prems(1,2) r by (intro init_inv_region) auto
  ultimately show ?case using Cons.IH [OF _ _ t, of "rs @ [r]"] by fastforce
qed

subsection \<open>Allocation and release keep the invariant\<close>

definition plain_flags :: "u16 \<Rightarrow> bool" where
  "plain_flags f \<longleftrightarrow> f AND PG_BUDDY = 0 \<and> f AND PG_RESERVED = 0"

lemma page_take_correct:
  assumes "zone_inv z A" and "coalesced (free_blocks z)" and "plain_flags flags"
    and "order \<le> cur" and "p \<in> set (free_list z cur)"
  defines "z1 \<equiv> (list_unlink p z)\<lparr>nr_free := (nr_free z)(cur := nr_free z cur - 1)\<rparr>"
  defines "z2 \<equiv> page_split order cur p z1"
  defines "z3 \<equiv> set_page p (pages z2 p\<lparr>pg_flags := flags, pg_order := order, pg_refcount := 1\<rparr>) z2"
  defines "z4 \<equiv> z3\<lparr>free_pages := free_pages z3 - 2 ^ order\<rparr>"
  shows "zone_inv z4 (insert (p, order) A) \<and> coalesced (free_blocks z4)
    \<and> blk (p, order) \<subseteq> free_set z \<and> free_set z4 = free_set z - blk (p, order)"
proof -
  have core: "zone_core z A {}" and fp: "free_pages z = free_count z"
    using assms(1) by (simp_all add: zone_inv_def)
  have pf: "(p, cur) \<in> free_blocks z" using assms(5) by (simp add: in_free_blocks)
  have ok: "blocks_ok (max_pfn_mapped z) (free_blocks z \<union> A)" using core by (simp add: zone_core_def)
  have al: "\<forall>b\<in>free_blocks z. aligned b" using blocks_ok_block(2) [OF ok] by blast
  note un = core_unlink [OF core assms(5), folded z1_def]
  have fz1: "free_pages z1 = free_pages z" by (simp add: z1_def list_unlink_def)
  have sp: "zone_core z2 A {(p, order)}" "free_blocks z2 = free_blocks z1 \<union> upper_halves order cur p"
      "free_count z2 = free_count z1 + 2 ^ cur - 2 ^ order" "free_pages z2 = free_pages z1"
    using core_page_split [OF un(1) assms(4), folded z2_def] by blast+
  have "zone_core z3 A {(p, order)}"
    unfolding z3_def by (rule core_set_page [OF sp(1), of "(p, order)"]) simp_all
  then have c3: "zone_core z3 (insert (p, order) A) {}"
    using assms(3) by (intro core_give) (simp_all add: z3_def is_buddy_def plain_flags_def)
  have f4: "free_blocks z4 = free_blocks z2" "free_count z4 = free_count z2"
    by (simp_all add: z4_def z3_def free_blocks_def free_count_def)
  have "zone_core z4 (insert (p, order) A) {}" using c3 zone_core_fields(1) [of z4 z3] by (simp add: z4_def)
  moreover have "free_pages z4 = free_count z4"
    unfolding f4 sp(3) un(3) using fp by (simp add: z4_def z3_def sp(4) fz1)
  ultimately have inv: "zone_inv z4 (insert (p, order) A)" by (simp add: zone_inv_def)
  have no: "(p, i) \<notin> free_blocks z1" for i
  proof
    assume "(p, i) \<in> free_blocks z1"
    then have i: "(p, i) \<in> free_blocks z" "i \<noteq> cur" using un(2) by auto
    then have "(p, i) = (p, cur)"
      using pf by (intro blocks_ok_same_head [OF ok]) simp_all
    then show False using i by simp
  qed
  have "coalesced (free_blocks z1)" by (rule coalesced_subset [OF assms(2)]) (simp add: un(2))
  moreover have "\<forall>b\<in>free_blocks z1. aligned b" using al by (simp add: un(2))
  ultimately have "coalesced (free_blocks z1 \<union> upper_halves order cur p)"
    using no by (intro coalesced_upper_halves [OF _ bspec [OF al pf] _ _ assms(4)]) simp_all
  then have co: "coalesced (free_blocks z4)" by (simp add: f4 sp(2))
  have dis: "blk b \<inter> blk (p, cur) = {}" if "b \<in> free_blocks z1" for b
    using that un(2) pf by (intro blocks_ok_disj [OF ok]) auto
  have fs: "free_set z = \<Union> (blk ` free_blocks z1) \<union> blk (p, cur)"
    unfolding free_set_def un(2) using pf by blast
  have sub: "blk (p, order) \<subseteq> blk (p, cur)"
    using power_increasing [OF assms(4), of "2 :: nat"] by (auto simp: blk_def)
  have "free_set z4 = \<Union> (blk ` free_blocks z1) \<union> (blk (p, cur) - blk (p, order))"
    unfolding free_set_def f4 sp(2) by (simp add: upper_halves_blk [OF assms(4)])
  then have "free_set z4 = free_set z - blk (p, order)" unfolding fs using dis sub by blast
  with inv co sub fs show ?thesis by blast
qed

lemma page_alloc_from_correct:
  assumes "zone_inv z A" and "coalesced (free_blocks z)" and "plain_flags flags"
    and "order \<le> cur" and "\<forall>i. order \<le> i \<and> i < cur \<longrightarrow> free_list z i = []"
  shows "case page_alloc_from order flags cur z of
      (z', None) \<Rightarrow> z' = z \<and> (\<forall>k\<ge>order. free_list z k = [])
    | (z', Some p) \<Rightarrow> zone_inv z' (insert (p, order) A) \<and> coalesced (free_blocks z')
        \<and> blk (p, order) \<subseteq> free_set z \<and> free_set z' = free_set z - blk (p, order)"
  using assms(4,5)
proof (induction "MAX_ORDER - cur" arbitrary: cur rule: less_induct)
  case less
  show ?case
  proof (cases "cur < MAX_ORDER")
    case True
    show ?thesis
    proof (cases "free_list z cur")
      case Nil
      then have "page_alloc_from order flags cur z = page_alloc_from order flags (cur + 1) z"
        using True by (subst page_alloc_from.simps) simp
      moreover have "\<forall>i. order \<le> i \<and> i < cur + 1 \<longrightarrow> free_list z i = []"
        using less.prems(2) Nil by (auto simp: less_Suc_eq)
      moreover have "MAX_ORDER - (cur + 1) < MAX_ORDER - cur" using True by simp
      ultimately show ?thesis using less.hyps [of "cur + 1"] less.prems(1) by simp
    next
      case (Cons p rest)
      then show ?thesis
        using page_take_correct [OF assms(1-3) less.prems(1), of p] True
        by (subst page_alloc_from.simps) (simp add: Let_def)
    qed
  next
    case False
    have "free_list z k = []" if "k \<ge> order" for k
    proof (cases "k < cur")
      case False
      have ok: "blocks_ok (max_pfn_mapped z) (free_blocks z \<union> A)"
        using assms(1) by (simp add: zone_inv_def zone_core_def)
      have "x \<notin> set (free_list z k)" for x
        using blocks_ok_block(1) [OF ok, of "(x, k)"] False \<open>\<not> cur < MAX_ORDER\<close>
        by (auto simp: in_free_blocks)
      then show ?thesis by (meson last_in_set)
    qed (use less.prems that in simp)
    then show ?thesis using False by (subst page_alloc_from.simps) simp
  qed
qed

lemma page_alloc_spec:
  assumes "zone_inv z A" and "coalesced (free_blocks z)" and "plain_flags flags"
  shows "case page_alloc order flags z of
      (z', None) \<Rightarrow> z' = z \<and> (\<forall>k\<ge>order. free_list z k = [])
    | (z', Some p) \<Rightarrow> zone_inv z' (insert (p, order) A) \<and> coalesced (free_blocks z')
        \<and> blk (p, order) \<subseteq> free_set z \<and> free_set z' = free_set z - blk (p, order)"
  unfolding page_alloc_def by (rule page_alloc_from_correct [OF assms order_refl]) auto

lemma page_free_spec:
  assumes "zone_inv z A" and "coalesced (free_blocks z)" and "(p, k) \<in> A"
    and "sint (pg_refcount (pages z p)) \<le> 1"
  shows "\<exists>z'. page_free (Some p) z = (z', Inr ()) \<and> zone_inv z' (A - {(p, k)})
    \<and> coalesced (free_blocks z') \<and> free_set z' = free_set z \<union> blk (p, k)"
proof -
  have core: "zone_core z A {}" and fp: "free_pages z = free_count z"
    using assms(1) by (simp_all add: zone_inv_def)
  have pg: "pg_flags (pages z p) AND PG_BUDDY = 0" "pg_flags (pages z p) AND PG_RESERVED = 0"
      "pg_order (pages z p) = k"
    using core assms(3) by (auto simp: zone_core_def alloc_heads_ok_def is_buddy_def)
  have kM: "k < MAX_ORDER"
    using core assms(3) blocks_ok_block(1) [of _ "free_blocks z \<union> A" "(p, k)"] by (auto simp: zone_core_def)
  define z1 where "z1 = set_page p (pages z p\<lparr>pg_flags := PG_BUDDY, pg_refcount := 0\<rparr>) z"
  obtain q j z2 where m: "page_merge p k z1 = (q, j, z2)" by (metis prod_cases3)
  define z3 where "z3 = area_add j q (mark_buddy q j z2)"
  define z4 where "z4 = z3\<lparr>free_pages := free_pages z3 + 2 ^ k\<rparr>"
  have e: "page_free (Some p) z = (z4, Inr ())"
    using pg assms(4) m by (simp add: page_free_def Let_def z1_def z3_def z4_def)
  have c1: "zone_core z1 (A - {(p, k)}) {(p, k)}"
    unfolding z1_def using core_take [OF core assms(3)] by (rule core_set_page [of _ _ _ "(p, k)"]) simp_all
  have f1: "free_blocks z1 = free_blocks z" "free_count z1 = free_count z" "free_pages z1 = free_pages z"
    by (simp_all add: z1_def free_blocks_def free_count_def)
  from core_page_merge [OF c1 kM m] have mg: "zone_core z2 (A - {(p, k)}) {(q, j)}"
      "\<Union> (blk ` free_blocks z2) \<union> blk (q, j) = free_set z \<union> blk (p, k)"
      "free_count z2 + 2 ^ j = free_count z + 2 ^ k" "free_blocks z2 \<subseteq> free_blocks z"
      "free_pages z2 = free_pages z"
      "j < MAX_ORDER - 1 \<longrightarrow> (q XOR 2 ^ j, j) \<notin> free_blocks z2"
    by (simp_all add: f1 free_set_def)
  note add = core_add [of z2 _ q j "{}", OF mg(1), folded z3_def, simplified]
  have f4: "free_blocks z4 = insert (q, j) (free_blocks z2)" "free_count z4 = free_count z2 + 2 ^ j"
    using add(2,3) zone_core_fields(2,3) [of z4 z3] by (simp_all add: z4_def)
  have "zone_core z4 (A - {(p, k)}) {}" using add(1) zone_core_fields(1) [of z4 z3] by (simp add: z4_def)
  moreover have "free_pages z4 = free_count z4"
    using fp mg(3,5) unfolding f4 by (simp add: z4_def z3_def area_add_def mark_buddy_def)
  ultimately have "zone_inv z4 (A - {(p, k)})" by (simp add: zone_inv_def)
  moreover have "coalesced (free_blocks z4)"
    unfolding f4(1)
  proof (rule coalesced_insert [OF coalesced_subset [OF assms(2) mg(4)] mg(6)])
    have ok: "blocks_ok (max_pfn_mapped z2) (free_blocks z2 \<union> (A - {(p, k)}) \<union> {(q, j)})"
      using mg(1) by (simp add: zone_core_def)
    show "aligned (q, j)" "\<forall>b\<in>free_blocks z2. aligned b"
      using blocks_ok_block(2) [OF ok] by blast+
  qed
  moreover have "free_set z4 = free_set z \<union> blk (p, k)" using mg(2) by (simp add: free_set_def f4(1) Un_commute)
  ultimately show ?thesis using e by blast
qed

subsection \<open>The allocator interface\<close>

lemma page_split_frame:
  "x \<notin> blk (p, cur) \<Longrightarrow> pages (page_split order cur p z) x = pages z x"
proof (induction order cur p z rule: page_split.induct)
  case (1 order cur p z)
  show ?case
  proof (cases "order < cur")
    case True
    then obtain c where c: "cur = Suc c" by (cases cur) auto
    have "x \<notin> blk (p, c)" "x \<noteq> p + 2 ^ c" using "1.prems" by (auto simp: c blk_def)
    then show ?thesis
      using "1.IH" [OF True refl refl] c
      by (subst page_split.simps) (simp add: Let_def area_add_def mark_buddy_def)
  qed (subst page_split.simps, simp)
qed

lemma page_alloc_from_frame:
  assumes "page_alloc_from order flags cur z = (z', r)" and "x \<notin> free_set z"
  shows "pages z' x = pages z x"
  using assms(1)
proof (induction "MAX_ORDER - cur" arbitrary: cur rule: less_induct)
  case less
  show ?case
  proof (cases "cur < MAX_ORDER")
    case lt: True
    show ?thesis
    proof (cases "free_list z cur")
      case Nil
      then have "page_alloc_from order flags (cur + 1) z = (z', r)"
        using less.prems lt by (subst (asm) page_alloc_from.simps) simp
      then show ?thesis using less.hyps [of "cur + 1"] lt by simp
    next
      case (Cons p ps)
      then have "(p, cur) \<in> free_blocks z" by (simp add: in_free_blocks)
      then have n: "x \<notin> blk (p, cur)" "x \<noteq> p"
        using assms(2) head_in_blk [of p cur] by (auto simp: free_set_def)
      show ?thesis
        using less.prems lt Cons n page_split_frame [OF n(1)]
        by (subst (asm) page_alloc_from.simps) (auto simp: Let_def list_unlink_def)
    qed
  qed (use less.prems in \<open>subst (asm) page_alloc_from.simps, simp\<close>)
qed

lemma page_alloc_from_refcount:
  "page_alloc_from order flags cur z = (z', Some p) \<Longrightarrow> pg_refcount (pages z' p) = 1"
proof (induction order flags cur z rule: page_alloc_from.induct)
  case (1 order flags cur z)
  show ?case
  proof (cases "free_list z cur")
    case Nil
    then show ?thesis
      using "1.IH" "1.prems" by (subst (asm) (2) page_alloc_from.simps) (simp split: if_splits)
  next
    case (Cons q qs)
    then show ?thesis
      using "1.prems" by (subst (asm) page_alloc_from.simps) (auto simp: Let_def split: if_splits)
  qed
qed

lemma page_free_frame:
  assumes "zone_inv z A" and "(p, k) \<in> A" and "x \<notin> free_set z" and "x \<notin> blk (p, k)"
  shows "pages (fst (page_free (Some p) z)) x = pages z x"
proof -
  have core: "zone_core z A {}" using assms(1) by (simp add: zone_inv_def)
  have ok: "blocks_ok (max_pfn_mapped z) (free_blocks z \<union> A)" using core by (simp add: zone_core_def)
  have kM: "k < MAX_ORDER" using blocks_ok_block(1) [OF ok, of "(p, k)"] assms(2) by simp
  have ord: "pg_order (pages z p) = k" using core assms(2) by (auto simp: zone_core_def alloc_heads_ok_def)
  define z1 where "z1 = set_page p (pages z p\<lparr>pg_flags := PG_BUDDY, pg_refcount := 0\<rparr>) z"
  obtain q j z2 where m: "page_merge p k z1 = (q, j, z2)" by (metis prod_cases3)
  have c1: "zone_core z1 (A - {(p, k)}) {(p, k)}"
    unfolding z1_def using core_take [OF core assms(2)] by (rule core_set_page [of _ _ _ "(p, k)"]) simp_all
  have f1: "\<Union> (blk ` free_blocks z1) = free_set z" by (simp add: z1_def free_blocks_def free_set_def)
  have "pages z2 x = pages z1 x"
    using core_page_merge [OF c1 kM m] assms(3) unfolding f1 by blast
  moreover have "x \<noteq> p" using assms(4) by auto
  moreover have "x \<noteq> q"
    using core_page_merge [OF c1 kM m] assms(3,4) head_in_blk [of q j] unfolding f1 by blast
  ultimately show ?thesis
    using m ord by (simp add: page_free_def Let_def z1_def area_add_def mark_buddy_def)
qed

text \<open>Blocks handed out and referenced once, and the page operations as an allocator of blocks.\<close>

definition page_owned :: "zone \<Rightarrow> (nat \<times> nat) set \<Rightarrow> bool" where
  "page_owned z A \<longleftrightarrow> zone_inv z A \<and> coalesced (free_blocks z)
     \<and> (\<forall>(p, k)\<in>A. sint (pg_refcount (pages z p)) \<le> 1)"

definition get_block :: "nat \<Rightarrow> u16 \<Rightarrow> zone \<Rightarrow> zone \<times> (nat \<times> nat) option" where
  "get_block k flags z = (let (z', r) = page_alloc k flags z in (z', map_option (\<lambda>p. (p, k)) r))"

definition put_block :: "nat \<times> nat \<Rightarrow> zone \<Rightarrow> zone" where
  "put_block b z = fst (page_free (Some (fst b)) z)"

lemma page_allocator:
  assumes "plain_flags flags"
  shows "allocator page_owned (get_block order flags) put_block free_set blk"
proof
  fix z A z' b
  assume own: "page_owned z A" and g: "get_block order flags z = (z', Some b)"
  then obtain p where p: "page_alloc order flags z = (z', Some p)" "b = (p, order)"
    by (auto simp: get_block_def split: prod.splits)
  have inv: "zone_inv z A" "coalesced (free_blocks z)" using own by (simp_all add: page_owned_def)
  have r: "zone_inv z' (insert b A)" "coalesced (free_blocks z')" "blk b \<subseteq> free_set z"
      "free_set z' = free_set z - blk b"
    using page_alloc_spec [OF inv assms, of order] p by auto
  have ok: "blocks_ok (max_pfn_mapped z) (free_blocks z \<union> A)" and dis: "free_blocks z \<inter> A = {}"
    using inv(1) by (simp_all add: zone_inv_def zone_core_def)
  have nf: "q \<notin> free_set z" if "(q, k) \<in> A" for q k
  proof
    assume "q \<in> free_set z"
    then obtain c where "c \<in> free_blocks z" "q \<in> blk c" by (auto simp: free_set_def)
    moreover from this that have "c = (q, k)" by (intro blocks_ok_same_head [OF ok]) auto
    ultimately show False using that dis by blast
  qed
  have "b \<notin> A" using nf [of p order] r(3) p(2) head_in_blk [of p order] by blast
  moreover have "sint (pg_refcount (pages z' q)) \<le> 1" if "(q, k) \<in> insert b A" for q k
  proof (cases "(q, k) \<in> A")
    case True
    then have "pages z' q = pages z q"
      using page_alloc_from_frame [of order flags order z z' "Some p" q] nf p(1) by (simp add: page_alloc_def)
    then show ?thesis using own True by (auto simp: page_owned_def)
  next
    case False
    then have "q = p" using that p(2) by simp
    moreover have "pg_refcount (pages z' p) = 1"
      using p(1) unfolding page_alloc_def by (rule page_alloc_from_refcount)
    ultimately show ?thesis by simp
  qed
  moreover have "blk b \<noteq> {}" using head_in_blk [of p order] p(2) by blast
  ultimately show "page_owned z' (insert b A) \<and> b \<notin> A \<and> blk b \<noteq> {} \<and> blk b \<subseteq> free_set z
      \<and> free_set z' = free_set z - blk b"
    using r by (auto simp: page_owned_def)
next
  fix z A z'
  assume "page_owned z A" and "get_block order flags z = (z', None)"
  then show "z' = z"
    using page_alloc_spec [of z A flags order] assms
    by (auto simp: get_block_def page_owned_def split: prod.splits)
next
  fix z A b
  assume own: "page_owned z A" and b: "b \<in> A"
  obtain p k where pk: "b = (p, k)" by (cases b)
  have inv: "zone_inv z A" "coalesced (free_blocks z)" and rc: "sint (pg_refcount (pages z p)) \<le> 1"
    using own b pk by (auto simp: page_owned_def)
  obtain z' where z': "page_free (Some p) z = (z', Inr ())" "zone_inv z' (A - {b})" "coalesced (free_blocks z')"
      "free_set z' = free_set z \<union> blk b"
    using page_free_spec [OF inv b [unfolded pk] rc] pk by blast
  have ok: "blocks_ok (max_pfn_mapped z) (free_blocks z \<union> A)" and dis: "free_blocks z \<inter> A = {}"
    using inv(1) by (simp_all add: zone_inv_def zone_core_def)
  have "sint (pg_refcount (pages z' q)) \<le> 1" if q: "(q, j) \<in> A - {b}" for q j
  proof -
    have "q \<notin> blk c" if "c \<in> free_blocks z \<union> A" "c \<noteq> (q, j)" for c
      using blocks_ok_same_head [OF ok, of q j c] that q by blast
    then have "q \<notin> free_set z" "q \<notin> blk (p, k)" using q b pk dis by (auto simp: free_set_def)
    then have "pages z' q = pages z q"
      using page_free_frame [OF inv(1) b [unfolded pk]] z'(1) by fastforce
    then show ?thesis using own q by (auto simp: page_owned_def)
  qed
  then show "page_owned (put_block b z) (A - {b}) \<and> free_set (put_block b z) = free_set z \<union> blk b"
    using z' pk by (auto simp: page_owned_def put_block_def)
qed

text \<open>Single pages with the flags \<open>PG_KERNEL | PG_SLAB\<close>, as the slab allocator asks for them.\<close>

interpretation slab_pages: allocator page_owned "get_block 0 24" put_block free_set blk
  by (rule page_allocator) (simp add: plain_flags_def PG_BUDDY_def PG_RESERVED_def)

subsection \<open>Properties\<close>

text \<open>A zone of 1024 frames that is one free block of the largest order.\<close>

definition fresh_zone :: zone where
  "fresh_zone =
     \<lparr>free_list = (\<lambda>k. if k = 10 then [0] else []), nr_free = (\<lambda>k. if k = 10 then 1 else 0),
      reserved_pages = 0, free_pages = 1024,
      pages = (\<lambda>p. if p = 0 then \<lparr>pg_order = 10, pg_flags = PG_BUDDY, pg_refcount = 0\<rparr>
                    else \<lparr>pg_order = 0, pg_flags = 0, pg_refcount = 0\<rparr>),
      max_pfn_mapped = 1024\<rparr>"

lemma fresh_zone_blocks: "free_blocks fresh_zone = {(0, 10)}"
  by (auto simp: free_blocks_def fresh_zone_def)

lemma fresh_zone_fields: "max_pfn_mapped fresh_zone = 1024" "free_pages fresh_zone = 1024"
  "is_buddy fresh_zone p \<longleftrightarrow> p = 0"
  by (simp_all add: fresh_zone_def is_buddy_def)

lemma fresh_zone_ok: "zone_inv fresh_zone {}" "coalesced (free_blocks fresh_zone)"
proof -
  have "lists_ok fresh_zone" by (simp add: lists_ok_def fresh_zone_def)
  moreover have "free_heads_ok fresh_zone"
    unfolding free_heads_ok_def fresh_zone_blocks by (simp add: is_buddy_def fresh_zone_def)
  moreover have "free_count fresh_zone = 1024"
  proof -
    have "free_count fresh_zone = (\<Sum>k<MAX_ORDER. if k = 10 then 1024 else 0)"
      unfolding free_count_def by (rule sum.cong) (auto simp: fresh_zone_def)
    then show ?thesis by (simp add: MAX_ORDER_def)
  qed
  ultimately show "zone_inv fresh_zone {}"
    by (auto simp: zone_inv_def zone_core_def fresh_zone_blocks alloc_heads_ok_def blocks_ok_def
        aligned_def MAX_ORDER_def fresh_zone_fields blk_def)
  show "coalesced (free_blocks fresh_zone)"
    by (simp add: fresh_zone_blocks coalesced_def MAX_ORDER_def)
qed

text \<open>
  C1. Allocation in the buddy allocator: with the invariant, \<open>page_alloc\<close> returns a block of the
  requested order that was entirely free and overlaps no block handed out before, takes exactly
  its frames from the free ones, keeps the invariant with the block now owned by the caller,
  keeps the counters right and leaves no two mergeable free buddies. It returns NULL only when
  no block of the order or a larger one is free, and then nothing changes.
\<close>

theorem page_alloc_correct:
  assumes "zone_inv z A" and "coalesced (free_blocks z)" and "plain_flags flags"
  shows "case page_alloc order flags z of
      (z', None) \<Rightarrow> z' = z \<and> (\<forall>k\<ge>order. free_list z k = [])
    | (z', Some p) \<Rightarrow> zone_inv z' (insert (p, order) A) \<and> coalesced (free_blocks z')
        \<and> blk (p, order) \<subseteq> free_set z \<and> free_set z' = free_set z - blk (p, order)"
  by (rule page_alloc_spec [OF assms])

theorem page_alloc_correct_witness:
  "case page_alloc 3 0 fresh_zone of
      (z', None) \<Rightarrow> False
    | (z', Some p) \<Rightarrow> zone_inv z' {(p, 3)} \<and> free_set z' = {0..<1024} - {p..<p + 8}"
proof -
  have "plain_flags 0" by (simp add: plain_flags_def)
  moreover have "free_set fresh_zone = {0..<1024}" by (simp add: free_set_def fresh_zone_blocks blk_def)
  moreover have "free_list fresh_zone 10 \<noteq> []" by (simp add: fresh_zone_def)
  ultimately show ?thesis
    using page_alloc_correct [OF fresh_zone_ok, of 0 3]
    by (auto simp: blk_def split: prod.splits option.splits)
qed

text \<open>
  C2. Releasing a block: for a block the caller owns and nobody else references, \<open>page_free\<close>
  succeeds, makes exactly its frames free again, merges it with every free buddy, so that no two
  mergeable buddies remain, and keeps the invariant and the counters.
\<close>

theorem page_free_correct:
  assumes "zone_inv z A" and "coalesced (free_blocks z)" and "(p, k) \<in> A"
    and "sint (pg_refcount (pages z p)) \<le> 1"
  shows "\<exists>z'. page_free (Some p) z = (z', Inr ()) \<and> zone_inv z' (A - {(p, k)})
    \<and> coalesced (free_blocks z') \<and> free_set z' = free_set z \<union> blk (p, k)"
  by (rule page_free_spec [OF assms])

text \<open>A zone whose only block, of the largest order, is handed out.\<close>

definition busy_zone :: zone where
  "busy_zone =
     \<lparr>free_list = (\<lambda>k. []), nr_free = (\<lambda>k. 0), reserved_pages = 0, free_pages = 0,
      pages = (\<lambda>p. \<lparr>pg_order = (if p = 0 then 10 else 0), pg_flags = 0, pg_refcount = 1\<rparr>),
      max_pfn_mapped = 1024\<rparr>"

lemma busy_zone_ok: "zone_inv busy_zone {(0, 10)}" "coalesced (free_blocks busy_zone)" "free_set busy_zone = {}"
  by (simp_all add: zone_inv_def zone_core_def busy_zone_def free_blocks_def free_count_def lists_ok_def
      free_heads_ok_def alloc_heads_ok_def blocks_ok_def aligned_def MAX_ORDER_def is_buddy_def
      coalesced_def free_set_def)

theorem page_free_correct_witness:
  "\<exists>z'. page_free (Some 0) busy_zone = (z', Inr ()) \<and> zone_inv z' {} \<and> free_set z' = {0..<1024}"
proof -
  have "sint (pg_refcount (pages busy_zone 0)) \<le> 1" by (simp add: busy_zone_def)
  from page_free_correct [OF busy_zone_ok(1,2) singletonI this] show ?thesis
    by (auto simp: busy_zone_ok(3) blk_def)
qed

lemma page_merge_keeps:
  assumes "page_merge p k z = (q, j, z')" and "aligned (p, k)" and "x \<in> blk (p, k)"
  shows "pages z' x = pages z x"
  using assms
proof (induction p k z rule: page_merge.induct)
  case (1 p k z)
  let ?b = "p XOR 2 ^ k"
  let ?stop = "\<not> k < MAX_ORDER - 1 \<or> ?b \<ge> max_pfn_mapped z
      \<or> pg_flags (pages z ?b) AND PG_BUDDY = 0 \<or> pg_order (pages z ?b) \<noteq> k"
  show ?case
  proof (cases ?stop)
    case True
    then have "page_merge p k z = (p, k, z)" by (subst page_merge.simps) (auto simp: Let_def)
    then show ?thesis using "1.prems"(1) by simp
  next
    case False
    define z1 where "z1 = (list_unlink ?b z)\<lparr>nr_free := (nr_free z)(k := nr_free z k - 1)\<rparr>"
    define z2 where "z2 = set_page ?b (pages z1 ?b\<lparr>pg_flags := pg_flags (pages z1 ?b) AND NOT PG_BUDDY, pg_order := 0\<rparr>) z1"
    have t: "k < MAX_ORDER - 1" "\<not> ?b \<ge> max_pfn_mapped z"
        "\<not> (pg_flags (pages z ?b) AND PG_BUDDY = 0 \<or> pg_order (pages z ?b) \<noteq> k)" using False by auto
    note bp = buddy_pair [OF "1.prems"(2)]
    have "page_merge p k z = page_merge (unset_bit k p) (k + 1) z2"
      using t by (subst page_merge.simps) (simp add: Let_def z1_def z2_def)
    then have "pages z' x = pages z2 x"
      using "1.IH" [OF t(1) refl t(2,3) refl refl refl, folded z1_def, folded z2_def] "1.prems" bp(2,3)
      by simp
    moreover have "x \<noteq> ?b" using "1.prems"(3) bp(4) head_in_blk [of ?b k] by blast
    ultimately show ?thesis by (simp add: z2_def z1_def list_unlink_def)
  qed
qed

text \<open>
  C4. A second release of the same block is caught: after a successful \<open>page_free\<close> the frame
  still carries \<open>PG_BUDDY\<close>, whatever it was merged with, so the next \<open>page_free\<close> of it returns
  \<open>-EINVAL\<close> and changes nothing.
\<close>

theorem page_double_free_rejected:
  assumes "zone_inv z A" and "(p, k) \<in> A" and "page_free (Some p) z = (z', Inr ())"
  shows "page_free (Some p) z' = (z', Inl EINVAL)"
proof -
  have core: "zone_core z A {}" using assms(1) by (simp add: zone_inv_def)
  have ord: "pg_order (pages z p) = k" and al: "aligned (p, k)"
    using core assms(2) blocks_ok_block(2) [of _ "free_blocks z \<union> A" "(p, k)"]
    by (auto simp: zone_core_def alloc_heads_ok_def)
  define z1 where "z1 = set_page p (pages z p\<lparr>pg_flags := PG_BUDDY, pg_refcount := 0\<rparr>) z"
  obtain q j z2 where m: "page_merge p k z1 = (q, j, z2)" by (metis prod_cases3)
  have z': "z' = (let z3 = area_add j q (mark_buddy q j z2) in z3\<lparr>free_pages := free_pages z3 + 2 ^ k\<rparr>)"
    using assms(3) m ord by (auto simp: page_free_def Let_def z1_def split: if_splits)
  have "pages z2 p = pages z1 p" by (rule page_merge_keeps [OF m al head_in_blk])
  then have "pg_flags (pages z' p) = PG_BUDDY"
    by (simp add: z' Let_def area_add_def mark_buddy_def z1_def)
  then show ?thesis by (simp add: page_free_def Let_def)
qed

theorem page_double_free_rejected_witness:
  "\<exists>z'. page_free (Some 0) busy_zone = (z', Inr ()) \<and> page_free (Some 0) z' = (z', Inl EINVAL)"
proof -
  have "\<exists>z'. page_free (Some 0) busy_zone = (z', Inr ())"
    by (simp add: page_free_def busy_zone_def page_merge.simps MAX_ORDER_def Let_def)
  then show ?thesis using page_double_free_rejected [OF busy_zone_ok(1)] by blast
qed

text \<open>Reservation in terms of bytes: what the test of a frame means for the two tables.\<close>

lemma pfn_is_reserved_iff:
  assumes "table_ok (mt_regions (mb_reserved mb))" and "\<not> is_buddy z x" and "x < 0xFFFFF"
  shows "pfn_is_reserved mb z x \<longleftrightarrow> pg_flags (pages z x) AND PG_RESERVED \<noteq> 0 \<or> pg_flags (pages z x) = PG_BAD
    \<or> {x * 4096..<x * 4096 + 4096} \<inter> reserved_set mb \<noteq> {}"
proof -
  let ?a = "ucast (push_bit 12 (of_nat x) :: u32) :: u64"
  have "x * 4096 < 2 ^ 32" using assms(3) by simp
  then have "unat (push_bit 12 (of_nat x) :: u32) = x * 4096"
    by (simp add: push_bit_eq_mult unat_word_ariths unat_of_nat mod_mult_left_eq)
  then have a: "unat ?a = x * 4096" by (simp add: unsigned_ucast_eq)
  have "unat ?a + unat (0x1000 :: u32) \<le> 0xFFFFFFFF" unfolding a using assms(3) by simp
  from is_reserved_iff [OF assms(1) _ this] have "memblock_is_reserved ?a 0x1000 mb
      \<longleftrightarrow> {x * 4096..<x * 4096 + 4096} \<inter> reserved_set mb \<noteq> {}" unfolding a by simp
  then show ?thesis using assms(2) by (simp add: pfn_is_reserved_def is_buddy_def Let_def)
qed

lemma region_frame_bound:
  assumes "table_ok (mt_regions (mb_memory mb))" and "r \<in> set (mt_regions (mb_memory mb))" and "x < region_stop r"
  shows "x < 0xFFFFF"
proof -
  have "hi r \<le> 0xFFFFFFFF" using assms(1,2) by (auto simp: table_ok_def region_ok_def)
  then have "region_stop r \<le> 0xFFFFFFFF div 4096" unfolding region_stop_def by (rule div_le_mono)
  then show ?thesis using assms(3) by simp
qed

lemma usable_frames_bytes:
  assumes "memblock_ok mb" and "\<forall>x. \<not> is_buddy z x"
  shows "usable_frames mb z (mt_regions (mb_memory mb))
    = {x. (\<exists>r\<in>set (mt_regions (mb_memory mb)). region_start r \<le> x \<and> x < region_stop r) \<and> x < max_pfn_mapped z
         \<and> pg_flags (pages z x) AND PG_RESERVED = 0 \<and> pg_flags (pages z x) \<noteq> PG_BAD
         \<and> {x * 4096..<x * 4096 + 4096} \<inter> reserved_set mb = {}}"
proof -
  have "pfn_is_reserved mb z x \<longleftrightarrow> pg_flags (pages z x) AND PG_RESERVED \<noteq> 0 \<or> pg_flags (pages z x) = PG_BAD
      \<or> {x * 4096..<x * 4096 + 4096} \<inter> reserved_set mb \<noteq> {}"
    if "r \<in> set (mt_regions (mb_memory mb))" and "x < region_stop r" for r x
    using assms region_frame_bound [OF _ that] by (intro pfn_is_reserved_iff) (auto simp: memblock_ok_def)
  then show ?thesis unfolding usable_frames_def by (intro Collect_cong) blast
qed

text \<open>
  C3. \<open>page_init\<close> sets the allocator up: starting from page descriptors none of which is on a
  free list and a boot allocator with well-formed tables, it establishes the invariant with
  nothing handed out, in blocks that are already merged as far as possible, and the free frames
  are exactly the whole frames of the memory regions below \<open>max_pfn_mapped\<close> of which no byte is
  reserved and whose descriptor is not marked reserved or bad.
\<close>

theorem page_init_correct:
  assumes "memblock_ok mb" and "\<forall>x. \<not> is_buddy z x"
  shows "zone_inv (page_init mb z) {} \<and> coalesced (free_blocks (page_init mb z))
    \<and> free_set (page_init mb z)
      = {x. (\<exists>r\<in>set (mt_regions (mb_memory mb)). region_start r \<le> x \<and> x < region_stop r) \<and> x < max_pfn_mapped z
           \<and> pg_flags (pages z x) AND PG_RESERVED = 0 \<and> pg_flags (pages z x) \<noteq> PG_BAD
           \<and> {x * 4096..<x * 4096 + 4096} \<inter> reserved_set mb = {}}"
proof -
  let ?z = "z\<lparr>reserved_pages := 0, free_pages := 0, free_list := \<lambda>_. [], nr_free := \<lambda>_. 0\<rparr>"
  have ok: "table_ok (mt_regions (mb_memory mb))" using assms(1) by (simp add: memblock_ok_def)
  have f: "free_blocks ?z = {}" by (simp add: free_blocks_def)
  have "zone_inv ?z {}"
    using assms(2) by (simp add: zone_inv_def zone_core_def f blocks_ok_def lists_ok_def free_heads_ok_def
        alloc_heads_ok_def free_count_def is_buddy_def)
  then have "init_inv mb z [] 0 ?z"
    using assms(2) by (simp add: init_inv_def f coalesced_def free_set_def usable_frames_def is_buddy_def)
  from init_inv_fold [OF this _ ok] show ?thesis
    unfolding page_init_def usable_frames_bytes [OF assms, symmetric] by (auto simp: init_inv_def)
qed

text \<open>On the example machine frame 1, whose first 2 KiB are reserved, is not free; frame 2 is.\<close>

theorem page_init_correct_witness:
  "let z = page_init small_machine (fresh_zone\<lparr>pages := \<lambda>p. \<lparr>pg_order = 0, pg_flags = 0, pg_refcount = 0\<rparr>\<rparr>)
   in zone_inv z {} \<and> 1 \<notin> free_set z \<and> 2 \<in> free_set z"
  using page_init_correct [OF small_machine_ok, of "fresh_zone\<lparr>pages := \<lambda>p. \<lparr>pg_order = 0, pg_flags = 0, pg_refcount = 0\<rparr>\<rparr>"]
  by (simp add: is_buddy_def Let_def small_machine_def fresh_zone_def region_start_def region_stop_def PG_BAD_def)

end
