(* ===== verification/Wey_Slab.thy ===== *)
theory Wey_Slab
  imports Wey_Page Wey_Bytes
begin

text \<open>
  The slab caches of \<open>memory/heap/slab.c\<close> and the kernel heap of \<open>memory/heap/kheap.c\<close>. A
  \<open>struct slab\<close> occupies the first 28 bytes of its page and is kept in a map from its address;
  the objects behind it are bytes of memory, and the list of free objects is threaded through
  them: each free object holds the address of the next one.
\<close>

subsection \<open>Data\<close>

definition SLAB_SIZES :: "u32 list" where
  "SLAB_SIZES = [8, 16, 32, 64, 128, 256, 512, 1024, 2048]"

definition SLAB_MAX_SIZE :: u32 where
  "SLAB_MAX_SIZE = 2048"

definition PG_KERNEL :: u16 where
  "PG_KERNEL = 8"

definition PG_SLAB :: u16 where
  "PG_SLAB = 16"

text \<open>\<open>sizeof(struct slab)\<close>: a list head, three pointers and two counters.\<close>

definition SLAB_HEADER :: u32 where
  "SLAB_HEADER = 28"

record slab =
  sl_start :: addr
  sl_free_list :: addr
  sl_free_count :: u32
  sl_total :: u32
  sl_page :: nat

text \<open>
  The heap: the page zone, the field \<open>private\<close> of the page descriptors, the slab headers, the
  byte memory, and for each cache the list of its slabs.
\<close>

record kheap =
  kh_zone :: zone
  kh_private :: "nat \<Rightarrow> addr"
  kh_slab :: "addr \<Rightarrow> slab"
  kh_mem :: mem
  kh_caches :: "nat \<Rightarrow> addr list"

subsection \<open>Slab operations\<close>

fun get_cache_index_from :: "u32 \<Rightarrow> nat \<Rightarrow> u32 list \<Rightarrow> int" where
  "get_cache_index_from sz i [] = -1"
| "get_cache_index_from sz i (s # ss) = (if sz \<le> s then int i else get_cache_index_from sz (i + 1) ss)"

definition get_cache_index :: "u32 \<Rightarrow> int" where
  "get_cache_index sz = get_cache_index_from sz 0 SLAB_SIZES"

text \<open>The loop that threads the free list; the first argument counts the objects to do.\<close>

fun slab_thread :: "nat \<Rightarrow> u32 \<Rightarrow> addr \<Rightarrow> addr \<Rightarrow> mem \<Rightarrow> mem \<times> addr" where
  "slab_thread 0 sz obj free m = (m, free)"
| "slab_thread (Suc n) sz obj free m = slab_thread n sz (obj + sz) obj (store32 m obj free)"

definition slab_create :: "nat \<Rightarrow> kheap \<Rightarrow> kheap \<times> addr option" where
  "slab_create i h =
     (case page_alloc 0 (PG_KERNEL OR PG_SLAB) (kh_zone h) of
        (z, None) \<Rightarrow> (h\<lparr>kh_zone := z\<rparr>, None)
      | (z, Some p) \<Rightarrow>
          let virt = page_to_virt p; sz = SLAB_SIZES ! i;
              total = (0x1000 - SLAB_HEADER) div sz;
              start = virt + SLAB_HEADER;
              (m, free) = slab_thread (unat total) sz start 0 (memset (kh_mem h) virt 0 SLAB_HEADER)
          in (h\<lparr>kh_zone := z, kh_private := (kh_private h)(p := virt), kh_mem := m,
                kh_slab := (kh_slab h)(virt := \<lparr>sl_start = start, sl_free_list = free,
                  sl_free_count = total, sl_total = total, sl_page = p\<rparr>)\<rparr>, Some virt))"

definition slab_destroy :: "addr \<Rightarrow> kheap \<Rightarrow> kheap" where
  "slab_destroy s h = h\<lparr>kh_zone := fst (page_free (Some (sl_page (kh_slab h s))) (kh_zone h))\<rparr>"

definition slab_init :: "kheap \<Rightarrow> kheap" where
  "slab_init h = h\<lparr>kh_caches := \<lambda>_. []\<rparr>"

text \<open>The label \<open>found\<close>: take the first free object of the slab.\<close>

definition slab_pop :: "addr \<Rightarrow> kheap \<Rightarrow> kheap \<times> addr" where
  "slab_pop s h =
     (let sl = kh_slab h s; obj = sl_free_list sl
      in (h\<lparr>kh_slab := (kh_slab h)(s := sl\<lparr>sl_free_list := load32 (kh_mem h) obj,
            sl_free_count := sl_free_count sl - 1\<rparr>)\<rparr>, obj))"

definition slab_alloc :: "u32 \<Rightarrow> kheap \<Rightarrow> kheap \<times> addr" where
  "slab_alloc sz h =
     (if sz = 0 then (h, 0)
      else let ci = get_cache_index sz in
        if ci < 0 then (h, 0)
        else case find (\<lambda>s. sl_free_count (kh_slab h s) > 0) (kh_caches h (nat ci)) of
            Some s \<Rightarrow> slab_pop s h
          | None \<Rightarrow>
              (case slab_create (nat ci) h of
                 (h', None) \<Rightarrow> (h', 0)
               | (h', Some s) \<Rightarrow>
                   slab_pop s (h'\<lparr>kh_caches := (kh_caches h')(nat ci := s # kh_caches h' (nat ci))\<rparr>)))"

text \<open>\<open>BUG_ON\<close> stops the kernel: \<open>None\<close>. \<open>list_remove\<close> takes the slab off whichever cache holds it.\<close>

definition slab_free :: "addr \<Rightarrow> kheap \<Rightarrow> kheap option" where
  "slab_free ptr h =
     (if ptr = 0 then Some h
      else let p = virt_to_page ptr in
        if pg_flags (pages (kh_zone h) p) AND PG_SLAB = 0 then Some h
        else let s = kh_private h p in
          if s = 0 then Some h
          else let sl = kh_slab h s in
            if sl_page sl \<noteq> p then None
            else let h1 = h\<lparr>kh_mem := store32 (kh_mem h) ptr (sl_free_list sl),
                    kh_slab := (kh_slab h)(s := sl\<lparr>sl_free_list := ptr, sl_free_count := sl_free_count sl + 1\<rparr>)\<rparr>
              in if sl_free_count sl + 1 = sl_total sl
                 then Some (slab_destroy s (h1\<lparr>kh_caches := (\<lambda>i. remove1 s (kh_caches h1 i))\<rparr>))
                 else Some h1)"

subsection \<open>The kernel heap\<close>

text \<open>\<open>64 - __builtin_clzll(n)\<close> is the number of bits of a non-zero \<open>n\<close>.\<close>

fun bit_length :: "nat \<Rightarrow> nat" where
  "bit_length n = (if n = 0 then 0 else Suc (bit_length (n div 2)))"

declare bit_length.simps [simp del]

definition order_for_pages :: "u32 \<Rightarrow> nat" where
  "order_for_pages n = (if n \<le> 1 then 0 else bit_length (unat (n - 1)))"

definition kmalloc :: "u32 \<Rightarrow> kheap \<Rightarrow> kheap \<times> addr" where
  "kmalloc sz h =
     (if sz = 0 then (h, 0)
      else if sz > SLAB_MAX_SIZE then
        let n = ALIGN_UP sz 0x1000 div 0x1000 in
        case page_alloc (order_for_pages n) PG_KERNEL (kh_zone h) of
          (z, None) \<Rightarrow> (h\<lparr>kh_zone := z\<rparr>, 0)
        | (z, Some p) \<Rightarrow> (h\<lparr>kh_zone := z\<rparr>, page_to_virt p)
      else slab_alloc sz h)"

definition kcalloc :: "u32 \<Rightarrow> u32 \<Rightarrow> kheap \<Rightarrow> kheap \<times> addr" where
  "kcalloc nmemb sz h =
     (if nmemb \<noteq> 0 \<and> sz > 0xFFFFFFFF div nmemb then (h, 0)
      else let total = nmemb * sz; (h', ptr) = kmalloc total h
           in if ptr \<noteq> 0 then (h'\<lparr>kh_mem := memset (kh_mem h') ptr 0 total\<rparr>, ptr) else (h', ptr))"

definition kfree :: "addr \<Rightarrow> kheap \<Rightarrow> kheap option" where
  "kfree ptr h =
     (if ptr = 0 then Some h
      else let p = virt_to_page ptr in
        if pg_flags (pages (kh_zone h) p) AND PG_SLAB \<noteq> 0 \<and> kh_private h p \<noteq> 0 then slab_free ptr h
        else Some (h\<lparr>kh_zone := fst (page_free (Some p) (kh_zone h))\<rparr>))"

subsection \<open>Size classes\<close>

lemma get_cache_index_from_spec:
  "get_cache_index_from sz i ss = (case find (\<lambda>k. sz \<le> ss ! k) [0..<length ss] of None \<Rightarrow> -1 | Some k \<Rightarrow> int (i + k))"
proof (induction ss arbitrary: i)
  case Nil
  then show ?case by simp
next
  case (Cons s ss)
  have "find (\<lambda>k. sz \<le> (s # ss) ! k) [0..<length (s # ss)]
      = (if sz \<le> s then Some 0 else map_option Suc (find (\<lambda>k. sz \<le> ss ! k) [0..<length ss]))"
  proof -
    have "find P (map f xs) = map_option f (find (P \<circ> f) xs)" for P :: "nat \<Rightarrow> bool" and f xs
      by (induction xs) auto
    from this [of "\<lambda>k. sz \<le> (s # ss) ! k" Suc "[0..<length ss]"] show ?thesis
      by (simp add: upt_conv_Cons map_Suc_upt [symmetric] comp_def del: upt_Suc)
  qed
  then show ?case using Cons.IH [of "i + 1"] by (simp split: option.split)
qed

lemma get_cache_index_cases:
  assumes "get_cache_index sz \<ge> 0"
  shows "nat (get_cache_index sz) < 9 \<and> sz \<le> SLAB_SIZES ! nat (get_cache_index sz)
    \<and> (\<forall>j<nat (get_cache_index sz). SLAB_SIZES ! j < sz)"
proof -
  have "length SLAB_SIZES = 9" by (simp add: SLAB_SIZES_def)
  then show ?thesis
    using assms unfolding get_cache_index_def get_cache_index_from_spec
    by (auto simp: find_None_iff find_Some_iff not_le split: option.splits)
qed

lemma get_cache_index_iff: "get_cache_index sz \<ge> 0 \<longleftrightarrow> sz \<le> SLAB_MAX_SIZE"
  by (simp add: get_cache_index_def SLAB_SIZES_def SLAB_MAX_SIZE_def) (auto intro: order_trans)

lemma bit_length_spec: "n < 2 ^ bit_length n \<and> (n \<noteq> 0 \<longrightarrow> 2 ^ (bit_length n - 1) \<le> n)"
proof (induction n rule: bit_length.induct)
  case (1 n)
  show ?case
  proof (cases "n = 0")
    case False
    let ?b = "bit_length (n div 2)"
    have b: "bit_length n = Suc ?b" using False by (subst bit_length.simps) simp
    have "n div 2 < 2 ^ ?b" "n div 2 \<noteq> 0 \<longrightarrow> 2 ^ (?b - 1) \<le> n div 2" using "1.IH" False by auto
    then have lt: "n < 2 * 2 ^ ?b" and ge: "n div 2 \<noteq> 0 \<Longrightarrow> 2 * 2 ^ (?b - 1) \<le> n" by linarith+
    have "2 ^ ?b \<le> n"
    proof (cases "n div 2 = 0")
      case True
      then have "?b = 0" by (subst bit_length.simps) simp
      then show ?thesis using False by simp
    next
      case nz: False
      then have "?b = Suc (?b - 1)" by (subst (1 2) bit_length.simps) simp
      then show ?thesis using ge [OF nz] by (metis power_Suc)
    qed
    then show ?thesis using lt False by (simp add: b)
  qed (simp add: bit_length.simps)
qed

text \<open>The order of a page request is the least one whose block is large enough.\<close>

lemma order_for_pages_spec:
  "unat n \<le> 2 ^ order_for_pages n \<and> (\<forall>k. unat n \<le> 2 ^ k \<longrightarrow> order_for_pages n \<le> k)"
proof (cases "n \<le> 1")
  case True
  then show ?thesis by (simp add: order_for_pages_def word_le_nat_alt)
next
  case False
  then have u: "unat (n - 1) = unat n - 1" "1 < unat n"
    by (simp_all add: word_le_nat_alt unat_sub_no_wrap)
  let ?b = "bit_length (unat n - 1)"
  have b: "unat n - 1 < 2 ^ ?b" "2 ^ (?b - 1) \<le> unat n - 1"
    using bit_length_spec [of "unat n - 1"] u(2) by auto
  have "?b \<le> k" if "unat n \<le> 2 ^ k" for k
  proof -
    have "(2::nat) ^ (?b - 1) < 2 ^ k" using b(2) that u(2) by linarith
    then have "?b - 1 < k" by simp
    then show ?thesis by linarith
  qed
  moreover have "unat n \<le> 2 ^ ?b" using b(1) u(2) by linarith
  ultimately show ?thesis using False u by (simp add: order_for_pages_def)
qed

subsection \<open>The free list inside the objects\<close>

fun chain :: "mem \<Rightarrow> addr \<Rightarrow> addr list \<Rightarrow> bool" where
  "chain m p [] \<longleftrightarrow> p = 0"
| "chain m p (x # xs) \<longleftrightarrow> p = x \<and> x \<noteq> 0 \<and> chain m (load32 m x) xs"

lemma chain_cong: "chain m p xs \<Longrightarrow> (\<And>x. x \<in> set xs \<Longrightarrow> load32 m' x = load32 m x) \<Longrightarrow> chain m' p xs"
  by (induction xs arbitrary: p) auto

lemma chain_push:
  assumes "chain m p xs" and "x \<noteq> 0" and "\<And>y. y \<in> set xs \<Longrightarrow> cells x 4 \<inter> cells y 4 = {}"
  shows "chain (store32 m x p) x (x # xs)"
proof -
  have "chain (store32 m x p) p xs"
    using assms(1) by (rule chain_cong) (intro load_store32_other assms(3))
  then show ?thesis using assms(2) by simp
qed

definition separate :: "addr set \<Rightarrow> bool" where
  "separate S \<longleftrightarrow> 0 \<notin> S \<and> (\<forall>x\<in>S. \<forall>y\<in>S. x \<noteq> y \<longrightarrow> cells x 4 \<inter> cells y 4 = {})"

lemma slab_thread_chain:
  assumes "chain m free fl" and "distinct (map (\<lambda>i. obj + of_nat i * sz) [0..<n] @ fl)"
    and "separate (set (map (\<lambda>i. obj + of_nat i * sz) [0..<n] @ fl))"
    and "slab_thread n sz obj free m = (m', f')"
  shows "chain m' f' (rev (map (\<lambda>i. obj + of_nat i * sz) [0..<n]) @ fl)
    \<and> (\<forall>a. (\<forall>i<n. a \<notin> cells (obj + of_nat i * sz) 4) \<longrightarrow> m' a = m a)"
  using assms
proof (induction n arbitrary: obj free m fl)
  case 0
  then show ?case by simp
next
  case (Suc n)
  have l: "map (\<lambda>i. obj + of_nat i * sz) [0..<Suc n] = obj # map (\<lambda>i. (obj + sz) + of_nat i * sz) [0..<n]"
    by (simp add: map_upt_Suc algebra_simps del: upt_Suc)
  have c: "chain (store32 m obj free) obj (obj # fl)"
    using Suc.prems(1-3) unfolding l by (intro chain_push) (auto simp: separate_def)
  have "distinct (map (\<lambda>i. (obj + sz) + of_nat i * sz) [0..<n] @ obj # fl)"
    using Suc.prems(2) unfolding l by auto
  moreover have "separate (set (map (\<lambda>i. (obj + sz) + of_nat i * sz) [0..<n] @ obj # fl))"
    using Suc.prems(3) unfolding l by (simp add: insert_commute)
  moreover have "slab_thread n sz (obj + sz) obj (store32 m obj free) = (m', f')"
    using Suc.prems(4) by simp
  ultimately have IH: "chain m' f' (rev (map (\<lambda>i. (obj + sz) + of_nat i * sz) [0..<n]) @ obj # fl)"
      "\<forall>a. (\<forall>i<n. a \<notin> cells ((obj + sz) + of_nat i * sz) 4) \<longrightarrow> m' a = store32 m obj free a"
    using Suc.IH [OF c] by blast+
  have "m' a = m a" if a: "\<forall>i<Suc n. a \<notin> cells (obj + of_nat i * sz) 4" for a
  proof -
    have "a \<notin> cells ((obj + sz) + of_nat i * sz) 4" if "i < n" for i
      using a that by (auto dest: spec [of _ "Suc i"] simp: algebra_simps)
    moreover have "a \<notin> cells obj 4" using a by (auto dest: spec [of _ 0])
    ultimately show ?thesis using IH(2) by (simp add: store32_outside)
  qed
  then show ?case using IH(1) unfolding l by simp
qed

text \<open>The objects of the slab at \<open>s\<close> with objects of \<open>sz\<close> bytes.\<close>

definition nobj :: "u32 \<Rightarrow> nat" where
  "nobj sz = 4068 div unat sz"

definition objs :: "addr \<Rightarrow> u32 \<Rightarrow> addr set" where
  "objs s sz = (\<lambda>i. s + SLAB_HEADER + of_nat i * sz) ` {..<nobj sz}"

definition page_addr :: "addr \<Rightarrow> bool" where
  "page_addr s \<longleftrightarrow> s \<noteq> 0 \<and> unat s + 4096 \<le> 4294967296"

lemma obj_unat:
  assumes "page_addr s" and "0 < unat sz" and "i < nobj sz"
  shows "unat (s + SLAB_HEADER + of_nat i * sz) = unat s + 28 + i * unat sz"
    and "unat s + 28 + i * unat sz + unat sz \<le> unat s + 4096"
proof -
  have "Suc i \<le> 4068 div unat sz" using assms(3) by (simp add: nobj_def)
  then have le: "Suc i * unat sz \<le> 4068" using assms(2) by (simp add: less_eq_div_iff_mult_less_eq)
  then show b: "unat s + 28 + i * unat sz + unat sz \<le> unat s + 4096" by simp
  have lt: "i * unat sz < 4294967296" using le by simp
  have "i \<le> i * unat sz" using assms(2) by simp
  then have "i < 4294967296" using lt by linarith
  then have "unat (of_nat i * sz) = i * unat sz"
    using lt by (simp add: unat_word_ariths unsigned_of_nat take_bit_nat_eq_self)
  moreover have "unat (s + SLAB_HEADER) = unat s + 28"
    using assms(1) by (subst unat_add_no_wrap) (simp_all add: page_addr_def SLAB_HEADER_def)
  ultimately show "unat (s + SLAB_HEADER + of_nat i * sz) = unat s + 28 + i * unat sz"
    using b assms(1,2) by (subst unat_add_no_wrap) (simp_all add: page_addr_def)
qed

definition page_cells :: "addr \<Rightarrow> addr set" where
  "page_cells s = {a. unat s \<le> unat a \<and> unat a < unat s + 4096}"

lemma slab_sizes_bounds: "i < 9 \<Longrightarrow> 8 \<le> unat (SLAB_SIZES ! i) \<and> unat (SLAB_SIZES ! i) \<le> 2048"
proof -
  assume "i < 9"
  then have "SLAB_SIZES ! i \<in> set SLAB_SIZES" by (intro nth_mem) (simp add: SLAB_SIZES_def)
  moreover have "\<forall>s\<in>set SLAB_SIZES. 8 \<le> unat s \<and> unat s \<le> 2048" by (simp add: SLAB_SIZES_def)
  ultimately show ?thesis by blast
qed

lemma objs_bounds:
  assumes "page_addr s" and "4 \<le> unat sz" and "x \<in> objs s sz"
  shows "unat s + 28 \<le> unat x" and "unat x + unat sz \<le> unat s + 4096" and "x \<noteq> 0"
    and "cells x 4 \<subseteq> page_cells s"
proof -
  obtain i where i: "i < nobj sz" "x = s + SLAB_HEADER + of_nat i * sz" using assms(3) by (auto simp: objs_def)
  have sz: "0 < unat sz" using assms(2) by simp
  note u = obj_unat [OF assms(1) sz i(1), folded i(2)]
  show b: "unat s + 28 \<le> unat x" "unat x + unat sz \<le> unat s + 4096" using u by linarith+
  then show "x \<noteq> 0" by auto
  have "unat x + 4 \<le> 4294967296" using b assms(1,2) by (simp add: page_addr_def)
  then show "cells x 4 \<subseteq> page_cells s" using b assms(2) by (auto simp: cells_iff page_cells_def)
qed

lemma objs_disjoint:
  assumes "page_addr s" and "4 \<le> unat sz" and "x \<in> objs s sz" and "y \<in> objs s sz" and "x \<noteq> y"
  shows "unat x + unat sz \<le> unat y \<or> unat y + unat sz \<le> unat x"
proof -
  obtain i j where i: "i < nobj sz" "x = s + SLAB_HEADER + of_nat i * sz"
    and j: "j < nobj sz" "y = s + SLAB_HEADER + of_nat j * sz"
    using assms(3,4) by (auto simp: objs_def)
  have sz: "0 < unat sz" using assms(2) by simp
  have u: "unat x = unat s + 28 + i * unat sz" "unat y = unat s + 28 + j * unat sz"
    using obj_unat(1) [OF assms(1) sz] i j by simp_all
  have "i \<noteq> j" using assms(5) i j by auto
  then have "Suc i \<le> j \<or> Suc j \<le> i" by linarith
  then have "Suc i * unat sz \<le> j * unat sz \<or> Suc j * unat sz \<le> i * unat sz"
    using mult_le_mono1 [of "Suc i" j "unat sz"] mult_le_mono1 [of "Suc j" i "unat sz"] by blast
  then show ?thesis unfolding u by auto
qed

lemma objs_separate:
  assumes "page_addr s" and "4 \<le> unat sz"
  shows "separate (objs s sz)"
  unfolding separate_def
proof (intro conjI ballI impI)
  show "0 \<notin> objs s sz" using objs_bounds(3) [OF assms] by blast
  fix x y assume xy: "x \<in> objs s sz" "y \<in> objs s sz" "x \<noteq> y"
  have "unat x + 4 \<le> 4294967296" "unat y + 4 \<le> 4294967296"
    using objs_bounds(2) [OF assms xy(1)] objs_bounds(2) [OF assms xy(2)] assms by (simp_all add: page_addr_def)
  then show "cells x 4 \<inter> cells y 4 = {}"
    using objs_disjoint [OF assms xy] assms(2) by (auto simp: cells_iff)
qed

text \<open>A slab whose objects outside \<open>U\<close> are on its free list.\<close>

definition slab_ok :: "mem \<Rightarrow> slab \<Rightarrow> addr \<Rightarrow> u32 \<Rightarrow> addr set \<Rightarrow> bool" where
  "slab_ok m sl s sz U \<longleftrightarrow> sl_total sl = of_nat (nobj sz)
     \<and> (\<exists>fl. chain m (sl_free_list sl) fl \<and> distinct fl \<and> set fl = objs s sz - U
          \<and> sl_free_count sl = of_nat (length fl))"

lemma slab_ok_frame:
  assumes "slab_ok m sl s sz U" and "page_addr s" and "4 \<le> unat sz"
    and "\<And>a. a \<in> page_cells s \<Longrightarrow> m' a = m a" and "U' \<inter> objs s sz = U \<inter> objs s sz"
  shows "slab_ok m' sl s sz U'"
proof -
  obtain fl where fl: "chain m (sl_free_list sl) fl" "distinct fl" "set fl = objs s sz - U"
      "sl_free_count sl = of_nat (length fl)" "sl_total sl = of_nat (nobj sz)"
    using assms(1) by (auto simp: slab_ok_def)
  have "chain m' (sl_free_list sl) fl"
    using fl(1)
  proof (rule chain_cong)
    fix x assume "x \<in> set fl"
    then have "cells x 4 \<subseteq> page_cells s" using fl(3) objs_bounds(4) [OF assms(2,3)] by blast
    then show "load32 m' x = load32 m x" using assms(4) by (intro load32_cong) blast
  qed
  moreover have "objs s sz - U = objs s sz - U'" using assms(5) by blast
  ultimately show ?thesis using fl by (auto simp: slab_ok_def)
qed

lemma slab_ok_pop:
  assumes "slab_ok m sl s sz U" and "sl_free_count sl > 0"
  defines "x \<equiv> sl_free_list sl"
  shows "x \<in> objs s sz - U"
    and "slab_ok m (sl\<lparr>sl_free_list := load32 m x, sl_free_count := sl_free_count sl - 1\<rparr>) s sz (insert x U)"
proof -
  obtain fl where fl: "chain m (sl_free_list sl) fl" "distinct fl" "set fl = objs s sz - U"
      "sl_free_count sl = of_nat (length fl)" "sl_total sl = of_nat (nobj sz)"
    using assms(1) by (auto simp: slab_ok_def)
  then obtain ys where ys: "fl = x # ys" using assms(2) by (cases fl) (auto simp: x_def)
  then show "x \<in> objs s sz - U" using fl(3) by auto
  show "slab_ok m (sl\<lparr>sl_free_list := load32 m x, sl_free_count := sl_free_count sl - 1\<rparr>) s sz (insert x U)"
    using fl ys unfolding slab_ok_def by (intro conjI exI [of _ ys]) (auto simp: x_def)
qed

lemma slab_ok_push:
  assumes "slab_ok m sl s sz U" and "x \<in> U" and "x \<in> objs s sz" and "page_addr s" and "4 \<le> unat sz"
  shows "slab_ok (store32 m x (sl_free_list sl))
     (sl\<lparr>sl_free_list := x, sl_free_count := sl_free_count sl + 1\<rparr>) s sz (U - {x})"
proof -
  obtain fl where fl: "chain m (sl_free_list sl) fl" "distinct fl" "set fl = objs s sz - U"
      "sl_free_count sl = of_nat (length fl)" "sl_total sl = of_nat (nobj sz)"
    using assms(1) by (auto simp: slab_ok_def)
  have "chain (store32 m x (sl_free_list sl)) x (x # fl)"
  proof (rule chain_push [OF fl(1)])
    show "x \<noteq> 0" by (rule objs_bounds(3) [OF assms(4,5,3)])
    fix y assume "y \<in> set fl"
    then have "y \<in> objs s sz" "x \<noteq> y" using fl(3) assms(2) by auto
    then show "cells x 4 \<inter> cells y 4 = {}"
      using objs_separate [OF assms(4,5)] assms(3) unfolding separate_def by blast
  qed
  moreover have "objs s sz - (U - {x}) = insert x (objs s sz - U)" using assms(3) by blast
  ultimately show ?thesis
    using fl assms(2) unfolding slab_ok_def by (intro conjI exI [of _ "x # fl"]) auto
qed

lemma nobj_pos: "i < 9 \<Longrightarrow> 0 < nobj (SLAB_SIZES ! i)"
  using slab_sizes_bounds [of i] by (simp add: nobj_def div_greater_zero_iff)

lemma unat_total: "unat ((0x1000 - SLAB_HEADER) div sz) = nobj sz"
  by (simp add: nobj_def SLAB_HEADER_def unat_div)

lemma slab_thread_new:
  assumes "page_addr s" and "i < 9" and "U \<inter> objs s (SLAB_SIZES ! i) = {}"
  defines "sz \<equiv> SLAB_SIZES ! i"
  assumes "slab_thread (nobj sz) sz (s + SLAB_HEADER) 0 m = (m', f)"
  shows "slab_ok m' \<lparr>sl_start = st, sl_free_list = f, sl_free_count = of_nat (nobj sz),
      sl_total = of_nat (nobj sz), sl_page = p\<rparr> s sz U"
    and "a \<notin> page_cells s \<Longrightarrow> m' a = m a"
proof -
  let ?os = "map (\<lambda>i. s + SLAB_HEADER + of_nat i * sz) [0..<nobj sz]"
  have sz: "4 \<le> unat sz" "0 < unat sz" using slab_sizes_bounds [OF assms(2)] by (simp_all add: sz_def)
  have set: "set ?os = objs s sz" by (auto simp: objs_def)
  have "inj_on (\<lambda>i. s + SLAB_HEADER + of_nat i * sz) (set [0..<nobj sz])"
  proof (rule inj_onI)
    fix i j assume "i \<in> set [0..<nobj sz]" "j \<in> set [0..<nobj sz]"
      "s + SLAB_HEADER + of_nat i * sz = s + SLAB_HEADER + of_nat j * sz"
    then have "unat s + 28 + i * unat sz = unat s + 28 + j * unat sz"
      using obj_unat(1) [OF assms(1) sz(2), of i] obj_unat(1) [OF assms(1) sz(2), of j] by auto
    then show "i = j" using sz(2) by simp
  qed
  then have d: "distinct ?os" by (simp add: distinct_map)
  have ch: "chain m' f (rev ?os @ [])
      \<and> (\<forall>a. (\<forall>i<nobj sz. a \<notin> cells (s + SLAB_HEADER + of_nat i * sz) 4) \<longrightarrow> m' a = m a)"
    using d set objs_separate [OF assms(1) sz(1)] assms(5)
    by (intro slab_thread_chain [where fl = "[]" and free = 0]) simp_all
  then show "slab_ok m' \<lparr>sl_start = st, sl_free_list = f, sl_free_count = of_nat (nobj sz),
      sl_total = of_nat (nobj sz), sl_page = p\<rparr> s sz U"
    using d set assms(3) unfolding slab_ok_def sz_def
    by (intro conjI exI [of _ "rev (map (\<lambda>j. s + SLAB_HEADER + of_nat j * SLAB_SIZES ! i) [0..<nobj (SLAB_SIZES ! i)])"]) auto
  show "m' a = m a" if "a \<notin> page_cells s"
  proof -
    have "a \<notin> cells (s + SLAB_HEADER + of_nat i * sz) 4" if "i < nobj sz" for i
      using objs_bounds(4) [OF assms(1) sz(1), of "s + SLAB_HEADER + of_nat i * sz"] that \<open>a \<notin> page_cells s\<close>
      by (auto simp: objs_def)
    then show ?thesis using ch by blast
  qed
qed

lemma page_to_virt_addr:
  assumes "p < 0x3FFFF"
  shows "unat (page_to_virt p) = 0xC0000000 + p * 4096" and "page_addr (page_to_virt p)"
    and "a \<in> page_cells (page_to_virt p) \<Longrightarrow> virt_to_page a = p"
proof -
  have k: "(of_int KERNEL_DIRECTMAP_START :: addr) = 0xC0000000" by (simp add: config_defs)
  have "unat (of_nat p :: addr) = p" using assms by (simp add: unsigned_of_nat take_bit_nat_eq_self)
  then have ph: "unat (page_to_phys p) = p * 4096"
    using assms by (simp add: page_to_phys_def push_bit_eq_mult unat_word_ariths)
  then show u: "unat (page_to_virt p) = 0xC0000000 + p * 4096"
    unfolding page_to_virt_def k using assms by (subst unat_add_no_wrap) simp_all
  then show "page_addr (page_to_virt p)" using assms by (auto simp: page_addr_def)
  show "virt_to_page a = p" if "a \<in> page_cells (page_to_virt p)"
  proof -
    have r: "0xC0000000 + p * 4096 \<le> unat a" "unat a < 0xC0000000 + p * 4096 + 4096"
      using that by (simp_all add: page_cells_def u)
    then have "unat (a - 0xC0000000) = unat a - 0xC0000000" by (subst unat_sub_no_wrap) simp_all
    then have "unat (drop_bit 12 (a - 0xC0000000)) = (unat a - 0xC0000000) div 4096"
      by (simp add: drop_bit_eq_div unat_div)
    also have "\<dots> = p" using r by (intro div_nat_eqI) simp_all
    finally show ?thesis by (simp only: virt_to_page_def phys_to_page_def k)
  qed
qed

lemma page_cells_disjoint:
  assumes "p < 0x3FFFF" and "q < 0x3FFFF" and "a \<in> page_cells (page_to_virt p)" and "a \<in> page_cells (page_to_virt q)"
  shows "p = q"
  using page_to_virt_addr(3) [OF assms(1,3)] page_to_virt_addr(3) [OF assms(2,4)] by simp

subsection \<open>The heap invariant\<close>

text \<open>
  A slab of cache \<open>i\<close>: a page the slab allocator owns, whose descriptor leads back to the slab,
  with every object either in use or on the free list.
\<close>

definition slab_good :: "kheap \<Rightarrow> (nat \<times> nat) set \<Rightarrow> addr set \<Rightarrow> nat \<Rightarrow> addr \<Rightarrow> bool" where
  "slab_good h A U i s \<longleftrightarrow> (let p = sl_page (kh_slab h s) in
     s = page_to_virt p \<and> (p, 0) \<in> A \<and> kh_private h p = s \<and> p < 0x3FFFF
     \<and> pg_flags (pages (kh_zone h) p) = 24
     \<and> slab_ok (kh_mem h) (kh_slab h s) s (SLAB_SIZES ! i) U)"

definition kh_inv :: "kheap \<Rightarrow> (nat \<times> nat) set \<Rightarrow> addr set \<Rightarrow> bool" where
  "kh_inv h A U \<longleftrightarrow> page_owned (kh_zone h) A \<and> max_pfn_mapped (kh_zone h) \<le> 0x3FFFF
     \<and> (\<forall>i. distinct (kh_caches h i)) \<and> (\<forall>i\<ge>9. kh_caches h i = [])
     \<and> (\<forall>i. \<forall>s\<in>set (kh_caches h i). slab_good h A U i s)
     \<and> (\<forall>i j. i \<noteq> j \<longrightarrow> set (kh_caches h i) \<inter> set (kh_caches h j) = {})
     \<and> U \<subseteq> (\<Union>i. \<Union>s\<in>set (kh_caches h i). objs s (SLAB_SIZES ! i))"

lemma slab_goodD:
  assumes "slab_good h A U i s"
  shows "s = page_to_virt (sl_page (kh_slab h s))" and "(sl_page (kh_slab h s), 0) \<in> A"
    and "kh_private h (sl_page (kh_slab h s)) = s" and "sl_page (kh_slab h s) < 0x3FFFF"
    and "pg_flags (pages (kh_zone h) (sl_page (kh_slab h s))) = 24"
    and "slab_ok (kh_mem h) (kh_slab h s) s (SLAB_SIZES ! i) U"
  using assms unfolding slab_good_def Let_def by blast+

lemma slab_good_upd:
  assumes "slab_good h A U i s" and "sl_page (kh_slab h' s) = sl_page (kh_slab h s)"
    and "kh_private h' (sl_page (kh_slab h s)) = kh_private h (sl_page (kh_slab h s))"
    and "(sl_page (kh_slab h s), 0) \<in> A'"
    and "pg_flags (pages (kh_zone h') (sl_page (kh_slab h s))) = pg_flags (pages (kh_zone h) (sl_page (kh_slab h s)))"
    and "slab_ok (kh_mem h') (kh_slab h' s) s (SLAB_SIZES ! i) U'"
  shows "slab_good h' A' U' i s"
  using slab_goodD [OF assms(1)] assms(4,6) unfolding slab_good_def Let_def assms(2,3,5) by blast

lemma kh_inv_slab:
  assumes "kh_inv h A U" and "s \<in> set (kh_caches h i)"
  shows "i < 9" and "slab_good h A U i s" and "page_addr s" and "4 \<le> unat (SLAB_SIZES ! i)"
    and "objs s (SLAB_SIZES ! i) \<subseteq> page_cells s"
proof -
  show i: "i < 9"
  proof (rule ccontr)
    assume "\<not> i < 9"
    then have "kh_caches h i = []" using assms(1) unfolding kh_inv_def by simp
    then show False using assms(2) by simp
  qed
  show g: "slab_good h A U i s" using assms by (auto simp: kh_inv_def)
  show a: "page_addr s"
    using page_to_virt_addr(2) [OF slab_goodD(4) [OF g]] unfolding slab_goodD(1) [OF g, symmetric] .
  show sz: "4 \<le> unat (SLAB_SIZES ! i)" using slab_sizes_bounds [OF i] by simp
  show "objs s (SLAB_SIZES ! i) \<subseteq> page_cells s"
  proof
    fix x assume "x \<in> objs s (SLAB_SIZES ! i)"
    note b = objs_bounds [OF a sz this]
    then show "x \<in> page_cells s" using sz by (simp add: page_cells_def)
  qed
qed

lemma kh_inv_unique: "kh_inv h A U \<Longrightarrow> s \<in> set (kh_caches h i) \<Longrightarrow> s \<in> set (kh_caches h j) \<Longrightarrow> i = j"
  unfolding kh_inv_def by blast

text \<open>The address ranges of different slabs do not meet.\<close>

lemma slab_pages_differ:
  assumes "kh_inv h A U" and "s \<in> set (kh_caches h i)" and "t \<in> set (kh_caches h j)" and "s \<noteq> t"
  shows "page_cells s \<inter> page_cells t = {}"
proof -
  have g: "slab_good h A U i s" "slab_good h A U j t"
    using kh_inv_slab(2) [OF assms(1)] assms(2,3) by blast+
  let ?p = "sl_page (kh_slab h s)" and ?q = "sl_page (kh_slab h t)"
  have e: "s = page_to_virt ?p" "t = page_to_virt ?q" "?p < 0x3FFFF" "?q < 0x3FFFF"
    using slab_goodD(1,4) [OF g(1)] slab_goodD(1,4) [OF g(2)] by blast+
  have "?p \<noteq> ?q" using e(1,2) assms(4) by metis
  then have "a \<notin> page_cells (page_to_virt ?q)" if "a \<in> page_cells (page_to_virt ?p)" for a
    using page_cells_disjoint [OF e(3,4) that] by blast
  then show ?thesis using e(1,2) by auto
qed

text \<open>An operation on one slab: its header, the bytes of its page, and its objects in use.\<close>

lemma kh_inv_update:
  assumes "kh_inv h A U" and "s \<in> set (kh_caches h i)" and "h' = h\<lparr>kh_mem := m, kh_slab := (kh_slab h)(s := sl)\<rparr>"
    and "sl_page sl = sl_page (kh_slab h s)" and "slab_ok m sl s (SLAB_SIZES ! i) U'"
    and "\<And>a. a \<notin> page_cells s \<Longrightarrow> m a = kh_mem h a"
    and "\<And>y. y \<notin> objs s (SLAB_SIZES ! i) \<Longrightarrow> y \<in> U' \<longleftrightarrow> y \<in> U"
  shows "kh_inv h' A U'"
proof -
  note ks = kh_inv_slab [OF assms(1,2)]
  have good: "slab_good h' A U' j t" if t: "t \<in> set (kh_caches h j)" for j t
  proof (cases "t = s")
    case True
    then have "j = i" using kh_inv_unique [OF assms(1) _ assms(2)] t by blast
    show ?thesis
      using assms(4,5) slab_goodD(2) [OF ks(2)] unfolding True \<open>j = i\<close>
      by (intro slab_good_upd [OF ks(2)]) (simp_all add: assms(3))
  next
    case False
    note kt = kh_inv_slab [OF assms(1) t]
    have d: "page_cells s \<inter> page_cells t = {}" using slab_pages_differ [OF assms(1,2) t] False by simp
    then have "y \<notin> objs s (SLAB_SIZES ! i)" if "y \<in> objs t (SLAB_SIZES ! j)" for y
      using that ks(5) kt(5) by blast
    then have "U' \<inter> objs t (SLAB_SIZES ! j) = U \<inter> objs t (SLAB_SIZES ! j)" using assms(7) by blast
    moreover have "m a = kh_mem h a" if "a \<in> page_cells t" for a using that d assms(6) by blast
    ultimately have "slab_ok m (kh_slab h t) t (SLAB_SIZES ! j) U'"
      by (intro slab_ok_frame [OF slab_goodD(6) [OF kt(2)] kt(3,4)])
    then show ?thesis
      using False slab_goodD(2) [OF kt(2)] by (intro slab_good_upd [OF kt(2)]) (simp_all add: assms(3))
  qed
  have "y \<in> (\<Union>i. \<Union>s\<in>set (kh_caches h i). objs s (SLAB_SIZES ! i))" if "y \<in> U'" for y
  proof (cases "y \<in> objs s (SLAB_SIZES ! i)")
    case True
    then show ?thesis using assms(2) by blast
  next
    case False
    then have "y \<in> U" using assms(7) that by blast
    moreover have "U \<subseteq> (\<Union>i. \<Union>s\<in>set (kh_caches h i). objs s (SLAB_SIZES ! i))"
      using assms(1) by (simp add: kh_inv_def)
    ultimately show ?thesis by blast
  qed
  then show ?thesis using assms(1) good unfolding kh_inv_def by (simp add: assms(3) subset_iff)
qed

lemma kh_inv_pop:
  assumes "kh_inv h A U" and "s \<in> set (kh_caches h i)" and "sl_free_count (kh_slab h s) > 0"
    and "slab_pop s h = (h', x)"
  shows "x \<in> objs s (SLAB_SIZES ! i) - U" and "kh_inv h' A (insert x U)" and "kh_caches h' = kh_caches h"
proof -
  note ok = slab_goodD(6) [OF kh_inv_slab(2) [OF assms(1,2)]]
  have x: "x = sl_free_list (kh_slab h s)" using assms(4) by (simp add: slab_pop_def Let_def)
  let ?sl = "kh_slab h s\<lparr>sl_free_list := load32 (kh_mem h) x, sl_free_count := sl_free_count (kh_slab h s) - 1\<rparr>"
  have h': "h' = h\<lparr>kh_slab := (kh_slab h)(s := ?sl)\<rparr>"
    using assms(4) x by (simp add: slab_pop_def Let_def)
  show xo: "x \<in> objs s (SLAB_SIZES ! i) - U" using slab_ok_pop(1) [OF ok assms(3)] by (simp add: x)
  show "kh_caches h' = kh_caches h" by (simp add: h')
  have "slab_ok (kh_mem h) ?sl s (SLAB_SIZES ! i) (insert x U)" using slab_ok_pop(2) [OF ok assms(3), folded x] .
  then show "kh_inv h' A (insert x U)"
    using xo by (intro kh_inv_update [OF assms(1,2), where m = "kh_mem h" and sl = ?sl]) (auto simp: h')
qed

end
