(* ===== verification/Wey_Heap.thy ===== *)
theory Wey_Heap
  imports Wey_Slab
begin

text \<open>
  The kernel heap as a whole: every operation of \<open>slab.c\<close> and \<open>kheap.c\<close> keeps the heap
  invariant, an allocated object is fresh and large enough, and releasing it puts it back.
\<close>

subsection \<open>What the page operations leave alone\<close>

lemma page_split_max: "max_pfn_mapped (page_split order cur p z) = max_pfn_mapped z"
proof (induction order cur p z rule: page_split.induct)
  case (1 order cur p z)
  then show ?case by (subst page_split.simps) (simp add: Let_def area_add_def mark_buddy_def)
qed

lemma page_alloc_from_fields:
  "page_alloc_from order flags cur z = (z', r) \<Longrightarrow>
   max_pfn_mapped z' = max_pfn_mapped z \<and> (\<forall>p. r = Some p \<longrightarrow> pg_flags (pages z' p) = flags)"
proof (induction order flags cur z rule: page_alloc_from.induct)
  case (1 order flags cur z)
  show ?case
  proof (cases "cur < MAX_ORDER")
    case lt: True
    show ?thesis
    proof (cases "free_list z cur")
      case Nil
      then show ?thesis using "1.IH" "1.prems" lt by (subst (asm) (2) page_alloc_from.simps) simp
    next
      case (Cons q qs)
      then show ?thesis
        using "1.prems" lt page_split_max
        by (subst (asm) page_alloc_from.simps) (auto simp: Let_def list_unlink_def)
    qed
  qed (use "1.prems" in \<open>subst (asm) page_alloc_from.simps, simp\<close>)
qed

lemma page_merge_max: "page_merge p k z = (q, j, z') \<Longrightarrow> max_pfn_mapped z' = max_pfn_mapped z"
proof (induction p k z rule: page_merge.induct)
  case (1 p k z)
  show ?case
    using "1.prems" "1.IH"
    by (subst (asm) page_merge.simps) (auto simp: Let_def list_unlink_def split: if_splits)
qed

lemma page_free_max: "max_pfn_mapped (fst (page_free r z)) = max_pfn_mapped z"
  by (auto simp: page_free_def Let_def area_add_def mark_buddy_def dest: page_merge_max split: option.split prod.split)

lemma allocated_not_free:
  assumes "zone_inv z A" and "(q, k) \<in> A"
  shows "q \<notin> free_set z"
proof
  have ok: "blocks_ok (max_pfn_mapped z) (free_blocks z \<union> A)" and dis: "free_blocks z \<inter> A = {}"
    using assms(1) by (simp_all add: zone_inv_def zone_core_def)
  assume "q \<in> free_set z"
  then obtain b where "b \<in> free_blocks z" "q \<in> blk b" by (auto simp: free_set_def)
  then show False using blocks_ok_same_head [OF ok, of q k b] assms(2) dis by blast
qed

subsection \<open>Creating a slab\<close>

lemma slab_flags [simp]: "PG_KERNEL OR PG_SLAB = 24"
  by (simp add: PG_KERNEL_def PG_SLAB_def)

lemma cells_header: "page_addr s \<Longrightarrow> cells s (unat SLAB_HEADER) \<subseteq> page_cells s"
  by (auto simp: page_addr_def page_cells_def SLAB_HEADER_def cells_iff)

lemma objs_page_cells:
  assumes "page_addr s" and "4 \<le> unat sz"
  shows "objs s sz \<subseteq> page_cells s"
proof
  fix x assume "x \<in> objs s sz"
  from objs_bounds(1,2) [OF assms this] show "x \<in> page_cells s" using assms(2) by (simp add: page_cells_def)
qed

lemma kh_inv_used:
  assumes "kh_inv h A U" and "x \<in> U"
  obtains i s where "s \<in> set (kh_caches h i)" and "x \<in> objs s (SLAB_SIZES ! i)"
proof -
  have "U \<subseteq> (\<Union>i. \<Union>s\<in>set (kh_caches h i). objs s (SLAB_SIZES ! i))" using assms(1) by (simp add: kh_inv_def)
  then show thesis using assms(2) that by blast
qed

text \<open>A block taken from the page allocator was free, so no slab uses it.\<close>

lemma heap_page_alloc:
  assumes "kh_inv h A U" and "page_alloc k flags (kh_zone h) = (z, Some p)" and "plain_flags flags"
  shows "page_owned z (insert (p, k) A)" and "(p, k) \<notin> A" and "max_pfn_mapped z = max_pfn_mapped (kh_zone h)"
    and "pg_flags (pages z p) = flags" and "p < 0x3FFFF" and "p \<in> free_set (kh_zone h)"
    and "s \<in> set (kh_caches h i) \<Longrightarrow> sl_page (kh_slab h s) \<noteq> p
       \<and> pages z (sl_page (kh_slab h s)) = pages (kh_zone h) (sl_page (kh_slab h s))"
proof -
  have own: "page_owned (kh_zone h) A" and mx: "max_pfn_mapped (kh_zone h) \<le> 0x3FFFF"
    using assms(1) by (simp_all add: kh_inv_def)
  have g: "get_block k flags (kh_zone h) = (z, Some (p, k))" using assms(2) by (simp add: get_block_def)
  note s = allocator.get_some [OF page_allocator [OF assms(3)] own g]
  show "page_owned z (insert (p, k) A)" "(p, k) \<notin> A" using s by blast+
  show pf: "p \<in> free_set (kh_zone h)" using s head_in_blk [of p k] by blast
  have f: "page_alloc_from k flags k (kh_zone h) = (z, Some p)" using assms(2) by (simp add: page_alloc_def)
  show mz: "max_pfn_mapped z = max_pfn_mapped (kh_zone h)" and "pg_flags (pages z p) = flags"
    using page_alloc_from_fields [OF f] by simp_all
  have zi: "zone_inv z (insert (p, k) A)" "zone_inv (kh_zone h) A" using s own by (simp_all add: page_owned_def)
  then have "blocks_ok (max_pfn_mapped z) (free_blocks z \<union> insert (p, k) A)"
    by (simp add: zone_inv_def zone_core_def)
  from blocks_ok_block(3) [OF this, of "(p, k)"] have "p + 2 ^ k \<le> 0x3FFFF" using mz mx by simp
  moreover have "(0::nat) < 2 ^ k" by simp
  ultimately show "p < 0x3FFFF" by linarith
  assume t: "s \<in> set (kh_caches h i)"
  let ?q = "sl_page (kh_slab h s)"
  have q: "(?q, 0) \<in> A" using slab_goodD(2) [OF kh_inv_slab(2) [OF assms(1) t]] .
  have "?q \<notin> free_set (kh_zone h)" by (rule allocated_not_free [OF zi(2) q])
  then show "?q \<noteq> p \<and> pages z ?q = pages (kh_zone h) ?q"
    using page_alloc_from_frame [OF f] pf by blast
qed

lemma slab_plain_flags [simp]: "plain_flags 24" "plain_flags PG_KERNEL"
  by (simp_all add: plain_flags_def PG_BUDDY_def PG_RESERVED_def PG_KERNEL_def)

text \<open>The parts of \<open>slab_create\<close>: the new page and the slab built in it.\<close>

lemma slab_create_parts:
  assumes "kh_inv h A U" and "i < 9" and "slab_create i h = (h1, Some s)"
  obtains z p m sl where "page_alloc 0 24 (kh_zone h) = (z, Some p)" and "s = page_to_virt p"
    and "h1 = h\<lparr>kh_zone := z, kh_private := (kh_private h)(p := s), kh_mem := m, kh_slab := (kh_slab h)(s := sl)\<rparr>"
    and "sl_page sl = p" and "sl_free_count sl > 0"
    and "U \<inter> objs s (SLAB_SIZES ! i) = {} \<Longrightarrow> slab_ok m sl s (SLAB_SIZES ! i) U"
    and "\<And>a. a \<notin> page_cells s \<Longrightarrow> m a = kh_mem h a"
proof -
  let ?sz = "SLAB_SIZES ! i"
  obtain z p where pa: "page_alloc 0 24 (kh_zone h) = (z, Some p)"
    using assms(3) by (auto simp: slab_create_def split: prod.splits option.splits)
  note pv = page_to_virt_addr [OF heap_page_alloc(5) [OF assms(1) pa slab_plain_flags(1)]]
  obtain m f where th: "slab_thread (nobj ?sz) ?sz (s + SLAB_HEADER) 0 (memset (kh_mem h) s 0 SLAB_HEADER) = (m, f)"
    by fastforce
  have s: "s = page_to_virt p" using assms(3) pa by (auto simp: slab_create_def Let_def split: prod.splits)
  then have sa: "page_addr s" using pv(2) by simp
  have tot: "(0x1000 - SLAB_HEADER) div ?sz = of_nat (nobj ?sz)" by (simp add: unat_total [symmetric])
  let ?sl = "\<lparr>sl_start = s + SLAB_HEADER, sl_free_list = f, sl_free_count = of_nat (nobj ?sz),
      sl_total = of_nat (nobj ?sz), sl_page = p\<rparr>"
  have "nobj ?sz \<le> 4068" by (simp add: nobj_def div_le_dividend)
  then have "unat (of_nat (nobj ?sz) :: u32) = nobj ?sz" by (simp add: unsigned_of_nat take_bit_nat_eq_self)
  then have pos: "(of_nat (nobj ?sz) :: u32) > 0" using nobj_pos [OF assms(2)] by (metis unat_gt_0 word_gt_0 unat_0)
  have fr: "m a = kh_mem h a" if a: "a \<notin> page_cells s" for a
  proof -
    have "a \<notin> cells s (unat SLAB_HEADER)" using cells_header [OF sa] a by blast
    then show ?thesis
      using slab_thread_new(2) [OF sa assms(2) Int_empty_left th a] memset_bytes [of "kh_mem h" s 0 SLAB_HEADER] by simp
  qed
  show thesis
  proof (rule that [of z p ?sl m])
    show "h1 = h\<lparr>kh_zone := z, kh_private := (kh_private h)(p := s), kh_mem := m, kh_slab := (kh_slab h)(s := ?sl)\<rparr>"
      using assms(3) pa th s by (simp add: slab_create_def Let_def unat_total tot)
    show "slab_ok m ?sl s ?sz U" if "U \<inter> objs s ?sz = {}" by (rule slab_thread_new(1) [OF sa assms(2) that th])
  qed (use pa s pos fr in simp_all)
qed

lemma kh_inv_add_slab:
  assumes "kh_inv h A U" and "i < 9" and "page_owned (kh_zone h') A'" and "max_pfn_mapped (kh_zone h') \<le> 0x3FFFF"
    and "\<And>j t. t \<in> set (kh_caches h j) \<Longrightarrow> t \<noteq> s \<and> slab_good h' A' U j t" and "slab_good h' A' U i s"
    and "kh_caches h' = (kh_caches h)(i := s # kh_caches h i)"
  shows "kh_inv h' A' U"
proof -
  have c: "set (kh_caches h' j) = (if j = i then insert s (set (kh_caches h j)) else set (kh_caches h j))" for j
    by (simp add: assms(7))
  have dis: "set (kh_caches h' j) \<inter> set (kh_caches h' k) = {}" if "j \<noteq> k" for j k
  proof -
    have "set (kh_caches h j) \<inter> set (kh_caches h k) = {}" using assms(1) that by (simp add: kh_inv_def)
    then show ?thesis using assms(5) that unfolding c by auto
  qed
  have "U \<subseteq> (\<Union>i. \<Union>s\<in>set (kh_caches h i). objs s (SLAB_SIZES ! i))" using assms(1) by (simp add: kh_inv_def)
  also have "\<dots> \<subseteq> (\<Union>i. \<Union>s\<in>set (kh_caches h' i). objs s (SLAB_SIZES ! i))" unfolding c by fastforce
  finally have U: "U \<subseteq> (\<Union>i. \<Union>s\<in>set (kh_caches h' i). objs s (SLAB_SIZES ! i))" .
  have "distinct (kh_caches h' j)" for j using assms(1,5) unfolding assms(7) kh_inv_def by auto
  moreover have "kh_caches h' j = []" if "j \<ge> 9" for j using assms(1,2) that by (simp add: kh_inv_def assms(7))
  moreover have "slab_good h' A' U j t" if "t \<in> set (kh_caches h' j)" for j t
    using that assms(5,6) unfolding c by (auto split: if_splits)
  ultimately show ?thesis using assms(3,4) dis U unfolding kh_inv_def by blast
qed

lemma kh_inv_create:
  assumes "kh_inv h A U" and "i < 9" and "slab_create i h = (h1, Some s)"
  defines "h' \<equiv> h1\<lparr>kh_caches := (kh_caches h1)(i := s # kh_caches h1 i)\<rparr>"
  shows "\<exists>p. kh_inv h' (insert (p, 0) A) U" and "sl_free_count (kh_slab h' s) > 0"
    and "virt_to_page a \<notin> free_set (kh_zone h) \<Longrightarrow> kh_mem h' a = kh_mem h a"
proof -
  let ?sz = "SLAB_SIZES ! i"
  obtain z p m sl where pa: "page_alloc 0 24 (kh_zone h) = (z, Some p)" and s: "s = page_to_virt p"
    and h1: "h1 = h\<lparr>kh_zone := z, kh_private := (kh_private h)(p := s), kh_mem := m, kh_slab := (kh_slab h)(s := sl)\<rparr>"
    and sl: "sl_page sl = p" "sl_free_count sl > 0"
    and new: "U \<inter> objs s ?sz = {} \<Longrightarrow> slab_ok m sl s ?sz U" and fr: "\<And>a. a \<notin> page_cells s \<Longrightarrow> m a = kh_mem h a"
    by (rule slab_create_parts [OF assms(1-3)]) blast
  note np = heap_page_alloc [OF assms(1) pa slab_plain_flags(1)]
  note pv = page_to_virt_addr [OF np(5)]
  show "sl_free_count (kh_slab h' s) > 0" using sl(2) by (simp add: h'_def h1)
  show "kh_mem h' a = kh_mem h a" if "virt_to_page a \<notin> free_set (kh_zone h)"
    using that fr [of a] pv(3) [of a] np(6) s by (auto simp: h'_def h1)
  have other: "t \<noteq> s \<and> page_cells t \<inter> page_cells s = {}" if "t \<in> set (kh_caches h j)" for t j
  proof -
    have g: "slab_good h A U j t" by (rule kh_inv_slab(2) [OF assms(1) that])
    have e: "t = page_to_virt (sl_page (kh_slab h t))" "sl_page (kh_slab h t) < 0x3FFFF"
      using slab_goodD(1,4) [OF g] .
    have d: "page_cells (page_to_virt (sl_page (kh_slab h t))) \<inter> page_cells (page_to_virt p) = {}"
      using page_cells_disjoint [OF e(2) np(5)] np(7) [OF that] by blast
    have "t \<in> page_cells t" by (simp add: page_cells_def)
    then show ?thesis using d unfolding e(1) [symmetric] s by (metis Int_iff empty_iff)
  qed
  have "x \<notin> page_cells s" if x: "x \<in> U" for x
  proof -
    obtain j t where t: "t \<in> set (kh_caches h j)" "x \<in> objs t (SLAB_SIZES ! j)"
      by (rule kh_inv_used [OF assms(1) x])
    then have "x \<in> page_cells t" using kh_inv_slab(5) [OF assms(1)] by blast
    then show ?thesis using other [OF t(1)] by blast
  qed
  moreover have "objs s ?sz \<subseteq> page_cells s"
    using pv(2) slab_sizes_bounds [OF assms(2)] unfolding s by (intro objs_page_cells) simp_all
  ultimately have new: "slab_ok m sl s ?sz U" by (intro new) blast
  have "t \<noteq> s \<and> slab_good h' (insert (p, 0) A) U j t" if t: "t \<in> set (kh_caches h j)" for j t
  proof -
    note kt = kh_inv_slab [OF assms(1) t]
    have "slab_ok m (kh_slab h t) t (SLAB_SIZES ! j) U"
      using fr other [OF t] by (intro slab_ok_frame [OF slab_goodD(6) [OF kt(2)] kt(3,4)]) blast+
    then show ?thesis
      using other [OF t] slab_goodD(2) [OF kt(2)] np(7) [OF t]
      by (intro conjI slab_good_upd [OF kt(2)]) (simp_all add: h'_def h1)
  qed
  moreover have "slab_good h' (insert (p, 0) A) U i s"
    using new np(4,5) sl(1) unfolding slab_good_def Let_def by (simp add: h'_def h1 s)
  ultimately have "kh_inv h' (insert (p, 0) A) U"
    using np(1,3) assms(1) by (intro kh_inv_add_slab [OF assms(1,2)]) (simp_all add: h'_def h1 kh_inv_def)
  then show "\<exists>p. kh_inv h' (insert (p, 0) A) U" by blast
qed

subsection \<open>Allocation\<close>

text \<open>An address where cache \<open>i\<close> has an object.\<close>

definition obj_at :: "kheap \<Rightarrow> nat \<Rightarrow> addr \<Rightarrow> bool" where
  "obj_at h i x \<longleftrightarrow> (\<exists>s\<in>set (kh_caches h i). x \<in> objs s (SLAB_SIZES ! i))"

lemma kh_inv_objs_disjoint:
  assumes "kh_inv h A U" and "obj_at h i x" and "obj_at h j y" and "x \<noteq> y"
  shows "unat x + unat (SLAB_SIZES ! i) \<le> unat y \<or> unat y + unat (SLAB_SIZES ! j) \<le> unat x"
proof -
  obtain s where s: "s \<in> set (kh_caches h i)" "x \<in> objs s (SLAB_SIZES ! i)" using assms(2) by (auto simp: obj_at_def)
  obtain t where t: "t \<in> set (kh_caches h j)" "y \<in> objs t (SLAB_SIZES ! j)" using assms(3) by (auto simp: obj_at_def)
  note ks = kh_inv_slab [OF assms(1) s(1)] and kt = kh_inv_slab [OF assms(1) t(1)]
  show ?thesis
  proof (cases "s = t")
    case True
    then have "i = j" using kh_inv_unique [OF assms(1) s(1)] t(1) by blast
    then show ?thesis using objs_disjoint [OF ks(3,4) s(2)] t(2) True assms(4) by simp
  next
    case False
    note bx = objs_bounds(1,2) [OF ks(3,4) s(2)] and b_y = objs_bounds(1,2) [OF kt(3,4) t(2)]
    have "s \<notin> page_cells t" "t \<notin> page_cells s"
      using slab_pages_differ [OF assms(1) s(1) t(1) False] by (auto simp: page_cells_def)
    then have "unat s + 4096 \<le> unat t \<or> unat t + 4096 \<le> unat s" by (auto simp: page_cells_def)
    then show ?thesis using bx b_y by linarith
  qed
qed

lemma slab_create_none:
  assumes "kh_inv h A U" and "slab_create i h = (h1, None)"
  shows "h1 = h" and "\<forall>k. free_list (kh_zone h) k = []"
proof -
  obtain z where pa: "page_alloc 0 24 (kh_zone h) = (z, None)" "h1 = h\<lparr>kh_zone := z\<rparr>"
    using assms(2) by (auto simp: slab_create_def Let_def split: prod.splits option.splits)
  have "z = kh_zone h" "\<forall>k\<ge>0. free_list (kh_zone h) k = []"
    using page_alloc_spec [of "kh_zone h" A 24 0] assms(1) pa(1) by (simp_all add: kh_inv_def page_owned_def)
  then show "h1 = h" "\<forall>k. free_list (kh_zone h) k = []" using pa(2) by simp_all
qed

definition slab_alloc_fails :: "u32 \<Rightarrow> kheap \<Rightarrow> bool" where
  "slab_alloc_fails sz h \<longleftrightarrow> sz = 0 \<or> SLAB_MAX_SIZE < sz
     \<or> (\<forall>k. free_list (kh_zone h) k = [])
       \<and> (\<forall>s\<in>set (kh_caches h (nat (get_cache_index sz))). sl_free_count (kh_slab h s) = 0)"

lemma slab_alloc_spec:
  assumes "kh_inv h A U" and "slab_alloc sz h = (h', x)"
  shows "if slab_alloc_fails sz h then x = 0 \<and> h' = h
    else (\<exists>A' i. A \<subseteq> A' \<and> kh_inv h' A' (insert x U) \<and> x \<notin> U \<and> x \<noteq> 0 \<and> obj_at h' i x
      \<and> sz \<le> SLAB_SIZES ! i \<and> (\<forall>j<i. SLAB_SIZES ! j < sz)
      \<and> (\<forall>a. virt_to_page a \<notin> free_set (kh_zone h) \<longrightarrow> kh_mem h' a = kh_mem h a))"
proof (cases "sz = 0 \<or> SLAB_MAX_SIZE < sz")
  case True
  then have "sz = 0 \<or> get_cache_index sz < 0" using get_cache_index_iff [of sz] by (metis not_le)
  then have "slab_alloc sz h = (h, 0)" by (auto simp: slab_alloc_def Let_def)
  moreover have "slab_alloc_fails sz h" using True unfolding slab_alloc_fails_def by blast
  ultimately show ?thesis using assms(2) by simp
next
  case ok: False
  let ?i = "nat (get_cache_index sz)"
  have ci: "0 \<le> get_cache_index sz" using ok get_cache_index_iff [of sz] by (metis not_le)
  note idx = get_cache_index_cases [OF ci]
  have fin: ?thesis if h1: "kh_inv h1 A' U" and A: "A \<subseteq> A'" and s: "s \<in> set (kh_caches h1 ?i)"
    and fc: "sl_free_count (kh_slab h1 s) > 0" and p: "slab_pop s h1 = (h', x)" and nf: "\<not> slab_alloc_fails sz h"
    and m: "\<And>a. virt_to_page a \<notin> free_set (kh_zone h) \<Longrightarrow> kh_mem h1 a = kh_mem h a" for h1 A' s
  proof -
    note pop = kh_inv_pop [OF h1 s fc p]
    have "obj_at h' ?i x" using pop s by (auto simp: obj_at_def)
    moreover have "x \<noteq> 0" using objs_bounds(3) [OF kh_inv_slab(3,4) [OF h1 s]] pop(1) by blast
    moreover have "kh_mem h' = kh_mem h1" using p by (auto simp: slab_pop_def Let_def)
    moreover have "x \<notin> U" "kh_inv h' A' (insert x U)" using pop by blast+
    ultimately show ?thesis using nf A idx m by (simp only: if_False) (intro exI [of _ A'] exI [of _ ?i], simp)
  qed
  show ?thesis
  proof (cases "find (\<lambda>s. sl_free_count (kh_slab h s) > 0) (kh_caches h ?i)")
    case (Some s)
    then have s: "s \<in> set (kh_caches h ?i)" "sl_free_count (kh_slab h s) > 0"
      by (auto simp: find_Some_iff)
    have "slab_pop s h = (h', x)" using assms(2) ok ci Some by (simp add: slab_alloc_def Let_def)
    moreover have "\<not> slab_alloc_fails sz h" using ok s by (auto simp: slab_alloc_fails_def)
    ultimately show ?thesis using fin [OF assms(1) subset_refl s] by blast
  next
    case None
    then have full: "\<forall>s\<in>set (kh_caches h ?i). sl_free_count (kh_slab h s) = 0"
      by (auto simp: find_None_iff word_gt_0)
    obtain h1 r where cr: "slab_create ?i h = (h1, r)" by fastforce
    show ?thesis
    proof (cases r)
      case rn: None
      have "slab_alloc_fails sz h" using slab_create_none(2) [OF assms(1) cr [unfolded rn]] full by (simp add: slab_alloc_fails_def)
      moreover have "x = 0" "h' = h"
        using assms(2) ok ci None cr rn slab_create_none(1) [OF assms(1) cr [unfolded rn]]
        by (simp_all add: slab_alloc_def Let_def)
      ultimately show ?thesis by simp
    next
      case (Some s)
      note c = kh_inv_create [OF assms(1) conjunct1 [OF idx] cr [unfolded Some]]
      obtain p where inv: "kh_inv (h1\<lparr>kh_caches := (kh_caches h1)(?i := s # kh_caches h1 ?i)\<rparr>) (insert (p, 0) A) U"
        using c(1) by blast
      obtain z q where "page_alloc 0 24 (kh_zone h) = (z, Some q)"
        using slab_create_parts [OF assms(1) conjunct1 [OF idx] cr [unfolded Some]] by metis
      from heap_page_alloc(6) [OF assms(1) this slab_plain_flags(1)] have "\<exists>k. free_list (kh_zone h) k \<noteq> []"
        by (auto simp: free_set_def free_blocks_def dest: length_pos_if_in_set)
      then have "\<not> slab_alloc_fails sz h" using ok by (auto simp: slab_alloc_fails_def)
      moreover have "slab_pop s (h1\<lparr>kh_caches := (kh_caches h1)(?i := s # kh_caches h1 ?i)\<rparr>) = (h', x)"
        using assms(2) ok ci None cr Some by (simp add: slab_alloc_def Let_def)
      ultimately show ?thesis by (intro fin [OF inv _ _ c(2)]) (use c(3) in auto)
    qed
  qed
qed

subsection \<open>Release\<close>

lemma card_objs: "page_addr s \<Longrightarrow> 0 < unat sz \<Longrightarrow> card (objs s sz) = nobj sz"
  unfolding objs_def
  by (subst card_image) (auto intro!: inj_onI dest!: arg_cong [where f = unat] simp: obj_unat)

text \<open>A slab whose counters agree has no object in use.\<close>

lemma slab_ok_unused:
  assumes "slab_ok m sl s sz U" and "sl_free_count sl = sl_total sl" and "page_addr s" and "4 \<le> unat sz"
  shows "U \<inter> objs s sz = {}"
proof -
  obtain fl where fl: "distinct fl" "set fl = objs s sz - U" "sl_free_count sl = of_nat (length fl)"
      "sl_total sl = of_nat (nobj sz)"
    using assms(1) by (auto simp: slab_ok_def)
  have fin: "finite (objs s sz)" by (simp add: objs_def)
  have c: "card (objs s sz) = nobj sz" using card_objs [OF assms(3)] assms(4) by simp
  have "length fl = card (objs s sz - U)" using fl(1,2) distinct_card by metis
  moreover have le: "card (objs s sz - U) \<le> nobj sz" unfolding c [symmetric] by (rule card_mono [OF fin]) blast
  moreover have "nobj sz \<le> 4068" by (simp add: nobj_def div_le_dividend)
  moreover have "(of_nat (length fl) :: u32) = of_nat (nobj sz)" using assms(2) fl(3,4) by simp
  ultimately have "card (objs s sz - U) = card (objs s sz)"
    unfolding c by (auto dest!: arg_cong [where f = unat] simp: unsigned_of_nat take_bit_nat_eq_self)
  then have "objs s sz - U = objs s sz" using fin by (intro card_subset_eq) auto
  then show ?thesis by blast
qed

lemma kh_inv_destroy:
  assumes "kh_inv h A U" and "s \<in> set (kh_caches h i)" and "U \<inter> objs s (SLAB_SIZES ! i) = {}"
  shows "kh_inv (slab_destroy s (h\<lparr>kh_caches := (\<lambda>i. remove1 s (kh_caches h i))\<rparr>))
    (A - {(sl_page (kh_slab h s), 0)}) U"
proof -
  let ?p = "sl_page (kh_slab h s)" and ?z = "fst (page_free (Some (sl_page (kh_slab h s))) (kh_zone h))"
  let ?h = "slab_destroy s (h\<lparr>kh_caches := (\<lambda>i. remove1 s (kh_caches h i))\<rparr>)"
  have h: "?h = h\<lparr>kh_zone := ?z, kh_caches := (\<lambda>i. remove1 s (kh_caches h i))\<rparr>" by (simp add: slab_destroy_def)
  have dist: "distinct (kh_caches h j)" for j using assms(1) by (simp add: kh_inv_def)
  have set: "set (kh_caches ?h j) = set (kh_caches h j) - {s}" for j using dist by (simp add: h)
  have own: "page_owned (kh_zone h) A" using assms(1) by (simp add: kh_inv_def)
  have p: "(?p, 0) \<in> A" using slab_goodD(2) [OF kh_inv_slab(2) [OF assms(1,2)]] .
  have own': "page_owned ?z (A - {(?p, 0)})" using slab_pages.put_back [OF own p] by (simp add: put_block_def)
  have good: "slab_good ?h (A - {(?p, 0)}) U j t" if "t \<in> set (kh_caches h j)" "t \<noteq> s" for j t
  proof -
    note kt = kh_inv_slab [OF assms(1) that(1)]
    let ?q = "sl_page (kh_slab h t)"
    have q: "(?q, 0) \<in> A" by (rule slab_goodD(2) [OF kt(2)])
    have ne: "?q \<noteq> ?p"
      using slab_goodD(1) [OF kt(2)] slab_goodD(1) [OF kh_inv_slab(2) [OF assms(1,2)]] that(2) by metis
    have zi: "zone_inv (kh_zone h) A" using own by (simp add: page_owned_def)
    then have "?q \<notin> free_set (kh_zone h)" using q by (rule allocated_not_free)
    moreover have "?q \<notin> blk (?p, 0)" using ne by (simp add: blk_def)
    ultimately have "pages ?z ?q = pages (kh_zone h) ?q" by (rule page_free_frame [OF zi p])
    then show ?thesis
      using slab_goodD(6) [OF kt(2)] q ne by (intro slab_good_upd [OF kt(2)]) (simp_all add: h)
  qed
  have "y \<in> (\<Union>j. \<Union>t\<in>set (kh_caches ?h j). objs t (SLAB_SIZES ! j))" if y: "y \<in> U" for y
  proof -
    obtain j t where t: "t \<in> set (kh_caches h j)" "y \<in> objs t (SLAB_SIZES ! j)"
      by (rule kh_inv_used [OF assms(1) y])
    have "t \<noteq> s" using t assms(3) y kh_inv_unique [OF assms(1,2)] by blast
    then show ?thesis using t set by blast
  qed
  then have U: "U \<subseteq> (\<Union>j. \<Union>t\<in>set (kh_caches ?h j). objs t (SLAB_SIZES ! j))" by blast
  show ?thesis
    unfolding kh_inv_def
  proof (intro conjI allI impI ballI U)
    show "max_pfn_mapped (kh_zone ?h) \<le> 0x3FFFF" using assms(1) by (simp add: h page_free_max kh_inv_def)
    show "set (kh_caches ?h j) \<inter> set (kh_caches ?h k) = {}" if "j \<noteq> k" for j k
      using kh_inv_unique [OF assms(1)] that unfolding set by blast
    show "slab_good ?h (A - {(?p, 0)}) U j t" if "t \<in> set (kh_caches ?h j)" for j t
      using that good unfolding set by blast
    show "kh_caches ?h j = []" if "9 \<le> j" for j using assms(1) that by (simp add: h kh_inv_def)
  qed (use own' dist in \<open>simp_all add: h\<close>)
qed

lemma slab_free_spec:
  assumes "kh_inv h A U" and "x \<in> U"
  shows "\<exists>h' A'. slab_free x h = Some h' \<and> A' \<subseteq> A \<and> kh_inv h' A' (U - {x})
    \<and> (\<forall>a. a \<notin> cells x 4 \<longrightarrow> kh_mem h' a = kh_mem h a)"
proof -
  obtain i s where s: "s \<in> set (kh_caches h i)" and x: "x \<in> objs s (SLAB_SIZES ! i)"
    by (rule kh_inv_used [OF assms])
  note ks = kh_inv_slab [OF assms(1) s]
  note g = slab_goodD [OF ks(2)]
  let ?sl = "kh_slab h s" and ?p = "sl_page (kh_slab h s)" and ?sz = "SLAB_SIZES ! i"
  let ?m = "store32 (kh_mem h) x (sl_free_list ?sl)"
  let ?sl' = "?sl\<lparr>sl_free_list := x, sl_free_count := sl_free_count ?sl + 1\<rparr>"
  let ?h1 = "h\<lparr>kh_mem := ?m, kh_slab := (kh_slab h)(s := ?sl')\<rparr>"
  let ?h2 = "slab_destroy s (?h1\<lparr>kh_caches := (\<lambda>i. remove1 s (kh_caches ?h1 i))\<rparr>)"
  have xp: "x \<in> page_cells s" using x ks(5) by blast
  have p: "virt_to_page x = ?p" using page_to_virt_addr(3) [OF g(4)] xp unfolding g(1) [symmetric] by blast
  have "(24 :: u16) AND PG_SLAB \<noteq> 0" by (simp add: PG_SLAB_def)
  moreover have "x \<noteq> 0" by (rule objs_bounds(3) [OF ks(3,4) x])
  moreover have "s \<noteq> 0" using ks(3) by (simp add: page_addr_def)
  ultimately have f: "slab_free x h = (if sl_free_count ?sl + 1 = sl_total ?sl
      then Some ?h2 else Some ?h1)"
    by (simp add: slab_free_def Let_def p g(3,5))
  have ok: "slab_ok ?m ?sl' s ?sz (U - {x})" by (rule slab_ok_push [OF g(6) assms(2) x ks(3,4)])
  have mem: "?m a = kh_mem h a" if "a \<notin> cells x 4" for a using that by (simp add: store32_outside)
  have "?m a = kh_mem h a" if "a \<notin> page_cells s" for a
    using mem that objs_bounds(4) [OF ks(3,4) x] by blast
  then have inv: "kh_inv ?h1 A (U - {x})"
    using ok x by (intro kh_inv_update [OF assms(1) s, where m = ?m and sl = ?sl']) auto
  show ?thesis
  proof (cases "sl_free_count ?sl + 1 = sl_total ?sl")
    case True
    have "(U - {x}) \<inter> objs s ?sz = {}" using ok True by (intro slab_ok_unused [OF ok _ ks(3,4)]) simp
    from kh_inv_destroy [OF inv _ this] s
    have "kh_inv ?h2 (A - {(?p, 0)}) (U - {x})"
      by simp
    moreover have "slab_free x h = Some ?h2"
      unfolding f using True by (rule if_P)
    moreover have "kh_mem ?h2 = ?m"
      by (simp add: slab_destroy_def)
    ultimately show ?thesis using mem by (intro exI [of _ ?h2] exI [of _ "A - {(?p, 0)}"]) simp
  next
    case False
    then have "slab_free x h = Some ?h1" unfolding f by (rule if_not_P)
    then show ?thesis using inv mem by (intro exI [of _ ?h1] exI [of _ A]) simp
  qed
qed

subsection \<open>Large requests\<close>

lemma kh_inv_zone:
  assumes "kh_inv h A U" and "page_alloc k flags (kh_zone h) = (z, Some p)" and "plain_flags flags"
  shows "kh_inv (h\<lparr>kh_zone := z\<rparr>) (insert (p, k) A) U"
proof -
  note np = heap_page_alloc [OF assms]
  have "slab_good (h\<lparr>kh_zone := z\<rparr>) (insert (p, k) A) U j t" if t: "t \<in> set (kh_caches h j)" for j t
  proof -
    note g = kh_inv_slab(2) [OF assms(1) t]
    show ?thesis
      using slab_goodD(2,6) [OF g] np(7) [OF t] by (intro slab_good_upd [OF g]) simp_all
  qed
  then show ?thesis using assms(1) np(1,3) unfolding kh_inv_def by simp
qed

lemma page_count:
  assumes "sz \<le> 0xFFFFF000"
  shows "unat (ALIGN_UP sz 0x1000 div 0x1000 :: u32) = (unat sz + 4095) div 4096"
proof -
  have b: "unat sz + 4095 < 4294967296" using assms by (simp add: word_le_nat_alt)
  have e: "unat sz + 4096 - 1 = unat sz + 4095" "(2::u32) ^ 12 = 0x1000" "(2::nat) ^ 12 = 4096" by simp_all
  have "unat (ALIGN_UP sz (2 ^ 12)) = (unat sz + 2 ^ 12 - 1) - (unat sz + 2 ^ 12 - 1) mod 2 ^ 12"
    using b by (intro unat_ALIGN_UP) simp_all
  then have "unat (ALIGN_UP sz 0x1000) = (unat sz + 4095) - (unat sz + 4095) mod 4096" unfolding e .
  also have "(unat sz + 4095) - (unat sz + 4095) mod 4096 = (unat sz + 4095) div 4096 * 4096" by (rule minus_mod_eq_div_mult)
  finally show ?thesis by (simp add: unat_div)
qed

lemma page_count_wrap:
  assumes "sz > 0xFFFFF000"
  shows "ALIGN_UP sz 0x1000 = (0 :: u32)"
proof -
  have lt: "unat sz < 4294967296" by (rule unat_32_bound)
  have b: "0xFFFFF000 < unat sz" using assms by (simp add: word_less_nat_alt)
  have "unat (sz + 0xFFF) = (unat sz + 4095) mod 4294967296" by (simp add: unat_word_ariths)
  also have "\<dots> = unat sz + 4095 - 4294967296"
    using b lt by (subst le_mod_geq) (linarith, intro mod_less, linarith)
  finally have "unat (sz + 0xFFF) < 4096" using lt by linarith
  then have "unat ((sz + 0xFFF) AND NOT (mask 12)) = 0" unfolding unat_and_not_mask by simp
  then have "(sz + 0xFFF) AND NOT (mask 12) = 0" by (simp only: unat_eq_zero)
  moreover have "sz + 0x1000 - 1 = sz + 0xFFF" "(0x1000 - 1 :: u32) = mask 12" by (simp_all add: mask_eq_exp_minus_1)
  ultimately show ?thesis by (simp only: ALIGN_UP_def)
qed

lemma order_pages:
  assumes "sz \<le> 0xFFFFF000" and "0 < unat sz"
  defines "k \<equiv> order_for_pages (ALIGN_UP sz 0x1000 div 0x1000)"
  shows "unat sz \<le> 4096 * 2 ^ k" and "j < k \<Longrightarrow> 4096 * 2 ^ j < unat sz"
proof -
  have le: "(unat sz + 4095) div 4096 \<le> 2 ^ m \<longleftrightarrow> unat sz \<le> 4096 * 2 ^ m" for m
    by (rule iffI) linarith+
  show "unat sz \<le> 4096 * 2 ^ k" "j < k \<Longrightarrow> 4096 * 2 ^ j < unat sz"
    using order_for_pages_spec [of "ALIGN_UP sz 0x1000 div 0x1000"] le [of k] le [of j]
    unfolding page_count [OF assms(1)] k_def [symmetric] by auto
qed

lemma kmalloc_pages:
  assumes "kh_inv h A U" and "SLAB_MAX_SIZE < sz" and "sz \<le> 0xFFFFF000"
  shows "case kmalloc sz h of (h', x) \<Rightarrow>
      if x = 0 then h' = h \<and> (\<forall>k. unat sz \<le> 4096 * 2 ^ k \<longrightarrow> free_list (kh_zone h) k = [])
      else \<exists>p k. x = page_to_virt p \<and> (p, k) \<notin> A \<and> kh_inv h' (insert (p, k) A) U
        \<and> unat sz \<le> 4096 * 2 ^ k \<and> (\<forall>j<k. 4096 * 2 ^ j < unat sz)"
proof -
  let ?k = "order_for_pages (ALIGN_UP sz 0x1000 div 0x1000)"
  have pos: "0 < unat sz" "sz \<noteq> 0" using assms(2) by (auto simp: word_less_nat_alt)
  note ord = order_pages [OF assms(3) pos(1)]
  obtain z r where pa: "page_alloc ?k PG_KERNEL (kh_zone h) = (z, r)" by fastforce
  show ?thesis
  proof (cases r)
    case None
    have "z = kh_zone h" "\<forall>k\<ge>?k. free_list (kh_zone h) k = []"
      using page_alloc_spec [of "kh_zone h" A PG_KERNEL ?k] assms(1) pa None
      by (simp_all add: kh_inv_def page_owned_def)
    moreover have "?k \<le> k" if "unat sz \<le> 4096 * 2 ^ k" for k using ord(2) [of k] that by linarith
    moreover have "kmalloc sz h = (h\<lparr>kh_zone := z\<rparr>, 0)" using assms(2) pos(2) pa None by (simp add: kmalloc_def Let_def)
    ultimately show ?thesis by simp
  next
    case (Some p)
    note np = heap_page_alloc [OF assms(1) pa [unfolded Some] slab_plain_flags(2)]
    have "page_to_virt p \<noteq> 0" using page_to_virt_addr(2) [OF np(5)] by (simp add: page_addr_def)
    moreover have "kmalloc sz h = (h\<lparr>kh_zone := z\<rparr>, page_to_virt p)"
      using assms(2) pos(2) pa Some by (simp add: kmalloc_def Let_def)
    moreover have "kh_inv (h\<lparr>kh_zone := z\<rparr>) (insert (p, ?k) A) U"
      by (rule kh_inv_zone [OF assms(1) pa [unfolded Some] slab_plain_flags(2)])
    ultimately show ?thesis using np(2) ord by simp (rule exI [of _ p], rule conjI [OF refl], rule exI [of _ ?k], simp)
  qed
qed

lemma kmalloc_wrap:
  assumes "0xFFFFF000 < sz"
  shows "kmalloc sz h = kmalloc 4096 h"
proof -
  have "sz \<noteq> 0" "SLAB_MAX_SIZE < sz" using assms by (auto simp: SLAB_MAX_SIZE_def elim: order.strict_trans [rotated])
  moreover have "ALIGN_UP 0x1000 0x1000 = (0x1000 :: u32)" by (simp add: ALIGN_UP_def)
  ultimately show ?thesis
    by (simp add: kmalloc_def page_count_wrap [OF assms] SLAB_MAX_SIZE_def order_for_pages_def)
qed

subsection \<open>Correctness of the kernel heap\<close>

text \<open>A heap with no slab yet, on a zone of 1024 free frames.\<close>

definition empty_heap :: kheap where
  "empty_heap = \<lparr>kh_zone = fresh_zone, kh_private = (\<lambda>_. 0),
     kh_slab = (\<lambda>_. \<lparr>sl_start = 0, sl_free_list = 0, sl_free_count = 0, sl_total = 0, sl_page = 0\<rparr>),
     kh_mem = (\<lambda>_. 0), kh_caches = (\<lambda>_. [])\<rparr>"

lemma empty_heap_inv: "kh_inv empty_heap {} {}"
  using fresh_zone_ok by (simp add: kh_inv_def empty_heap_def page_owned_def fresh_zone_fields)

text \<open>
  C12. Small requests: \<open>slab_alloc\<close> fails exactly for size 0, for sizes above 2048, and when the
  cache has no free object and the page allocator no free block, and then changes nothing.
  Otherwise the address it returns is an object of the smallest class that fits, was not in use,
  overlaps no object in use, the heap invariant holds with it in use, and no byte outside free
  pages has changed.
\<close>

theorem slab_alloc_correct:
  assumes "kh_inv h A U" and "slab_alloc sz h = (h', x)"
  shows "if slab_alloc_fails sz h then x = 0 \<and> h' = h
    else (\<exists>A' i. A \<subseteq> A' \<and> kh_inv h' A' (insert x U) \<and> x \<notin> U \<and> x \<noteq> 0 \<and> obj_at h' i x
      \<and> sz \<le> SLAB_SIZES ! i \<and> (\<forall>j<i. SLAB_SIZES ! j < sz)
      \<and> (\<forall>y\<in>U. \<forall>j. obj_at h' j y \<longrightarrow>
            unat x + unat (SLAB_SIZES ! i) \<le> unat y \<or> unat y + unat (SLAB_SIZES ! j) \<le> unat x)
      \<and> (\<forall>a. virt_to_page a \<notin> free_set (kh_zone h) \<longrightarrow> kh_mem h' a = kh_mem h a))"
proof (cases "slab_alloc_fails sz h")
  case True
  then show ?thesis using slab_alloc_spec [OF assms] by simp
next
  case False
  then obtain A' i where r: "A \<subseteq> A'" "kh_inv h' A' (insert x U)" "x \<notin> U" "x \<noteq> 0" "obj_at h' i x"
      "sz \<le> SLAB_SIZES ! i" "\<forall>j<i. SLAB_SIZES ! j < sz"
      "\<forall>a. virt_to_page a \<notin> free_set (kh_zone h) \<longrightarrow> kh_mem h' a = kh_mem h a"
    using slab_alloc_spec [OF assms] by auto
  have "unat x + unat (SLAB_SIZES ! i) \<le> unat y \<or> unat y + unat (SLAB_SIZES ! j) \<le> unat x"
    if "y \<in> U" "obj_at h' j y" for y j
    using kh_inv_objs_disjoint [OF r(2,5) that(2)] that(1) r(3) by blast
  then show ?thesis using False r by (simp only: if_False) (intro exI [of _ A'] exI [of _ i], simp)
qed

theorem slab_alloc_correct_witness:
  "\<exists>h' x A' i. slab_alloc 100 empty_heap = (h', x) \<and> kh_inv h' A' {x} \<and> x \<noteq> 0 \<and> obj_at h' i x
     \<and> 100 \<le> SLAB_SIZES ! i"
proof -
  obtain h' x where e: "slab_alloc 100 empty_heap = (h', x)" by fastforce
  have "free_list fresh_zone 10 \<noteq> []" by (simp add: fresh_zone_def)
  then have "\<not> slab_alloc_fails 100 empty_heap"
    by (auto simp: slab_alloc_fails_def empty_heap_def SLAB_MAX_SIZE_def)
  then show ?thesis using slab_alloc_correct [OF empty_heap_inv e] e by auto
qed



text \<open>
  C14. Large requests: for a size above 2048 and at most 0xFFFFF000 the block \<open>kmalloc\<close> returns
  is new, holds the request and has the least order that does; it fails only when no block of
  that order or above is free. A larger request wraps around to 0 pages and is answered with the
  single page of a request for 4096 bytes.
\<close>

theorem kmalloc_large:
  assumes "kh_inv h A U" and "SLAB_MAX_SIZE < sz"
  shows "if sz \<le> 0xFFFFF000 then
      (case kmalloc sz h of (h', x) \<Rightarrow>
        if x = 0 then h' = h \<and> (\<forall>k. unat sz \<le> 4096 * 2 ^ k \<longrightarrow> free_list (kh_zone h) k = [])
        else \<exists>p k. x = page_to_virt p \<and> (p, k) \<notin> A \<and> kh_inv h' (insert (p, k) A) U
          \<and> unat sz \<le> 4096 * 2 ^ k \<and> (\<forall>j<k. 4096 * 2 ^ j < unat sz))
    else kmalloc sz h = kmalloc 4096 h"
proof (cases "sz \<le> 0xFFFFF000")
  case True
  then show ?thesis using kmalloc_pages [OF assms(1,2) True] by simp
next
  case False
  then show ?thesis using kmalloc_wrap [of sz h] by simp
qed

theorem kmalloc_large_witness:
  "(\<exists>h' p k. kmalloc 5000 empty_heap = (h', page_to_virt p) \<and> kh_inv h' {(p, k)} {} \<and> 5000 \<le> (4096 * 2 ^ k :: nat))
   \<and> kmalloc 0xFFFFFFFF empty_heap = kmalloc 4096 empty_heap"
proof -
  have l: "SLAB_MAX_SIZE < 5000" "SLAB_MAX_SIZE < 0xFFFFFFFF" by (simp_all add: SLAB_MAX_SIZE_def)
  have "free_list (kh_zone empty_heap) 10 \<noteq> []" by (simp add: fresh_zone_def empty_heap_def)
  then have "\<not> (\<forall>k. (5000::nat) \<le> 4096 * 2 ^ k \<longrightarrow> free_list (kh_zone empty_heap) k = [])"
    by (auto intro: exI [of _ 10])
  then show ?thesis
    using kmalloc_large [OF empty_heap_inv l(1)] kmalloc_large [OF empty_heap_inv l(2)]
    by (auto split: prod.splits if_splits)
qed

text \<open>
  \<open>kcalloc\<close>: when it returns an address, the product of its arguments has not wrapped and
  all its bytes are zero.
\<close>

theorem kcalloc_zeroed:
  assumes "kcalloc nmemb sz h = (h', x)" and "x \<noteq> 0"
  shows "unat nmemb * unat sz < 4294967296
    \<and> bytes (kh_mem h') x (unat nmemb * unat sz) = replicate (unat nmemb * unat sz) 0"
proof -
  have "unat nmemb * unat sz \<le> 0xFFFFFFFF"
  proof (cases "nmemb = 0")
    case False
    then have "sz \<le> 0xFFFFFFFF div nmemb" using assms by (auto simp: kcalloc_def not_le split: if_splits)
    then have "unat sz \<le> 0xFFFFFFFF div unat nmemb" by (simp add: word_le_nat_alt unat_div)
    moreover have "0 < unat nmemb" using False by (simp add: unat_gt_0)
    ultimately show ?thesis by (simp add: less_eq_div_iff_mult_less_eq mult.commute)
  qed simp
  then have lt: "unat nmemb * unat sz < 4294967296" by simp
  then have u: "unat (nmemb * sz) = unat nmemb * unat sz" by (simp add: unat_word_ariths)
  obtain h1 where "kmalloc (nmemb * sz) h = (h1, x)" "h' = h1\<lparr>kh_mem := memset (kh_mem h1) x 0 (nmemb * sz)\<rparr>"
    using assms by (auto simp: kcalloc_def Let_def split: if_splits prod.splits)
  then show ?thesis using lt memset_bytes [of "kh_mem h1" x 0 "nmemb * sz"] u by simp
qed

theorem kcalloc_zeroed_witness:
  "\<exists>h' x. kcalloc 10 500 empty_heap = (h', x) \<and> x \<noteq> 0 \<and> bytes (kh_mem h') x 5000 = replicate 5000 0"
proof -
  have l: "SLAB_MAX_SIZE < 5000" by (simp add: SLAB_MAX_SIZE_def)
  have "free_list (kh_zone empty_heap) 10 \<noteq> []" by (simp add: fresh_zone_def empty_heap_def)
  then have "\<not> (\<forall>k. (5000::nat) \<le> 4096 * 2 ^ k \<longrightarrow> free_list (kh_zone empty_heap) k = [])"
    by (auto intro: exI [of _ 10])
  then have n: "snd (kmalloc 5000 empty_heap) \<noteq> 0"
    using kmalloc_pages [OF empty_heap_inv l] by (auto split: prod.splits if_splits)
  obtain h' x where e: "kcalloc 10 500 empty_heap = (h', x)" by fastforce
  then have "x \<noteq> 0" using n by (auto simp: kcalloc_def Let_def split: prod.splits if_splits)
  then show ?thesis using kcalloc_zeroed [OF e] e by simp
qed

end
