(* ===== verification/Wey_Vma.thy ===== *)
theory Wey_Vma
  imports Wey_Config Wey_Prelude Wey_Errno
begin

text \<open>
  The memory regions of an address space, \<open>memory/vmm/vma.c\<close> and \<open>include/mm/vma.h\<close>: a list of
  page-aligned, disjoint regions in the order of their addresses, each possibly backed by a file
  it holds a reference to. The pointer chain \<open>mm->vma\<close>, \<open>next\<close> is a list of region records.
  Whether \<open>kzalloc\<close> finds memory is decided by the kernel heap; here its answers are an argument,
  so the results hold for every pattern of failures. Page tables are values of a type variable,
  and \<open>mmu_clone_context\<close> is an argument of \<open>vma_dup\<close>.
\<close>

subsection \<open>Data\<close>

record vm_region =
  vr_start :: addr
  vr_end :: addr
  vr_mem_flags :: u32
  vr_prot_flags :: u32
  vr_file :: "nat option"
  vr_offset :: u64

record 'c mm_struct =
  mm_ctx :: "'c option"
  mm_vma :: "vm_region list"
  mm_brk_start :: addr
  mm_brk :: addr
  mm_refcount :: u32

text \<open>
  Reference counts of open files, and the files released when their last reference was dropped,
  in order. The release itself is an operation of the file system.
\<close>

record files =
  file_refs :: "nat \<Rightarrow> u32"
  file_released :: "nat list"

definition file_get :: "nat \<Rightarrow> files \<Rightarrow> files" where
  "file_get f fs = fs\<lparr>file_refs := (file_refs fs)(f := file_refs fs f + 1)\<rparr>"

definition file_put :: "nat \<Rightarrow> files \<Rightarrow> files" where
  "file_put f fs =
     (let fs' = fs\<lparr>file_refs := (file_refs fs)(f := file_refs fs f - 1)\<rparr>
      in if file_refs fs' f = 0 then fs'\<lparr>file_released := file_released fs' @ [f]\<rparr> else fs')"

abbreviation file_get_opt :: "nat option \<Rightarrow> files \<Rightarrow> files" where
  "file_get_opt fo fs \<equiv> (case fo of None \<Rightarrow> fs | Some f \<Rightarrow> file_get f fs)"

abbreviation file_put_opt :: "nat option \<Rightarrow> files \<Rightarrow> files" where
  "file_put_opt fo fs \<equiv> (case fo of None \<Rightarrow> fs | Some f \<Rightarrow> file_put f fs)"

subsection \<open>Operations\<close>

definition vma_alloc :: "bool \<Rightarrow> 'c mm_struct option" where
  "vma_alloc ok = (if ok then Some \<lparr>mm_ctx = None, mm_vma = [], mm_brk_start = 0, mm_brk = 0, mm_refcount = 1\<rparr>
     else None)"

text \<open>The search for the place of a new region: the regions before it and after it, or an overlap.\<close>

fun vma_place :: "addr \<Rightarrow> addr \<Rightarrow> vm_region list \<Rightarrow> (vm_region list \<times> vm_region list) option" where
  "vma_place s e [] = Some ([], [])"
| "vma_place s e (r # rs) =
     (if vr_start r < e then
        (if s < vr_end r \<and> e > vr_start r then None
         else case vma_place s e rs of None \<Rightarrow> None | Some (prev, next) \<Rightarrow> Some (r # prev, next))
      else Some ([], r # rs))"

definition vma_add :: "bool \<Rightarrow> addr \<Rightarrow> addr \<Rightarrow> u32 \<Rightarrow> u32 \<Rightarrow> nat option \<Rightarrow> u64 \<Rightarrow> 'c mm_struct option \<Rightarrow> files
    \<Rightarrow> 'c mm_struct option \<times> files \<times> (errno + vm_region)" where
  "vma_add ok start end mem_flags prot_flags file file_offset mm fs =
     (case mm of
        None \<Rightarrow> (None, fs, Inl EINVAL)
      | Some m \<Rightarrow>
          if start \<ge> end then (Some m, fs, Inl EINVAL)
          else
            let aligned_start = ALIGN_DOWN start 0x1000;
                aligned_end = ALIGN_UP end 0x1000;
                aligned_offset = (if file = None then file_offset else file_offset - ucast (start - aligned_start))
            in case vma_place aligned_start aligned_end (mm_vma m) of
                 None \<Rightarrow> (Some m, fs, Inl EINVAL)
               | Some (prev, next) \<Rightarrow>
                   if \<not> ok then (Some m, fs, Inl ENOMEM)
                   else let r = \<lparr>vr_start = aligned_start, vr_end = aligned_end, vr_mem_flags = mem_flags,
                                 vr_prot_flags = prot_flags, vr_file = file, vr_offset = aligned_offset\<rparr>
                        in (Some (m\<lparr>mm_vma := prev @ r # next\<rparr>), file_get_opt file fs, Inr r))"

fun vma_lookup_from :: "addr \<Rightarrow> vm_region list \<Rightarrow> vm_region option" where
  "vma_lookup_from a [] = None"
| "vma_lookup_from a (r # rs) =
     (if a \<ge> vr_start r then (if a < vr_end r then Some r else vma_lookup_from a rs) else None)"

definition vma_lookup :: "'c mm_struct \<Rightarrow> addr \<Rightarrow> vm_region option" where
  "vma_lookup m a = vma_lookup_from a (mm_vma m)"

fun vma_remove_from :: "addr \<Rightarrow> vm_region list \<Rightarrow> (vm_region \<times> vm_region list) option" where
  "vma_remove_from a [] = None"
| "vma_remove_from a (r # rs) =
     (if a \<ge> vr_start r \<and> a < vr_end r then Some (r, rs)
      else case vma_remove_from a rs of None \<Rightarrow> None | Some (x, rs') \<Rightarrow> Some (x, r # rs'))"

definition vma_remove :: "'c mm_struct \<Rightarrow> addr \<Rightarrow> files \<Rightarrow> 'c mm_struct \<times> files \<times> (errno + unit)" where
  "vma_remove m a fs =
     (case vma_remove_from a (mm_vma m) of
        None \<Rightarrow> (m, fs, Inl ENOENT)
      | Some (r, rs) \<Rightarrow> (m\<lparr>mm_vma := rs\<rparr>, file_put_opt (vr_file r) fs, Inr ()))"

definition vma_clean :: "'c mm_struct \<Rightarrow> files \<Rightarrow> 'c mm_struct \<times> files" where
  "vma_clean m fs = (m\<lparr>mm_vma := []\<rparr>, fold (\<lambda>r. file_put_opt (vr_file r)) (mm_vma m) fs)"

text \<open>Destroying an address space gives up its regions and hands its page tables back.\<close>

definition vma_destroy :: "'c mm_struct \<Rightarrow> files \<Rightarrow> files \<times> 'c option" where
  "vma_destroy m fs = (let (m', fs') = (if mm_vma m \<noteq> [] then vma_clean m fs else (m, fs)) in (fs', mm_ctx m'))"

text \<open>The copying loop of \<open>vma_dup\<close>; the \<open>n\<close>-th allocation succeeds when \<open>ok n\<close>.\<close>

fun vma_dup_loop :: "(nat \<Rightarrow> bool) \<Rightarrow> nat \<Rightarrow> vm_region list \<Rightarrow> 'c mm_struct \<Rightarrow> files \<Rightarrow> 'c mm_struct \<times> files \<times> bool" where
  "vma_dup_loop ok n [] m fs = (m, fs, True)"
| "vma_dup_loop ok n (r # rs) m fs =
     (case vma_add (ok n) (vr_start r) (vr_end r) (vr_mem_flags r) (vr_prot_flags r) (vr_file r) (vr_offset r) (Some m) fs of
        (Some m', fs', Inr _) \<Rightarrow> vma_dup_loop ok (n + 1) rs m' fs'
      | (_, fs', _) \<Rightarrow> (m, fs', False))"

definition vma_dup :: "(nat \<Rightarrow> bool) \<Rightarrow> ('c option \<Rightarrow> 'c option) \<Rightarrow> 'c mm_struct \<Rightarrow> files \<Rightarrow> files \<times> 'c mm_struct option" where
  "vma_dup ok clone m fs =
     (case vma_alloc (ok 0) of
        None \<Rightarrow> (fs, None)
      | Some new \<Rightarrow>
          (case vma_dup_loop ok 1 (mm_vma m) new fs of
             (new, fs', False) \<Rightarrow> (fst (vma_destroy new fs'), None)
           | (new, fs', True) \<Rightarrow>
               (case clone (mm_ctx m) of
                  None \<Rightarrow> (fst (vma_destroy new fs'), None)
                | Some c \<Rightarrow> (fs', Some (new\<lparr>mm_ctx := Some c, mm_brk := mm_brk m, mm_brk_start := mm_brk_start m\<rparr>)))))"

definition vma_get :: "'c mm_struct \<Rightarrow> 'c mm_struct" where
  "vma_get m = m\<lparr>mm_refcount := mm_refcount m + 1\<rparr>"

text \<open>Dropping a reference; the second component is what remains of the address space.\<close>

definition vma_put :: "'c mm_struct \<Rightarrow> files \<Rightarrow> files \<times> 'c mm_struct option" where
  "vma_put m fs =
     (let m' = m\<lparr>mm_refcount := mm_refcount m - 1\<rparr>
      in if mm_refcount m' = 0 then (fst (vma_destroy m' fs), None) else (fs, Some m'))"

subsection \<open>Page alignment\<close>

lemma page_down:
  fixes a :: addr
  shows "ALIGN_DOWN a 0x1000 \<le> a" and "4096 dvd unat (ALIGN_DOWN a 0x1000)"
    and "4096 dvd unat a \<Longrightarrow> ALIGN_DOWN a 0x1000 = a"
proof -
  have e: "(2::addr) ^ 12 = 0x1000" "(2::nat) ^ 12 = 4096" by simp_all
  show "ALIGN_DOWN a 0x1000 \<le> a" "4096 dvd unat (ALIGN_DOWN a 0x1000)"
    using ALIGN_DOWN_le [of a 12] ALIGN_DOWN_dvd [of 12 a] unfolding e .
  show "ALIGN_DOWN a 0x1000 = a" if "4096 dvd unat a"
    using that unat_ALIGN_DOWN [of a 12] unfolding e by (simp add: word_unat_eq_iff)
qed

lemma page_up:
  fixes a :: addr
  assumes "a \<le> 0xFFFFF000"
  shows "a \<le> ALIGN_UP a 0x1000" and "4096 dvd unat (ALIGN_UP a 0x1000)" and "ALIGN_UP a 0x1000 \<le> 0xFFFFF000"
    and "4096 dvd unat a \<Longrightarrow> ALIGN_UP a 0x1000 = a"
proof -
  have e: "(2::addr) ^ 12 = 0x1000" "(2::nat) ^ 12 = 4096" by simp_all
  have b: "unat a + 2 ^ 12 - 1 < 2 ^ LENGTH(32)" using assms by (simp add: word_le_nat_alt)
  have l: "12 < LENGTH(32)" by simp
  note up = ALIGN_UP_ge [OF l b, unfolded e]
  show "a \<le> ALIGN_UP a 0x1000" and d: "4096 dvd unat (ALIGN_UP a 0x1000)" by (rule up(1), rule up(3))
  have lt: "unat (ALIGN_UP a 0x1000) < 4294967296" by (rule unat_32_bound)
  obtain k where k: "unat (ALIGN_UP a 0x1000) = 4096 * k" using d by (elim dvdE)
  then have "k < 1048576" using lt by linarith
  then have "unat (ALIGN_UP a 0x1000) \<le> 4294963200" using k by linarith
  then show "ALIGN_UP a 0x1000 \<le> 0xFFFFF000" by (simp add: word_le_nat_alt)
  show "ALIGN_UP a 0x1000 = a" if al: "4096 dvd unat a"
  proof -
    obtain j where j: "unat a = 4096 * j" using al by (elim dvdE)
    have "4096 * j \<le> 4096 * k" "4096 * k < 4096 * j + 4096"
      using up(1,2) k j by (simp_all add: word_le_nat_alt)
    then have "k = j" by simp
    then show ?thesis using k j by (simp add: word_unat_eq_iff)
  qed
qed

subsection \<open>Well-formed region lists\<close>

definition contains :: "vm_region \<Rightarrow> addr \<Rightarrow> bool" where
  "contains r a \<longleftrightarrow> vr_start r \<le> a \<and> a < vr_end r"

definition vmr_ok :: "vm_region \<Rightarrow> bool" where
  "vmr_ok r \<longleftrightarrow> vr_start r < vr_end r \<and> vr_end r \<le> 0xFFFFF000
     \<and> 4096 dvd unat (vr_start r) \<and> 4096 dvd unat (vr_end r)"

definition regions_ok :: "vm_region list \<Rightarrow> bool" where
  "regions_ok rs \<longleftrightarrow> sorted_wrt (\<lambda>r s. vr_end r \<le> vr_start s) rs \<and> (\<forall>r\<in>set rs. vmr_ok r)"

lemma contains_start: "vmr_ok r \<Longrightarrow> contains r (vr_start r)"
  by (simp add: contains_def vmr_ok_def)

lemma before_disjoint: "vr_end r \<le> vr_start s \<Longrightarrow> contains r a \<Longrightarrow> contains s a \<Longrightarrow> False"
  by (auto simp: contains_def)

lemma regions_unique:
  assumes "regions_ok rs" and "r \<in> set rs" and "s \<in> set rs" and "contains r a" and "contains s a"
  shows "r = s"
  using assms by (induction rs) (auto simp: regions_ok_def dest: before_disjoint)

text \<open>The search stops early, at the first region above the address, and misses nothing.\<close>

lemma lookup_iff:
  assumes "regions_ok rs"
  shows "vma_lookup_from a rs = Some r \<longleftrightarrow> r \<in> set rs \<and> contains r a"
  using assms
proof (induction rs)
  case Nil
  then show ?case by simp
next
  case (Cons x rs)
  have x: "vmr_ok x" "regions_ok rs" and le: "\<forall>s\<in>set rs. vr_end x \<le> vr_start s" and ok: "\<forall>s\<in>set rs. vmr_ok s"
    using Cons.prems by (auto simp: regions_ok_def)
  show ?case
  proof (cases "contains x a")
    case True
    then have "\<forall>s\<in>set rs. \<not> contains s a" using le before_disjoint by blast
    then show ?thesis using True by (auto simp: contains_def)
  next
    case False
    show ?thesis
    proof (cases "vr_start x \<le> a")
      case True
      then show ?thesis using False Cons.IH [OF x(2)] by (auto simp: contains_def)
    next
      case lt: False
      have "\<not> contains s a" if "s \<in> set rs" for s
        using lt le that x(1) by (auto simp: contains_def vmr_ok_def)
      then show ?thesis using lt False by auto
    qed
  qed
qed

lemma place_None:
  "s < e \<Longrightarrow> regions_ok rs \<Longrightarrow> vma_place s e rs = None \<longleftrightarrow> (\<exists>r\<in>set rs. s < vr_end r \<and> vr_start r < e)"
proof (induction rs)
  case (Cons x rs)
  have le: "\<forall>r\<in>set rs. vr_end x \<le> vr_start r" and x: "vmr_ok x" "regions_ok rs"
    using Cons.prems by (auto simp: regions_ok_def)
  show ?case
  proof (cases "vr_start x < e")
    case True
    then show ?thesis using Cons.IH [OF Cons.prems(1) x(2)] by (auto split: option.split)
  next
    case False
    then have "e \<le> vr_start r" if "r \<in> set rs" for r
      using le that x(1) by (force simp: vmr_ok_def)
    then show ?thesis using False by (auto simp: not_less)
  qed
qed simp

lemma place_Some:
  "regions_ok rs \<Longrightarrow> vma_place s e rs = Some (p, n) \<Longrightarrow>
     rs = p @ n \<and> (\<forall>r\<in>set p. vr_end r \<le> s) \<and> (\<forall>r\<in>set n. e \<le> vr_start r)"
proof (induction rs arbitrary: p)
  case (Cons x rs)
  have le: "\<forall>r\<in>set rs. vr_end x \<le> vr_start r" and x: "vmr_ok x" "regions_ok rs"
    using Cons.prems by (auto simp: regions_ok_def)
  show ?case
  proof (cases "vr_start x < e")
    case True
    then obtain p' where "vma_place s e rs = Some (p', n)" "p = x # p'" "vr_end x \<le> s"
      using Cons.prems(2) by (auto split: if_splits option.splits)
    then show ?thesis using Cons.IH [OF x(2)] by auto
  next
    case False
    have "e \<le> vr_start r" if "r \<in> set rs" for r
      using False le that x(1) by (force simp: vmr_ok_def)
    then show ?thesis using Cons.prems False by (auto simp: not_less)
  qed
qed simp

lemma regions_insert:
  assumes "regions_ok (p @ n)" and "vmr_ok r" and "\<forall>x\<in>set p. vr_end x \<le> vr_start r" and "\<forall>x\<in>set n. vr_end r \<le> vr_start x"
  shows "regions_ok (p @ r # n)"
  using assms by (auto simp: regions_ok_def sorted_wrt_append)

lemma lookup_insert:
  assumes "regions_ok (p @ r # n)"
  shows "vma_lookup_from a (p @ r # n) = (if contains r a then Some r else vma_lookup_from a (p @ n))"
proof -
  have ok: "regions_ok (p @ n)" using assms by (auto simp: regions_ok_def sorted_wrt_append)
  show ?thesis
  proof (cases "contains r a")
    case True
    then show ?thesis using lookup_iff [OF assms] by simp
  next
    case False
    then have "vma_lookup_from a (p @ r # n) = Some x \<longleftrightarrow> vma_lookup_from a (p @ n) = Some x" for x
      unfolding lookup_iff [OF assms] lookup_iff [OF ok] by auto
    then have "vma_lookup_from a (p @ r # n) = vma_lookup_from a (p @ n)" by (metis not_Some_eq)
    then show ?thesis using False by simp
  qed
qed

lemma remove_from_spec:
  assumes "regions_ok rs"
  shows "case vma_lookup_from a rs of None \<Rightarrow> vma_remove_from a rs = None
    | Some r \<Rightarrow> \<exists>p n. rs = p @ r # n \<and> vma_remove_from a rs = Some (r, p @ n)"
  using assms
proof (induction rs)
  case (Cons x rs)
  have ok: "regions_ok rs" "regions_ok ([] @ x # rs)" using Cons.prems by (auto simp: regions_ok_def)
  have l: "vma_lookup_from a (x # rs) = (if contains x a then Some x else vma_lookup_from a rs)"
    using lookup_insert [OF ok(2)] by simp
  show ?case
  proof (cases "contains x a")
    case True
    then show ?thesis unfolding l by (auto simp: contains_def intro: exI [of _ "[]"])
  next
    case False
    show ?thesis
    proof (cases "vma_lookup_from a rs")
      case None
      then show ?thesis using False Cons.IH [OF ok(1)] unfolding l by (auto simp: contains_def)
    next
      case (Some r)
      then obtain p n where "rs = p @ r # n" "vma_remove_from a rs = Some (r, p @ n)"
        using Cons.IH [OF ok(1)] by auto
      then have e: "x # rs = (x # p) @ r # n \<and> vma_remove_from a (x # rs) = Some (r, (x # p) @ n)"
        using False by (auto simp: contains_def)
      have "vma_lookup_from a (x # rs) = Some r" using False Some l by simp
      then show ?thesis unfolding option.case
        by (simp only: option.case) (rule exI [of _ "x # p"], rule exI [of _ n], rule e)
    qed
  qed
qed simp

definition mm_ok :: "'c mm_struct \<Rightarrow> bool" where
  "mm_ok m \<longleftrightarrow> regions_ok (mm_vma m)"

text \<open>The new region and the aligned request.\<close>

definition new_region :: "addr \<Rightarrow> addr \<Rightarrow> u32 \<Rightarrow> u32 \<Rightarrow> nat option \<Rightarrow> u64 \<Rightarrow> vm_region" where
  "new_region start end mf pf file off =
     \<lparr>vr_start = ALIGN_DOWN start 0x1000, vr_end = ALIGN_UP end 0x1000, vr_mem_flags = mf, vr_prot_flags = pf,
      vr_file = file, vr_offset = (if file = None then off else off - ucast (start - ALIGN_DOWN start 0x1000))\<rparr>"

lemma new_region_ok:
  assumes "start < end" and "end \<le> 0xFFFFF000"
  shows "vmr_ok (new_region start end mf pf file off)"
  using page_down [of start] page_up [OF assms(2)] assms(1)
  by (auto simp: vmr_ok_def new_region_def)

lemma vma_add_spec:
  assumes "mm_ok m" and "end \<le> 0xFFFFF000" and "start < end"
    and r_def: "r = new_region start end mf pf file off"
  shows "if \<exists>a x. contains r a \<and> vma_lookup m a = Some x then vma_add ok start end mf pf file off (Some m) fs = (Some m, fs, Inl EINVAL)
    else if \<not> ok then vma_add ok start end mf pf file off (Some m) fs = (Some m, fs, Inl ENOMEM)
    else \<exists>m'. vma_add ok start end mf pf file off (Some m) fs = (Some m', file_get_opt file fs, Inr r)
      \<and> mm_ok m' \<and> (\<forall>a. vma_lookup m' a = (if contains r a then Some r else vma_lookup m a))"
proof -
  have rok: "vmr_ok r" unfolding r_def by (rule new_region_ok [OF assms(3,2)])
  have rs: "regions_ok (mm_vma m)" using assms(1) by (simp add: mm_ok_def)
  have se: "vr_start r < vr_end r" using rok by (simp add: vmr_ok_def)
  have e: "vr_start r = ALIGN_DOWN start 0x1000" "vr_end r = ALIGN_UP end 0x1000" by (simp_all add: r_def new_region_def)
  have ov: "(\<exists>a x. contains r a \<and> vma_lookup m a = Some x) \<longleftrightarrow> vma_place (vr_start r) (vr_end r) (mm_vma m) = None"
  proof -
    have meet: "(\<exists>a. contains r a \<and> contains x a) \<longleftrightarrow> vr_start r < vr_end x \<and> vr_start x < vr_end r" if "vmr_ok x" for x
    proof
      assume "\<exists>a. contains r a \<and> contains x a"
      then show "vr_start r < vr_end x \<and> vr_start x < vr_end r" by (auto simp: contains_def)
    next
      assume "vr_start r < vr_end x \<and> vr_start x < vr_end r"
      then show "\<exists>a. contains r a \<and> contains x a"
        using rok that by (intro exI [of _ "max (vr_start r) (vr_start x)"]) (auto simp: contains_def vmr_ok_def max_def)
    qed
    have "(\<exists>a x. contains r a \<and> vma_lookup m a = Some x) \<longleftrightarrow> (\<exists>x\<in>set (mm_vma m). \<exists>a. contains r a \<and> contains x a)"
      unfolding vma_lookup_def lookup_iff [OF rs] by blast
    also have "\<dots> \<longleftrightarrow> (\<exists>x\<in>set (mm_vma m). vr_start r < vr_end x \<and> vr_start x < vr_end r)"
      using rs by (intro bex_cong refl meet) (simp add: regions_ok_def)
    finally show ?thesis unfolding place_None [OF se rs] .
  qed
  show ?thesis
  proof (cases "vma_place (vr_start r) (vr_end r) (mm_vma m)")
    case None
    then show ?thesis using ov assms(3) by (simp add: vma_add_def Let_def e)
  next
    case (Some pn)
    then obtain p n where pn: "vma_place (vr_start r) (vr_end r) (mm_vma m) = Some (p, n)" by (cases pn) simp
    note pl = place_Some [OF rs pn]
    have ok': "regions_ok (p @ r # n)" using pl rs rok by (intro regions_insert) auto
    have "vma_add True start end mf pf file off (Some m) fs = (Some (m\<lparr>mm_vma := p @ r # n\<rparr>), file_get_opt file fs, Inr r)"
      using pn assms(3) by (simp add: vma_add_def Let_def e not_le) (simp add: r_def new_region_def not_le)
    moreover have "vma_add False start end mf pf file off (Some m) fs = (Some m, fs, Inl ENOMEM)"
      using pn assms(3) by (simp add: vma_add_def Let_def e)
    moreover have "vma_lookup (m\<lparr>mm_vma := p @ r # n\<rparr>) a = (if contains r a then Some r else vma_lookup m a)" for a
      using lookup_insert [OF ok'] pl by (simp add: vma_lookup_def)
    ultimately show ?thesis
      using ov pn ok' by (cases ok) (auto simp: mm_ok_def intro!: exI [of _ "m\<lparr>mm_vma := p @ r # n\<rparr>"])
  qed
qed

subsection \<open>Copying an address space\<close>

abbreviation get_files :: "vm_region list \<Rightarrow> files \<Rightarrow> files" where
  "get_files rs \<equiv> fold (\<lambda>r. file_get_opt (vr_file r)) rs"

abbreviation put_files :: "vm_region list \<Rightarrow> files \<Rightarrow> files" where
  "put_files rs \<equiv> fold (\<lambda>r. file_put_opt (vr_file r)) rs"

definition uses_of :: "nat \<Rightarrow> vm_region list \<Rightarrow> nat" where
  "uses_of f rs = length (filter (\<lambda>r. vr_file r = Some f) rs)"

lemma uses_of_simps [simp]:
  "uses_of f [] = 0" "uses_of f (r # rs) = (if vr_file r = Some f then Suc (uses_of f rs) else uses_of f rs)"
  by (simp_all add: uses_of_def)

lemma get_files_refs:
  "file_refs (get_files rs fs) f = file_refs fs f + of_nat (uses_of f rs) \<and> file_released (get_files rs fs) = file_released fs"
  by (induction rs arbitrary: fs) (auto simp: file_get_def split: option.split)

lemma put_files_refs:
  assumes "\<And>f. 0 < uses_of f rs \<Longrightarrow> uses_of f rs < unat (file_refs fs f)"
  shows "file_refs (put_files rs fs) f = file_refs fs f - of_nat (uses_of f rs)
    \<and> file_released (put_files rs fs) = file_released fs"
  using assms
proof (induction rs arbitrary: fs)
  case (Cons r rs)
  show ?case
  proof (cases "vr_file r")
    case None
    then show ?thesis using Cons.IH [of fs] Cons.prems by simp
  next
    case (Some g)
    have g: "Suc (uses_of g rs) < unat (file_refs fs g)" using Cons.prems [of g] Some by simp
    then have u: "unat (file_refs fs g - 1) = unat (file_refs fs g) - 1" by (subst unat_sub_no_wrap) simp_all
    have nz: "file_refs fs g - 1 \<noteq> 0"
    proof
      assume "file_refs fs g - 1 = 0"
      then show False using g u by simp
    qed
    let ?fs = "fs\<lparr>file_refs := (file_refs fs)(g := file_refs fs g - 1)\<rparr>"
    have p: "file_put g fs = ?fs" using nz by (simp add: file_put_def)
    have "uses_of h rs < unat (file_refs ?fs h)" if "0 < uses_of h rs" for h
      using that g u Cons.prems [of h] Some by (auto split: if_splits)
    then show ?thesis using Cons.IH [of ?fs] Some p by (simp add: diff_diff_eq)
  qed
qed simp

lemma dup_loop_spec:
  assumes "regions_ok (xs @ rs)" and "mm_vma m = xs"
  shows "case vma_dup_loop ok n rs m fs of
      (m', fs', True) \<Rightarrow> m' = m\<lparr>mm_vma := xs @ rs\<rparr> \<and> fs' = get_files rs fs
    | (m', fs', False) \<Rightarrow> \<exists>k. m' = m\<lparr>mm_vma := xs @ take k rs\<rparr> \<and> fs' = get_files (take k rs) fs"
  using assms
proof (induction rs arbitrary: xs m fs n)
  case Nil
  then show ?case by simp
next
  case (Cons r rs)
  have r: "vmr_ok r" and ok: "regions_ok xs" and le: "\<forall>x\<in>set xs. vr_end x \<le> vr_start r"
    using Cons.prems(1) by (auto simp: regions_ok_def sorted_wrt_append)
  have d: "ALIGN_DOWN (vr_start r) 0x1000 = vr_start r" "ALIGN_UP (vr_end r) 0x1000 = vr_end r"
    using r by (auto simp: vmr_ok_def page_down(3) page_up(4))
  have n: "new_region (vr_start r) (vr_end r) (vr_mem_flags r) (vr_prot_flags r) (vr_file r) (vr_offset r) = r"
    by (simp add: new_region_def d)
  have pl: "vma_place (vr_start r) (vr_end r) xs = Some (xs, [])"
    using le ok r
  proof (induction xs)
    case (Cons x xs)
    then show ?case by (auto simp: regions_ok_def vmr_ok_def)
  qed simp
  have add: "vma_add b (vr_start r) (vr_end r) (vr_mem_flags r) (vr_prot_flags r) (vr_file r) (vr_offset r) (Some m) fs
      = (if b then (Some (m\<lparr>mm_vma := xs @ [r]\<rparr>), file_get_opt (vr_file r) fs, Inr r) else (Some m, fs, Inl ENOMEM))" for b
    using pl r Cons.prems(2) n by (simp add: vma_add_def Let_def d vmr_ok_def new_region_def not_le)
  show ?case
  proof (cases "ok n")
    case True
    have "regions_ok ((xs @ [r]) @ rs)" using Cons.prems(1) by simp
    note IH = Cons.IH [OF this, of "m\<lparr>mm_vma := xs @ [r]\<rparr>" "file_get_opt (vr_file r) fs" "n + 1"]
    obtain m' fs' b where l: "vma_dup_loop ok (n + 1) rs (m\<lparr>mm_vma := xs @ [r]\<rparr>) (file_get_opt (vr_file r) fs) = (m', fs', b)"
      by (metis prod_cases3)
    have e: "vma_dup_loop ok n (r # rs) m fs = (m', fs', b)" using True l by (simp add: add)
    show ?thesis
    proof (cases b)
      case True
      then show ?thesis using IH e l by simp
    next
      case False
      then obtain k where "m' = m\<lparr>mm_vma := xs @ take (Suc k) (r # rs)\<rparr>" "fs' = get_files (take (Suc k) (r # rs)) fs"
        using IH l by auto
      then show ?thesis using e False by (simp only: case_prod_conv bool.case) blast
    qed
  next
    case False
    then show ?thesis using Cons.prems(2) by (auto simp: add intro!: exI [of _ 0])
  qed
qed

lemma uses_of_take: "uses_of f (take k rs) \<le> uses_of f rs"
proof -
  have "uses_of f rs = uses_of f (take k rs) + uses_of f (drop k rs)"
    unfolding uses_of_def by (metis append_take_drop_id filter_append length_append)
  then show ?thesis by simp
qed

text \<open>Giving back the references just taken restores every count and releases nothing.\<close>

lemma get_put_files:
  assumes "\<And>f. 0 < uses_of f rs \<Longrightarrow> 0 < unat (file_refs fs f) \<and> unat (file_refs fs f) + uses_of f rs < 4294967296"
  shows "put_files rs (get_files rs fs) = fs"
proof -
  have "uses_of f rs < unat (file_refs (get_files rs fs) f)" if "0 < uses_of f rs" for f
  proof -
    have b: "0 < unat (file_refs fs f)" "unat (file_refs fs f) + uses_of f rs < 4294967296" using assms [OF that] by blast+
    then have "unat (of_nat (uses_of f rs) :: u32) = uses_of f rs" by (simp add: unsigned_of_nat take_bit_nat_eq_self)
    then have "unat (file_refs (get_files rs fs) f) = unat (file_refs fs f) + uses_of f rs"
      using b by (simp add: get_files_refs unat_add_no_wrap)
    then show ?thesis using b by linarith
  qed
  from put_files_refs [OF this] have "file_refs (put_files rs (get_files rs fs)) f = file_refs fs f"
      "file_released (put_files rs (get_files rs fs)) = file_released fs" for f
    by (simp_all add: get_files_refs)
  then show ?thesis by (intro files.equality ext) simp_all
qed

lemma destroy_copy: "fst (vma_destroy m fs) = put_files (mm_vma m) fs"
  by (simp add: vma_destroy_def vma_clean_def)

lemma vma_dup_keeps:
  assumes "mm_ok m"
    and "\<And>f. 0 < uses_of f (mm_vma m) \<Longrightarrow>
      0 < unat (file_refs fs f) \<and> unat (file_refs fs f) + uses_of f (mm_vma m) < 4294967296"
  shows "case vma_dup ok clone m fs of
      (fs', None) \<Rightarrow> fs' = fs
    | (fs', Some m') \<Rightarrow> mm_vma m' = mm_vma m \<and> mm_ok m' \<and> mm_brk m' = mm_brk m \<and> mm_brk_start m' = mm_brk_start m
        \<and> mm_ctx m' = clone (mm_ctx m) \<and> mm_ctx m' \<noteq> None \<and> mm_refcount m' = 1
        \<and> (\<forall>f. file_refs fs' f = file_refs fs f + of_nat (uses_of f (mm_vma m))) \<and> file_released fs' = file_released fs"
proof (cases "ok 0")
  case False
  then show ?thesis by (simp add: vma_dup_def vma_alloc_def)
next
  case True
  let ?new = "\<lparr>mm_ctx = None, mm_vma = [], mm_brk_start = 0, mm_brk = 0, mm_refcount = 1\<rparr> :: 'a mm_struct"
  have pre: "0 < unat (file_refs fs f) \<and> unat (file_refs fs f) + uses_of f (take k (mm_vma m)) < 4294967296"
    if "0 < uses_of f (take k (mm_vma m))" for f k
    using assms(2) [of f] uses_of_take [of f k "mm_vma m"] that by linarith
  obtain n fs1 b where l: "vma_dup_loop ok 1 (mm_vma m) ?new fs = (n, fs1, b)" by (metis prod_cases3)
  have sp: "case (n, fs1, b) of (m', fs', True) \<Rightarrow> m' = ?new\<lparr>mm_vma := [] @ mm_vma m\<rparr> \<and> fs' = get_files (mm_vma m) fs
    | (m', fs', False) \<Rightarrow> \<exists>k. m' = ?new\<lparr>mm_vma := [] @ take k (mm_vma m)\<rparr> \<and> fs' = get_files (take k (mm_vma m)) fs"
    using dup_loop_spec [where xs = "[]" and rs = "mm_vma m" and m = ?new and ok = ok and n = 1 and fs = fs] assms(1) unfolding l by (simp add: mm_ok_def)
  have undo: "fst (vma_destroy (?new\<lparr>mm_vma := take k (mm_vma m)\<rparr>) (get_files (take k (mm_vma m)) fs)) = fs" for k
    unfolding destroy_copy using get_put_files [OF pre] by simp
  show ?thesis
  proof (cases b)
    case False
    then obtain k where "n = ?new\<lparr>mm_vma := take k (mm_vma m)\<rparr>" "fs1 = get_files (take k (mm_vma m)) fs"
      using sp by auto
    then show ?thesis using True False l undo [of k] by (simp add: vma_dup_def vma_alloc_def)
  next
    case b: True
    then have "n = ?new\<lparr>mm_vma := mm_vma m\<rparr>" "fs1 = get_files (mm_vma m) fs" using sp by auto
    then show ?thesis
      using True b l undo [of "length (mm_vma m)"] assms(1) get_files_refs
      by (cases "clone (mm_ctx m)") (simp_all add: vma_dup_def vma_alloc_def mm_ok_def)
  qed
qed

subsection \<open>Correctness of the region operations\<close>

text \<open>An address space with the program at 0x8048000, backed by file 3, and a stack.\<close>

definition small_mm :: "unit mm_struct" where
  "small_mm = \<lparr>mm_ctx = Some (), mm_vma =
     [\<lparr>vr_start = 0x8048000, vr_end = 0x804A000, vr_mem_flags = 5, vr_prot_flags = 0, vr_file = Some 3, vr_offset = 0\<rparr>,
      \<lparr>vr_start = 0xBFFF0000, vr_end = 0xC0000000, vr_mem_flags = 7, vr_prot_flags = 4, vr_file = None, vr_offset = 0\<rparr>],
     mm_brk_start = 0x804A000, mm_brk = 0x804B000, mm_refcount = 1\<rparr>"

definition small_files :: files where
  "small_files = \<lparr>file_refs = (\<lambda>f. if f = 3 then 2 else 0), file_released = []\<rparr>"

lemma small_mm_ok: "mm_ok small_mm"
  by (simp add: mm_ok_def small_mm_def regions_ok_def vmr_ok_def)

text \<open>
  C15. Adding a region refines the update of a partial map from addresses to regions. In a
  well-formed address space, for a non-empty range below the last page, \<open>vma_add\<close> fails with
  \<open>EINVAL\<close> exactly when some address of the page-aligned range already has a region, with
  \<open>ENOMEM\<close> when there is no memory for the record, and changes nothing then. Otherwise the list
  stays well formed, lookups in the aligned range give the new region and all others are as
  before, and the file has gained one reference.
\<close>

theorem vma_add_correct:
  assumes "mm_ok m" and "end \<le> 0xFFFFF000" and "start < end"
    and "r = new_region start end mf pf file off"
  shows "(\<forall>a. start \<le> a \<and> a < end \<longrightarrow> contains r a) \<and>
    (if \<exists>a x. contains r a \<and> vma_lookup m a = Some x then vma_add ok start end mf pf file off (Some m) fs = (Some m, fs, Inl EINVAL)
     else if \<not> ok then vma_add ok start end mf pf file off (Some m) fs = (Some m, fs, Inl ENOMEM)
     else \<exists>m'. vma_add ok start end mf pf file off (Some m) fs = (Some m', file_get_opt file fs, Inr r)
       \<and> mm_ok m' \<and> (\<forall>a. vma_lookup m' a = (if contains r a then Some r else vma_lookup m a)))"
proof (rule conjI)
  show "\<forall>a. start \<le> a \<and> a < end \<longrightarrow> contains r a"
    using page_down(1) [of start] page_up(1) [OF assms(2)] assms(4)
    by (auto simp: contains_def new_region_def intro: order_trans less_le_trans)
qed (rule vma_add_spec [OF assms])

theorem vma_add_correct_witness:
  "\<exists>m' r. vma_add True 0x9000123 0x9000456 3 0 None 0 (Some small_mm) small_files = (Some m', small_files, Inr r)
    \<and> mm_ok m' \<and> vma_lookup m' 0x9000200 = Some r \<and> vma_lookup m' 0x8049000 = vma_lookup small_mm 0x8049000"
proof -
  let ?r = "new_region 0x9000123 0x9000456 3 0 None 0"
  have e: "ALIGN_DOWN 0x9000123 0x1000 = (0x9000000::addr)" "ALIGN_UP 0x9000456 0x1000 = (0x9001000::addr)"
    by (simp_all add: ALIGN_DOWN_def ALIGN_UP_def)
  then have c: "contains ?r a \<longleftrightarrow> 0x9000000 \<le> a \<and> a < 0x9001000" for a by (simp add: contains_def new_region_def)
  have n: "vma_lookup small_mm a = None" if "contains ?r a" for a
    using that by (simp add: c vma_lookup_def small_mm_def word_le_nat_alt word_less_nat_alt)
  have l: "(0x9000456::addr) \<le> 0xFFFFF000" "(0x9000123::addr) < 0x9000456" by simp_all
  have no: "\<not> (\<exists>a x. contains ?r a \<and> vma_lookup small_mm a = Some x)" using n by fastforce
  from vma_add_correct [OF small_mm_ok l refl, of 3 0 None 0 True small_files]
  obtain m' where "vma_add True 0x9000123 0x9000456 3 0 None 0 (Some small_mm) small_files = (Some m', small_files, Inr ?r)"
    "mm_ok m'" "\<forall>a. vma_lookup m' a = (if contains ?r a then Some ?r else vma_lookup small_mm a)"
    unfolding if_not_P [OF no] by auto
  then show ?thesis by (simp add: c)
qed

text \<open>
  Removing a region: in a well-formed address space \<open>vma_remove\<close> fails with \<open>ENOENT\<close>
  exactly when the address has no region; otherwise that region, and nothing else, disappears
  from the map, and its file loses one reference.
\<close>

theorem vma_remove_correct:
  assumes "mm_ok m"
  shows "case vma_lookup m a of
      None \<Rightarrow> vma_remove m a fs = (m, fs, Inl ENOENT)
    | Some r \<Rightarrow> \<exists>m'. vma_remove m a fs = (m', file_put_opt (vr_file r) fs, Inr ()) \<and> mm_ok m'
        \<and> (\<forall>b. vma_lookup m' b = (if contains r b then None else vma_lookup m b))"
proof -
  have ok: "regions_ok (mm_vma m)" using assms by (simp add: mm_ok_def)
  show ?thesis
  proof (cases "vma_lookup_from a (mm_vma m)")
    case None
    then show ?thesis using remove_from_spec [OF ok, of a] by (simp add: vma_lookup_def vma_remove_def)
  next
    case (Some r)
    then obtain p n where p: "mm_vma m = p @ r # n" "vma_remove_from a (mm_vma m) = Some (r, p @ n)"
      using remove_from_spec [OF ok, of a] by auto
    have ok': "regions_ok (p @ n)" using ok p(1) by (auto simp: regions_ok_def sorted_wrt_append)
    have "vma_lookup_from b (p @ n) = None" if c: "contains r b" for b
    proof (rule ccontr)
      assume "vma_lookup_from b (p @ n) \<noteq> None"
      then obtain x where x: "x \<in> set (p @ n)" "contains x b" using lookup_iff [OF ok'] by auto
      then have "vr_end x \<le> vr_start r \<or> vr_end r \<le> vr_start x"
        using ok unfolding p(1) by (auto simp: regions_ok_def sorted_wrt_append)
      then show False using c x(2) before_disjoint by blast
    qed
    then have "vma_lookup_from b (p @ n) = (if contains r b then None else vma_lookup_from b (mm_vma m))" for b
      using lookup_insert [of p r n b] ok p(1) by simp
    then show ?thesis
      using p Some ok' by (simp add: vma_lookup_def vma_remove_def mm_ok_def)
  qed
qed

theorem vma_remove_correct_witness:
  "\<exists>m' fs'. vma_remove small_mm 0x8049FFF small_files = (m', fs', Inr ()) \<and> mm_ok m'
    \<and> vma_lookup m' 0x8048000 = None"
proof -
  have "vma_lookup small_mm 0x8049FFF = Some (mm_vma small_mm ! 0)" by (simp add: vma_lookup_def small_mm_def)
  moreover have "contains (mm_vma small_mm ! 0) 0x8048000" by (simp add: contains_def small_mm_def)
  ultimately show ?thesis using vma_remove_correct [OF small_mm_ok, of "0x8049FFF" small_files] by auto
qed

text \<open>
  Copying for \<open>fork\<close>: if no reference count is 0 or overflows, then whatever allocations
  fail, \<open>vma_dup\<close> either returns a copy with the same regions and the same break and one more
  reference per region to its file, or returns \<open>NULL\<close> with every count as before and no file
  released.
\<close>

theorem vma_dup_correct:
  assumes "mm_ok m"
    and "\<And>f. 0 < uses_of f (mm_vma m) \<Longrightarrow>
      0 < unat (file_refs fs f) \<and> unat (file_refs fs f) + uses_of f (mm_vma m) < 4294967296"
  shows "case vma_dup ok clone m fs of
      (fs', None) \<Rightarrow> fs' = fs
    | (fs', Some m') \<Rightarrow> mm_vma m' = mm_vma m \<and> mm_ok m' \<and> mm_brk m' = mm_brk m \<and> mm_brk_start m' = mm_brk_start m
        \<and> mm_ctx m' = clone (mm_ctx m) \<and> mm_ctx m' \<noteq> None \<and> mm_refcount m' = 1
        \<and> (\<forall>f. file_refs fs' f = file_refs fs f + of_nat (uses_of f (mm_vma m))) \<and> file_released fs' = file_released fs"
  by (rule vma_dup_keeps [OF assms])

theorem vma_dup_correct_witness:
  "case vma_dup (\<lambda>_. True) (\<lambda>c. c) small_mm small_files of
      (fs', None) \<Rightarrow> fs' = small_files
    | (fs', Some m') \<Rightarrow> mm_vma m' = mm_vma small_mm \<and> file_refs fs' 3 = 3"
proof -
  have "0 < unat (file_refs small_files f) \<and> unat (file_refs small_files f) + uses_of f (mm_vma small_mm) < 4294967296"
    if "0 < uses_of f (mm_vma small_mm)" for f
    using that by (simp add: small_mm_def small_files_def split: if_splits)
  from vma_dup_correct [OF small_mm_ok this, of "\<lambda>c. c" "\<lambda>_. True"] show ?thesis
    by (auto simp: small_files_def small_mm_def split: prod.splits option.splits)
qed

end
