(* ===== verification/Wey_Pid.thy ===== *)
theory Wey_Pid
  imports Wey_Config Wey_Errno Wey_Alloc
begin

text \<open>
  Process identifiers, \<open>core/pid.c\<close>: a table of \<open>PROC_MAX\<close> entries searched cyclically from the
  entry after the last one handed out. The search is a loop that returns to its start; the model
  returns \<open>None\<close> if it would run for ever, and the lemmas show that it does not.
\<close>

record pid_state =
  pids :: "bool list"
  next_free_pid :: nat

partial_function (option) pid_search :: "nat \<Rightarrow> nat \<Rightarrow> bool list \<Rightarrow> nat option option" where
  "pid_search start i p =
     (if \<not> p ! i then Some (Some i)
      else if (i + 1) mod 32 \<noteq> start then pid_search start ((i + 1) mod 32) p
      else Some None)"

definition pid_alloc :: "pid_state \<Rightarrow> (pid_state \<times> (errno + nat)) option" where
  "pid_alloc s =
     (case pid_search (next_free_pid s) (next_free_pid s) (pids s) of
        None \<Rightarrow> None
      | Some None \<Rightarrow> Some (s, Inl ENOENT)
      | Some (Some i) \<Rightarrow> Some (s\<lparr>pids := (pids s)[i := True], next_free_pid := (i + 1) mod 32\<rparr>, Inr i))"

definition pid_free :: "nat \<Rightarrow> pid_state \<Rightarrow> pid_state" where
  "pid_free pid s = s\<lparr>pids := (pids s)[pid := False], next_free_pid := pid\<rparr>"

text \<open>\<open>PID_ALLOC\<close> is 1, so the assignment of \<open>pid_init\<close> also sets the next entry to 1.\<close>

definition pid_init :: "pid_state" where
  "pid_init = \<lparr>pids = (replicate 32 False)[0 := True], next_free_pid = 1\<rparr>"

subsection \<open>The search\<close>

lemma cyc_step: "((start + k) mod 32 + 1) mod 32 = (start + Suc k) mod (32::nat)"
  by (simp add: mod_simps)

lemma cyc_start: "start < 32 \<Longrightarrow> k < 32 \<Longrightarrow> (start + Suc k) mod 32 = start \<longleftrightarrow> k = (31::nat)"
  by (cases "start + Suc k < 32") (auto simp: le_mod_geq)

lemma pid_search_spec:
  assumes "start < 32" and "k < 32"
  shows "pid_search start ((start + k) mod 32) p =
    Some (map_option (\<lambda>j. (start + j) mod 32) (find (\<lambda>j. \<not> p ! ((start + j) mod 32)) [k..<32]))"
  using assms(2)
proof (induction "31 - k" arbitrary: k)
  case 0
  then have "k = 31" by simp
  moreover have "[31..<32] = [31::nat]" by (simp add: upt_rec)
  ultimately show ?case
    using assms(1) by (subst pid_search.simps) (simp add: cyc_step [of start 31, simplified])
next
  case (Suc n)
  have u: "[k..<32] = k # [Suc k..<32]" using Suc.prems by (simp add: upt_rec)
  show ?case
  proof (cases "p ! ((start + k) mod 32)")
    case True
    have "(start + Suc k) mod 32 \<noteq> start" using Suc.prems Suc.hyps(2) assms(1) cyc_start [of start k] by simp
    moreover have "pid_search start ((start + Suc k) mod 32) p
        = Some (map_option (\<lambda>j. (start + j) mod 32) (find (\<lambda>j. \<not> p ! ((start + j) mod 32)) [Suc k..<32]))"
      using Suc.hyps by (intro Suc.hyps(1)) simp_all
    ultimately show ?thesis
      using True by (subst pid_search.simps) (simp add: mod_Suc_eq u)
  next
    case False
    then show ?thesis by (subst pid_search.simps) (simp add: u)
  qed
qed

lemma cyc_surj: "start < 32 \<Longrightarrow> i < 32 \<Longrightarrow> \<exists>j<32. (start + j) mod 32 = (i::nat)"
  by (rule exI [of _ "(i + 32 - start) mod 32"]) (simp add: mod_simps)

definition pid_ok :: "pid_state \<Rightarrow> bool" where
  "pid_ok s \<longleftrightarrow> length (pids s) = 32 \<and> next_free_pid s < 32"

lemma pid_alloc_spec:
  assumes "pid_ok s"
  shows "\<exists>s' r. pid_alloc s = Some (s', r) \<and> pid_ok s' \<and>
    (case r of Inl e \<Rightarrow> e = ENOENT \<and> s' = s \<and> (\<forall>i<32. pids s ! i)
     | Inr i \<Rightarrow> i < 32 \<and> \<not> pids s ! i \<and> pids s' = (pids s)[i := True])"
proof -
  let ?st = "next_free_pid s"
  have ok: "length (pids s) = 32" "?st < 32" using assms by (simp_all add: pid_ok_def)
  have e: "pid_search ?st ?st (pids s) =
      Some (map_option (\<lambda>j. (?st + j) mod 32) (find (\<lambda>j. \<not> pids s ! ((?st + j) mod 32)) [0..<32]))"
    using pid_search_spec [OF ok(2), of 0 "pids s"] ok(2) by simp
  show ?thesis
  proof (cases "find (\<lambda>j. \<not> pids s ! ((?st + j) mod 32)) [0..<32]")
    case None
    then have "\<forall>j<32. pids s ! ((?st + j) mod 32)" by (auto simp: find_None_iff)
    then have "pids s ! i" if "i < 32" for i using cyc_surj [OF ok(2) that] by blast
    then show ?thesis using assms None e by (simp add: pid_alloc_def)
  next
    case (Some j)
    then have "\<not> pids s ! ((?st + j) mod 32)" by (auto simp: find_Some_iff)
    then show ?thesis using Some e ok by (simp add: pid_alloc_def pid_ok_def)
  qed
qed

subsection \<open>The allocator interface\<close>

text \<open>\<open>A\<close> are the identifiers handed out; 0 belongs to the idle task and is never given back.\<close>

definition pid_owned :: "pid_state \<Rightarrow> nat set \<Rightarrow> bool" where
  "pid_owned s A \<longleftrightarrow> pid_ok s \<and> A \<subseteq> {1..<32} \<and> (\<forall>i<32. pids s ! i \<longleftrightarrow> i = 0 \<or> i \<in> A)"

definition pid_get :: "pid_state \<Rightarrow> pid_state \<times> nat option" where
  "pid_get s = (case pid_alloc s of Some (s', Inr i) \<Rightarrow> (s', Some i) | Some (s', Inl _) \<Rightarrow> (s', None) | None \<Rightarrow> (s, None))"

definition free_pids :: "pid_state \<Rightarrow> nat set" where
  "free_pids s = {i. i < 32 \<and> \<not> pids s ! i}"

lemma pid_get_eq: "pid_alloc s = Some (s', Inr i) \<Longrightarrow> pid_get s = (s', Some i)"
    "pid_alloc s = Some (s', Inl e) \<Longrightarrow> pid_get s = (s', None)"
  by (simp_all add: pid_get_def)

interpretation pid: allocator pid_owned pid_get pid_free free_pids "\<lambda>i. {i}"
proof
  fix s A s' b
  assume own: "pid_owned s A" and g: "pid_get s = (s', Some b)"
  have ok: "pid_ok s" using own by (simp add: pid_owned_def)
  obtain t r where t: "pid_alloc s = Some (t, r)" "pid_ok t" and r: "case r of Inl e \<Rightarrow> e = ENOENT \<and> t = s \<and> (\<forall>i<32. pids s ! i)
     | Inr i \<Rightarrow> i < 32 \<and> \<not> pids s ! i \<and> pids t = (pids s)[i := True]"
    using pid_alloc_spec [OF ok] by blast
  have "r = Inr b" "t = s'" using g t(1) by (auto simp: pid_get_def split: sum.splits)
  then have b: "b < 32" "\<not> pids s ! b" "pids s' = (pids s)[b := True]" "pid_ok s'" using r t by auto
  have l: "length (pids s) = 32" using ok by (simp add: pid_ok_def)
  have bA: "b \<notin> A" "b \<noteq> 0" using b own by (auto simp: pid_owned_def)
  have "pids s' ! i \<longleftrightarrow> i = 0 \<or> i \<in> insert b A" if "i < 32" for i
    using that b l own by (cases "i = b") (auto simp: pid_owned_def)
  then have "pid_owned s' (insert b A)" using b bA own by (auto simp: pid_owned_def)
  moreover have "free_pids s' = free_pids s - {b}" using b l by (auto simp: free_pids_def nth_list_update)
  ultimately show "pid_owned s' (insert b A) \<and> b \<notin> A \<and> {b} \<noteq> {} \<and> {b} \<subseteq> free_pids s \<and> free_pids s' = free_pids s - {b}"
    using bA b by (simp add: free_pids_def)
next
  fix s A s'
  assume own: "pid_owned s A" and g: "pid_get s = (s', None)"
  have ok: "pid_ok s" using own by (simp add: pid_owned_def)
  obtain t r where "pid_alloc s = Some (t, r)" and "case r of Inl e \<Rightarrow> e = ENOENT \<and> t = s \<and> (\<forall>i<32. pids s ! i)
     | Inr i \<Rightarrow> i < 32 \<and> \<not> pids s ! i \<and> pids t = (pids s)[i := True]"
    using pid_alloc_spec [OF ok] by blast
  then show "s' = s" using g by (cases r) (simp_all add: pid_get_eq)
next
  fix s A b
  assume own: "pid_owned s A" and b: "b \<in> A"
  have l: "length (pids s) = 32" "b < 32" "b \<noteq> 0" using own b by (auto simp: pid_owned_def pid_ok_def)
  then show "pid_owned (pid_free b s) (A - {b}) \<and> free_pids (pid_free b s) = free_pids s \<union> {b}"
    using own b by (auto simp: pid_owned_def pid_ok_def pid_free_def free_pids_def nth_list_update)
qed

lemma pid_init_owned: "pid_owned pid_init {}"
  by (auto simp: pid_owned_def pid_ok_def pid_init_def nth_list_update)

text \<open>
  C22. Process identifiers: the cyclic search terminates, and either yields an identifier
  between 1 and 31 that was not in use, or fails with \<open>ENOENT\<close>, which happens only when all 31
  are in use and changes nothing.
\<close>

theorem pid_alloc_correct:
  assumes "pid_owned s A"
  shows "(\<exists>s' i. pid_alloc s = Some (s', Inr i) \<and> i \<in> {1..<32} - A \<and> pid_owned s' (insert i A))
    \<or> pid_alloc s = Some (s, Inl ENOENT) \<and> A = {1..<32}"
proof -
  have ok: "pid_ok s" using assms by (simp add: pid_owned_def)
  obtain s' r where a: "pid_alloc s = Some (s', r)" and r: "case r of Inl e \<Rightarrow> e = ENOENT \<and> s' = s \<and> (\<forall>i<32. pids s ! i)
     | Inr i \<Rightarrow> i < 32 \<and> \<not> pids s ! i \<and> pids s' = (pids s)[i := True]"
    using pid_alloc_spec [OF ok] by blast
  show ?thesis
  proof (cases r)
    case (Inl e)
    then have "A = {1..<32}" using r assms by (force simp: pid_owned_def)
    then show ?thesis using a r Inl by simp
  next
    case (Inr i)
    then have g: "pid_get s = (s', Some i)" using a by (simp add: pid_get_eq)
    have "i \<noteq> 0 \<and> i < 32 \<and> i \<notin> A" using r Inr assms by (auto simp: pid_owned_def)
    then show ?thesis using a Inr pid.get_some [OF assms g] by auto
  qed
qed

theorem pid_alloc_correct_witness:
  "(\<exists>s' i. pid_alloc pid_init = Some (s', Inr i) \<and> i \<in> {1..<32} \<and> pid_owned s' {i})"
  using pid_alloc_correct [OF pid_init_owned] by auto

end
