(* ===== verification/Wey_Task.thy ===== *)
theory Wey_Task
  imports Wey_Pid Wey_Vma
begin

text \<open>
  Tasks and the scheduler: \<open>core/sched/task.c\<close>, \<open>core/sched/sched.c\<close>, \<open>core/sched/wait.c\<close>,
  \<open>core/fork.c\<close>, the system calls of \<open>core/pid.c\<close>, and \<open>context_switch\<close> with
  \<open>cpu_update_current_task\<close> of \<open>arch/i386/kernel/sched/process.c\<close>. A task is named by the
  address of its structure; the queues \<open>queue\<close>, \<open>children\<close>/\<open>sibling\<close> and the wait queues are
  lists of such names. The answers of the kernel heap are arguments: the address of a new
  structure, or \<open>None\<close>. A panic and a use of a null pointer are the value \<open>None\<close>. Registers and
  stacks are the business of the assembly switch and are left out.
\<close>

subsection \<open>Data\<close>

datatype task_state = TASK_NEW | TASK_READY | TASK_RUNNING | TASK_ZOMBIE | TASK_BLOCKED

record task =
  t_pid :: int
  t_files :: "nat option list"
  t_kstack :: bool
  t_mm :: "nat mm_struct option"
  t_pwd :: bool
  t_state :: task_state
  t_priority :: int
  t_exit_code :: int
  t_parent :: "nat option"
  t_children :: "nat list"

record ksys =
  ks_task :: "nat \<Rightarrow> task"
  ks_live :: "nat set"
  ks_ready :: "nat list"
  ks_current :: nat
  ks_idle :: nat
  ks_init :: nat
  ks_scheduling :: bool
  ks_need_resched :: bool
  ks_pids :: pid_state
  ks_files :: files

abbreviation upd_task :: "nat \<Rightarrow> (task \<Rightarrow> task) \<Rightarrow> ksys \<Rightarrow> ksys" where
  "upd_task t f s \<equiv> s\<lparr>ks_task := (ks_task s)(t := f (ks_task s t))\<rparr>"

abbreviation state_of :: "ksys \<Rightarrow> nat \<Rightarrow> task_state" where
  "state_of s t \<equiv> t_state (ks_task s t)"

definition new_task :: "int \<Rightarrow> task" where
  "new_task priority = \<lparr>t_pid = 0, t_files = replicate 16 None, t_kstack = False, t_mm = None, t_pwd = False,
     t_state = TASK_NEW, t_priority = priority, t_exit_code = 0, t_parent = None, t_children = []\<rparr>"

subsection \<open>The scheduler\<close>

definition task_create :: "nat option \<Rightarrow> int \<Rightarrow> ksys \<Rightarrow> ksys \<times> nat option" where
  "task_create mem priority s =
     (case mem of
        None \<Rightarrow> (s, None)
      | Some t \<Rightarrow> (s\<lparr>ks_task := (ks_task s)(t := new_task priority), ks_live := insert t (ks_live s)\<rparr>, Some t))"

definition scheduler_add :: "nat \<Rightarrow> ksys \<Rightarrow> ksys" where
  "scheduler_add t s = s\<lparr>ks_ready := ks_ready s @ [t]\<rparr>"

definition scheduler_remove :: "nat \<Rightarrow> ksys \<Rightarrow> ksys" where
  "scheduler_remove t s = s\<lparr>ks_ready := remove1 t (ks_ready s)\<rparr>"

definition next_task :: "ksys \<Rightarrow> ksys \<times> nat option" where
  "next_task s = (case ks_ready s of [] \<Rightarrow> (s, None) | t # ts \<Rightarrow> (s\<lparr>ks_ready := ts\<rparr>, Some t))"

definition scheduler_tick :: "ksys \<Rightarrow> ksys" where
  "scheduler_tick s = s\<lparr>ks_need_resched := True\<rparr>"

definition scheduler_start :: "ksys \<Rightarrow> ksys" where
  "scheduler_start s = s\<lparr>ks_scheduling := True\<rparr>"

definition task_destroy_mm :: "nat \<Rightarrow> ksys \<Rightarrow> ksys" where
  "task_destroy_mm t s =
     (case t_mm (ks_task s t) of
        None \<Rightarrow> s
      | Some mm \<Rightarrow> upd_task t (\<lambda>k. k\<lparr>t_mm := None\<rparr>) (s\<lparr>ks_files := fst (vma_put mm (ks_files s))\<rparr>))"

text \<open>The part \<open>task_handle_prev_status\<close> and \<open>task_destroy\<close> share: working directory, stack, memory.\<close>

definition task_release :: "nat \<Rightarrow> ksys \<Rightarrow> ksys" where
  "task_release t s = task_destroy_mm t (upd_task t (\<lambda>k. k\<lparr>t_pwd := False, t_kstack := False\<rparr>) s)"

definition task_handle_prev_status :: "nat \<Rightarrow> ksys \<Rightarrow> ksys" where
  "task_handle_prev_status t s =
     (if t_pid (ks_task s t) = 0 then s
      else case state_of s t of
          TASK_ZOMBIE \<Rightarrow> task_release t s
        | TASK_RUNNING \<Rightarrow> scheduler_add t (upd_task t (\<lambda>k. k\<lparr>t_state := TASK_READY\<rparr>) s)
        | _ \<Rightarrow> s)"

definition cpu_update_current_task :: "nat \<Rightarrow> ksys \<Rightarrow> ksys" where
  "cpu_update_current_task t s = upd_task t (\<lambda>k. k\<lparr>t_state := TASK_RUNNING\<rparr>) (s\<lparr>ks_current := t\<rparr>)"

definition context_switch :: "nat \<Rightarrow> nat \<Rightarrow> ksys \<Rightarrow> ksys" where
  "context_switch prev to s =
     (if prev = to \<or> to = ks_current s then s
      else task_handle_prev_status prev (cpu_update_current_task to s))"

definition schedule :: "ksys \<Rightarrow> ksys" where
  "schedule s =
     (if \<not> ks_scheduling s then s
      else let (s1, next) = next_task s; prev = ks_current s in
        case next of
          Some t \<Rightarrow> context_switch prev t s1
        | None \<Rightarrow> context_switch prev (if state_of s1 prev = TASK_BLOCKED then ks_idle s1 else prev) s1)"

subsection \<open>Blocking, exit and destruction\<close>

definition task_sleep :: "nat \<Rightarrow> ksys \<Rightarrow> ksys" where
  "task_sleep t s = upd_task t (\<lambda>k. k\<lparr>t_state := TASK_BLOCKED\<rparr>) s"

definition task_wakeup :: "nat \<Rightarrow> ksys \<Rightarrow> ksys" where
  "task_wakeup t s =
     (if state_of s t = TASK_BLOCKED then scheduler_add t (upd_task t (\<lambda>k. k\<lparr>t_state := TASK_READY\<rparr>) s) else s)"

definition sleep_current :: "ksys \<Rightarrow> ksys" where
  "sleep_current s = schedule (task_sleep (ks_current s) s)"

definition task_default_wakeup :: "nat \<Rightarrow> ksys \<Rightarrow> ksys \<times> int" where
  "task_default_wakeup t s = (if state_of s t \<noteq> TASK_BLOCKED then (s, 0) else (task_wakeup t s, 1))"

text \<open>The loop over the children, from the front; each moves to the front of the new parent's list.\<close>

fun reparent_loop :: "nat \<Rightarrow> nat \<Rightarrow> nat list \<Rightarrow> ksys \<Rightarrow> ksys" where
  "reparent_loop t np [] s = s"
| "reparent_loop t np (c # cs) s =
     reparent_loop t np cs
       (upd_task np (\<lambda>k. k\<lparr>t_children := c # t_children k\<rparr>)
         (upd_task t (\<lambda>k. k\<lparr>t_children := remove1 c (t_children k)\<rparr>)
           (upd_task c (\<lambda>k. k\<lparr>t_parent := Some np\<rparr>) s)))"

definition task_reparent_children :: "nat \<Rightarrow> nat \<Rightarrow> ksys \<Rightarrow> ksys" where
  "task_reparent_children t np s = reparent_loop t np (t_children (ks_task s t)) s"

definition task_exit :: "nat \<Rightarrow> int \<Rightarrow> ksys \<Rightarrow> ksys option" where
  "task_exit t status s =
     (if t_pid (ks_task s t) = 1 then None
      else let s1 = upd_task t (\<lambda>k. k\<lparr>t_exit_code := status, t_state := TASK_ZOMBIE\<rparr>) s;
               s2 = task_reparent_children t (ks_init s1) s1
           in case t_parent (ks_task s2 t) of
                None \<Rightarrow> None
              | Some p \<Rightarrow> Some (task_wakeup p s2))"

definition sys_exit :: "int \<Rightarrow> ksys \<Rightarrow> ksys option" where
  "sys_exit status s = map_option schedule (task_exit (ks_current s) status s)"

text \<open>
  \<open>vfs_close\<close> of \<open>fs/open.c\<close> on an open file: the reference is dropped unless the file's own
  \<open>close\<close> operation, the argument, fails.
\<close>

definition vfs_close :: "(nat \<Rightarrow> bool) \<Rightarrow> nat \<Rightarrow> files \<Rightarrow> files" where
  "vfs_close close_fails f fs = (if close_fails f then fs else file_put f fs)"

definition task_close_files :: "(nat \<Rightarrow> bool) \<Rightarrow> nat \<Rightarrow> ksys \<Rightarrow> ksys" where
  "task_close_files close_fails t s =
     upd_task t (\<lambda>k. k\<lparr>t_files := map (\<lambda>_. None) (t_files k)\<rparr>)
       (s\<lparr>ks_files := fold (\<lambda>fo fs. case fo of None \<Rightarrow> fs | Some f \<Rightarrow> vfs_close close_fails f fs)
            (t_files (ks_task s t)) (ks_files s)\<rparr>)"

text \<open>
  Destruction: a task that is not a zombie is a panic, and a negative identifier (see
  \<open>kernel_thread\<close>) an access outside the table of identifiers.
\<close>

definition task_destroy :: "(nat \<Rightarrow> bool) \<Rightarrow> nat \<Rightarrow> ksys \<Rightarrow> ksys option" where
  "task_destroy close_fails t s =
     (if state_of s t \<noteq> TASK_ZOMBIE \<or> t_pid (ks_task s t) < 0 then None
      else let s1 = task_close_files close_fails t (task_release t s);
               s2 = (case t_parent (ks_task s1 t) of None \<Rightarrow> s1
                     | Some p \<Rightarrow> upd_task p (\<lambda>k. k\<lparr>t_children := remove1 t (t_children k)\<rparr>) s1)
           in Some (s2\<lparr>ks_pids := pid_free (nat (t_pid (ks_task s2 t))) (ks_pids s2), ks_live := ks_live s2 - {t}\<rparr>))"

subsection \<open>Waiting for a child\<close>

definition task_get_child :: "nat \<Rightarrow> int \<Rightarrow> ksys \<Rightarrow> nat option" where
  "task_get_child t pid s = find (\<lambda>c. t_pid (ks_task s c) = pid) (t_children (ks_task s t))"

definition task_find_zombie_child :: "nat \<Rightarrow> ksys \<Rightarrow> nat option" where
  "task_find_zombie_child t s = find (\<lambda>c. state_of s c = TASK_ZOMBIE) (t_children (ks_task s t))"

text \<open>
  One round of the loop of \<open>waitpid\<close>: it returns a value (an error code negated, as C does) and
  the status it stored, or goes to sleep and tries again. \<open>None\<close> is a panic.
\<close>

datatype wait_result = WaitReturn int "int option" | WaitAgain

definition waitpid_round :: "(nat \<Rightarrow> bool) \<Rightarrow> int \<Rightarrow> bool \<Rightarrow> ksys \<Rightarrow> (ksys \<times> wait_result) option" where
  "waitpid_round close_fails pid nohang s =
     (let cur = ks_current s;
          child = (if pid > 0 then task_get_child cur pid s else task_find_zombie_child cur s);
          rest = (if nohang then (s, WaitReturn 0 None) else (sleep_current s, WaitAgain))
      in case child of
           None \<Rightarrow> if pid > 0 then Some (s, WaitReturn (- errno_val ENOENT) None) else Some rest
         | Some c \<Rightarrow>
             if state_of s c = TASK_ZOMBIE then
               (case task_destroy close_fails c s of
                  None \<Rightarrow> None
                | Some s' \<Rightarrow> Some (s', WaitReturn (t_pid (ks_task s c)) (Some (t_exit_code (ks_task s c)))))
             else Some rest)"

subsection \<open>Creating tasks\<close>

text \<open>
  The answers of the heap and of the page-table copy for one \<open>fork\<close>: the task structure, the
  kernel stack, and the records of \<open>vma_dup\<close>.
\<close>

record fork_mem =
  fm_task :: "nat option"
  fm_stack :: bool
  fm_vma :: "nat \<Rightarrow> bool"
  fm_clone :: "nat option \<Rightarrow> nat option"

definition drop_task :: "nat \<Rightarrow> ksys \<Rightarrow> ksys" where
  "drop_task t s = s\<lparr>ks_live := ks_live s - {t}\<rparr>"

definition copy_process :: "fork_mem \<Rightarrow> ksys \<Rightarrow> (ksys \<times> (errno + nat)) option" where
  "copy_process fm s =
     (let cur = ks_current s in
      case task_create (fm_task fm) (t_priority (ks_task s cur)) s of
        (s, None) \<Rightarrow> Some (s, Inl ENOMEM)
      | (s, Some c) \<Rightarrow>
          (case pid_alloc (ks_pids s) of
             None \<Rightarrow> None
           | Some (_, Inl _) \<Rightarrow> Some (drop_task c s, Inl ENOENT)
           | Some (ps, Inr pid) \<Rightarrow>
               let s = s\<lparr>ks_pids := ps\<rparr> in
               if \<not> fm_stack fm then Some (drop_task c (s\<lparr>ks_pids := pid_free pid (ks_pids s)\<rparr>), Inl ENOMEM)
               else case t_mm (ks_task s cur) of
                   None \<Rightarrow> None
                 | Some mm \<Rightarrow>
                     (case vma_dup (fm_vma fm) (fm_clone fm) mm (ks_files s) of
                        (fs, None) \<Rightarrow>
                          Some (drop_task c (s\<lparr>ks_pids := pid_free pid (ks_pids s), ks_files := fs\<rparr>), Inl ENOMEM)
                      | (fs, Some c_mm) \<Rightarrow>
                          let s = s\<lparr>ks_files := fold file_get_opt (t_files (ks_task s cur)) fs\<rparr>;
                              s = upd_task c (\<lambda>k. k\<lparr>t_kstack := True, t_mm := Some c_mm, t_parent := Some cur,
                                    t_files := t_files (ks_task s cur), t_pid := int pid\<rparr>) s
                          in Some (upd_task cur (\<lambda>k. k\<lparr>t_children := c # t_children k\<rparr>) s, Inr c))))"

definition sys_fork :: "fork_mem \<Rightarrow> ksys \<Rightarrow> (ksys \<times> int) option" where
  "sys_fork fm s =
     (case copy_process fm s of
        None \<Rightarrow> None
      | Some (s', Inl e) \<Rightarrow> Some (s', - errno_val e)
      | Some (s', Inr c) \<Rightarrow> Some (scheduler_add c s', t_pid (ks_task s' c)))"

text \<open>The error of \<open>pid_alloc\<close> is compared with -1, which it never is.\<close>

definition kernel_thread :: "nat option \<Rightarrow> bool \<Rightarrow> ksys \<Rightarrow> (ksys \<times> int) option" where
  "kernel_thread mem stack s =
     (case task_create mem 0 s of
        (s, None) \<Rightarrow> Some (s, - errno_val ENOMEM)
      | (s, Some t) \<Rightarrow>
          if \<not> stack then Some (drop_task t s, - errno_val ENOMEM)
          else case pid_alloc (ks_pids s) of
              None \<Rightarrow> None
            | Some (ps, r) \<Rightarrow>
                let pid = (case r of Inl e \<Rightarrow> - errno_val e | Inr i \<Rightarrow> int i);
                    s = upd_task t (\<lambda>k. k\<lparr>t_pid := pid\<rparr>) (s\<lparr>ks_pids := ps\<rparr>)
                in if pid = -1 then Some (drop_task t s, - errno_val ENOENT)
                   else let s = upd_task t (\<lambda>k. k\<lparr>t_kstack := True, t_state := TASK_READY\<rparr>) s
                        in Some (scheduler_add t s, pid))"

subsection \<open>Wait queues\<close>

record wait_entry =
  we_private :: nat
  we_callback :: "(nat \<Rightarrow> ksys \<Rightarrow> ksys \<times> int) option"

definition wait_queue_add :: "wait_entry \<Rightarrow> wait_entry list \<Rightarrow> wait_entry list" where
  "wait_queue_add e q = q @ [e]"

fun wake_loop :: "wait_entry list \<Rightarrow> int \<Rightarrow> ksys \<Rightarrow> (ksys \<times> int) option" where
  "wake_loop [] count s = Some (s, count)"
| "wake_loop (e # es) count s =
     (case we_callback e of
        None \<Rightarrow> None
      | Some cb \<Rightarrow>
          (case cb (we_private e) s of (s', ret) \<Rightarrow>
             if ret < 0 then Some (s', count)
             else if ret \<noteq> 0 then (if count - 1 = 0 then Some (s', count - 1) else wake_loop es (count - 1) s')
             else wake_loop es count s'))"

definition wake_up :: "wait_entry list \<Rightarrow> int \<Rightarrow> ksys \<Rightarrow> (ksys \<times> int) option" where
  "wake_up q count s = (if q = [] then Some (s, 0) else map_option (\<lambda>(s', c). (s', count - c)) (wake_loop q count s))"

end
