(* ===== verification/Wey_Sched.thy ===== *)
theory Wey_Sched
  imports Wey_Task
begin

text \<open>
  The scheduler as a state machine: the steps the running kernel takes (a rescheduling, a task
  going to sleep, a wake-up, an exit, a fork, a parent collecting a child), the invariant of the
  ready queue, of the family tree and of the process identifiers, and what follows from it:
  round-robin progress, an exit that never returns, and the soundness of \<open>waitpid\<close>.
\<close>

subsection \<open>The invariant\<close>

text \<open>
  The queue: the ready tasks are exactly the live tasks in state \<open>NEW\<close> or \<open>READY\<close>, once each;
  only the current task, and the idle task, are \<open>RUNNING\<close>.
\<close>

definition queue_ok :: "ksys \<Rightarrow> bool" where
  "queue_ok s \<longleftrightarrow> distinct (ks_ready s) \<and> set (ks_ready s) \<subseteq> ks_live s - {ks_current s, ks_idle s}
     \<and> ks_current s \<in> ks_live s \<and> ks_idle s \<in> ks_live s \<and> state_of s (ks_idle s) = TASK_RUNNING
     \<and> (\<forall>t\<in>ks_live s - {ks_current s, ks_idle s}.
          state_of s t \<noteq> TASK_RUNNING \<and> (t \<in> set (ks_ready s) \<longleftrightarrow> state_of s t \<in> {TASK_NEW, TASK_READY}))"

definition running :: "ksys \<Rightarrow> bool" where
  "running s \<longleftrightarrow> state_of s (ks_current s) = TASK_RUNNING"

text \<open>The family: a parent is alive, not a zombie, and lists exactly its children, once each.\<close>

definition family_ok :: "ksys \<Rightarrow> bool" where
  "family_ok s \<longleftrightarrow> (\<forall>t\<in>ks_live s. distinct (t_children (ks_task s t))
        \<and> set (t_children (ks_task s t)) = {c \<in> ks_live s. t_parent (ks_task s c) = Some t})
     \<and> (\<forall>t\<in>ks_live s. \<forall>p. t_parent (ks_task s t) = Some p \<longrightarrow>
          p \<in> ks_live s \<and> state_of s p \<noteq> TASK_ZOMBIE \<and> p \<noteq> t \<and> p \<noteq> ks_idle s)
     \<and> ks_init s \<in> ks_live s \<and> state_of s (ks_init s) \<noteq> TASK_ZOMBIE \<and> ks_init s \<noteq> ks_idle s
     \<and> t_parent (ks_task s (ks_init s)) = None \<and> t_pid (ks_task s (ks_init s)) = 1
     \<and> t_parent (ks_task s (ks_idle s)) = None \<and> t_children (ks_task s (ks_idle s)) = []"

text \<open>The identifiers of the live tasks other than idle are those handed out, each to one task.\<close>

definition pids_ok :: "ksys \<Rightarrow> bool" where
  "pids_ok s \<longleftrightarrow> ks_idle s \<in> ks_live s \<and> t_pid (ks_task s (ks_idle s)) = 0
     \<and> inj_on (\<lambda>t. t_pid (ks_task s t)) (ks_live s)
     \<and> (\<forall>t\<in>ks_live s. 0 \<le> t_pid (ks_task s t))
     \<and> pid_owned (ks_pids s) ((\<lambda>t. nat (t_pid (ks_task s t))) ` (ks_live s - {ks_idle s}))"

definition sched_inv :: "ksys \<Rightarrow> bool" where
  "sched_inv s \<longleftrightarrow> ks_scheduling s \<and> queue_ok s \<and> running s \<and> family_ok s \<and> pids_ok s"

lemma queue_okD:
  assumes "queue_ok s"
  shows "distinct (ks_ready s)" and "set (ks_ready s) \<subseteq> ks_live s - {ks_current s, ks_idle s}"
    and "ks_current s \<in> ks_live s" and "ks_idle s \<in> ks_live s" and "state_of s (ks_idle s) = TASK_RUNNING"
    and "t \<in> ks_live s \<Longrightarrow> t \<noteq> ks_current s \<Longrightarrow> t \<noteq> ks_idle s \<Longrightarrow>
      state_of s t \<noteq> TASK_RUNNING \<and> (t \<in> set (ks_ready s) \<longleftrightarrow> state_of s t \<in> {TASK_NEW, TASK_READY})"
  using assms unfolding queue_ok_def by blast+

lemma family_okD:
  assumes "family_ok s"
  shows "t \<in> ks_live s \<Longrightarrow> distinct (t_children (ks_task s t))"
    and "t \<in> ks_live s \<Longrightarrow> set (t_children (ks_task s t)) = {c \<in> ks_live s. t_parent (ks_task s c) = Some t}"
    and "t \<in> ks_live s \<Longrightarrow> t_parent (ks_task s t) = Some p \<Longrightarrow>
      p \<in> ks_live s \<and> state_of s p \<noteq> TASK_ZOMBIE \<and> p \<noteq> t \<and> p \<noteq> ks_idle s"
    and "ks_init s \<in> ks_live s" and "state_of s (ks_init s) \<noteq> TASK_ZOMBIE" and "ks_init s \<noteq> ks_idle s"
    and "t_parent (ks_task s (ks_init s)) = None" and "t_pid (ks_task s (ks_init s)) = 1"
    and "t_parent (ks_task s (ks_idle s)) = None" and "t_children (ks_task s (ks_idle s)) = []"
  using assms unfolding family_ok_def by blast+

lemma family_okI:
  assumes "\<And>t. t \<in> ks_live s \<Longrightarrow> distinct (t_children (ks_task s t))"
    and "\<And>t. t \<in> ks_live s \<Longrightarrow> set (t_children (ks_task s t)) = {c \<in> ks_live s. t_parent (ks_task s c) = Some t}"
    and "\<And>t p. t \<in> ks_live s \<Longrightarrow> t_parent (ks_task s t) = Some p \<Longrightarrow>
      p \<in> ks_live s \<and> state_of s p \<noteq> TASK_ZOMBIE \<and> p \<noteq> t \<and> p \<noteq> ks_idle s"
    and "ks_init s \<in> ks_live s" and "state_of s (ks_init s) \<noteq> TASK_ZOMBIE" and "ks_init s \<noteq> ks_idle s"
    and "t_parent (ks_task s (ks_init s)) = None" and "t_pid (ks_task s (ks_init s)) = 1"
    and "t_parent (ks_task s (ks_idle s)) = None" and "t_children (ks_task s (ks_idle s)) = []"
  shows "family_ok s"
  using assms unfolding family_ok_def by blast

text \<open>Two states that agree on a part satisfy the same part of the invariant.\<close>

lemma family_ok_cong:
  assumes "family_ok s" and "ks_live s' = ks_live s" and "ks_init s' = ks_init s" and "ks_idle s' = ks_idle s"
    and "ks_idle s \<in> ks_live s"
    and "\<And>t. t \<in> ks_live s \<Longrightarrow> t_children (ks_task s' t) = t_children (ks_task s t)
      \<and> t_parent (ks_task s' t) = t_parent (ks_task s t) \<and> t_pid (ks_task s' t) = t_pid (ks_task s t)
      \<and> (state_of s' t = TASK_ZOMBIE \<longleftrightarrow> state_of s t = TASK_ZOMBIE)"
  shows "family_ok s'"
proof -
  note f = family_okD [OF assms(1)]
  have ch: "t_children (ks_task s' t) = t_children (ks_task s t)" and pa: "t_parent (ks_task s' t) = t_parent (ks_task s t)"
    and pi: "t_pid (ks_task s' t) = t_pid (ks_task s t)"
    and zo: "state_of s' t = TASK_ZOMBIE \<longleftrightarrow> state_of s t = TASK_ZOMBIE" if "t \<in> ks_live s" for t
    using assms(6) [OF that] by blast+
  have cs: "{c \<in> ks_live s. t_parent (ks_task s' c) = Some t} = {c \<in> ks_live s. t_parent (ks_task s c) = Some t}" for t
    using pa by auto
  show ?thesis
  proof (rule family_okI, unfold assms(2-4) cs)
    fix t assume t: "t \<in> ks_live s"
    show "distinct (t_children (ks_task s' t))" using ch [OF t] f(1) [OF t] by simp
    show "set (t_children (ks_task s' t)) = {c \<in> ks_live s. t_parent (ks_task s c) = Some t}" using ch [OF t] f(2) [OF t] by simp
    fix p assume "t_parent (ks_task s' t) = Some p"
    then have "p \<in> ks_live s \<and> state_of s p \<noteq> TASK_ZOMBIE \<and> p \<noteq> t \<and> p \<noteq> ks_idle s" using f(3) [OF t] pa [OF t] by simp
    then show "p \<in> ks_live s \<and> state_of s' p \<noteq> TASK_ZOMBIE \<and> p \<noteq> t \<and> p \<noteq> ks_idle s" using zo by blast
  qed (use f(4-10) ch [OF assms(5)] pa [OF assms(5)] pa [OF f(4)] pi [OF f(4)] zo [OF f(4)] in simp_all)
qed

lemma pids_ok_cong:
  assumes "pids_ok s" and "ks_live s' = ks_live s" and "ks_idle s' = ks_idle s" and "ks_pids s' = ks_pids s"
    and "\<And>t. t \<in> ks_live s \<Longrightarrow> t_pid (ks_task s' t) = t_pid (ks_task s t)"
  shows "pids_ok s'"
proof -
  have "(\<lambda>t. nat (t_pid (ks_task s' t))) ` (ks_live s - {ks_idle s}) = (\<lambda>t. nat (t_pid (ks_task s t))) ` (ks_live s - {ks_idle s})"
    using assms(5) by auto
  moreover have "inj_on (\<lambda>t. t_pid (ks_task s' t)) (ks_live s) \<longleftrightarrow> inj_on (\<lambda>t. t_pid (ks_task s t)) (ks_live s)"
    using assms(5) by (auto simp: inj_on_def)
  ultimately show ?thesis using assms(1,5) unfolding pids_ok_def assms(2-4) by simp
qed

lemma pids_ok_nonzero: "pids_ok s \<Longrightarrow> t \<in> ks_live s \<Longrightarrow> t \<noteq> ks_idle s \<Longrightarrow> t_pid (ks_task s t) \<noteq> 0"
  unfolding pids_ok_def inj_on_def by metis

subsection \<open>Rescheduling\<close>

lemma task_release_fields [simp]:
  "ks_live (task_release t s) = ks_live s" "ks_ready (task_release t s) = ks_ready s"
  "ks_current (task_release t s) = ks_current s" "ks_idle (task_release t s) = ks_idle s"
  "ks_init (task_release t s) = ks_init s" "ks_scheduling (task_release t s) = ks_scheduling s"
  "ks_pids (task_release t s) = ks_pids s" "state_of (task_release t s) u = state_of s u"
  "t_pid (ks_task (task_release t s) u) = t_pid (ks_task s u)"
  "t_children (ks_task (task_release t s) u) = t_children (ks_task s u)"
  "t_parent (ks_task (task_release t s) u) = t_parent (ks_task s u)"
  "t_files (ks_task (task_release t s) u) = t_files (ks_task s u)"
  "t_exit_code (ks_task (task_release t s) u) = t_exit_code (ks_task s u)"
  by (auto simp: task_release_def task_destroy_mm_def split: option.split)

text \<open>What a rescheduling leaves alone, whatever it decides.\<close>

lemma handle_prev_fields [simp]:
  "ks_live (task_handle_prev_status t s) = ks_live s" "ks_current (task_handle_prev_status t s) = ks_current s"
  "ks_idle (task_handle_prev_status t s) = ks_idle s" "ks_init (task_handle_prev_status t s) = ks_init s"
  "ks_scheduling (task_handle_prev_status t s) = ks_scheduling s" "ks_pids (task_handle_prev_status t s) = ks_pids s"
  "t_pid (ks_task (task_handle_prev_status t s) u) = t_pid (ks_task s u)"
  "t_children (ks_task (task_handle_prev_status t s) u) = t_children (ks_task s u)"
  "t_parent (ks_task (task_handle_prev_status t s) u) = t_parent (ks_task s u)"
  "state_of (task_handle_prev_status t s) u = TASK_ZOMBIE \<longleftrightarrow> state_of s u = TASK_ZOMBIE"
  by (auto simp: task_handle_prev_status_def scheduler_add_def split: task_state.split)

lemma schedule_cases:
  assumes "ks_scheduling s"
  obtains (stay) "ks_ready s = []" "state_of s (ks_current s) \<noteq> TASK_BLOCKED" "schedule s = s"
  | (idle) "ks_ready s = []" "state_of s (ks_current s) = TASK_BLOCKED"
      "schedule s = context_switch (ks_current s) (ks_idle s) s"
  | (switch) t ts where "ks_ready s = t # ts"
      "schedule s = context_switch (ks_current s) t (s\<lparr>ks_ready := ts\<rparr>)"
proof (cases "ks_ready s")
  case Nil
  then show ?thesis
    using assms stay idle
    by (cases "state_of s (ks_current s) = TASK_BLOCKED")
      (simp_all add: schedule_def next_task_def context_switch_def)
next
  case (Cons t ts)
  then show ?thesis using assms switch by (simp add: schedule_def next_task_def)
qed

lemma context_switch_fields [simp]:
  "ks_live (context_switch p t s) = ks_live s"
  "ks_idle (context_switch p t s) = ks_idle s" "ks_init (context_switch p t s) = ks_init s"
  "ks_scheduling (context_switch p t s) = ks_scheduling s" "ks_pids (context_switch p t s) = ks_pids s"
  "t_pid (ks_task (context_switch p t s) u) = t_pid (ks_task s u)"
  "t_children (ks_task (context_switch p t s) u) = t_children (ks_task s u)"
  "t_parent (ks_task (context_switch p t s) u) = t_parent (ks_task s u)"
  by (simp_all add: context_switch_def cpu_update_current_task_def)

lemma context_switch_zombie:
  "state_of s t \<noteq> TASK_ZOMBIE \<Longrightarrow> state_of (context_switch p t s) u = TASK_ZOMBIE \<longleftrightarrow> state_of s u = TASK_ZOMBIE"
  by (auto simp: context_switch_def cpu_update_current_task_def)

text \<open>The state after switching from the current task \<open>p\<close> to another task \<open>t\<close>.\<close>

lemma switch_result:
  assumes "p = ks_current s" and "t \<noteq> p" and "t_pid (ks_task s p) = 0 \<Longrightarrow> state_of s p = TASK_RUNNING \<Longrightarrow> p = ks_idle s"
  shows "ks_current (context_switch p t s) = t"
    and "ks_ready (context_switch p t s) =
      (if state_of s p = TASK_RUNNING \<and> t_pid (ks_task s p) \<noteq> 0 then ks_ready s @ [p] else ks_ready s)"
    and "state_of (context_switch p t s) u = (if u = t then TASK_RUNNING
      else if u = p \<and> state_of s p = TASK_RUNNING \<and> t_pid (ks_task s p) \<noteq> 0 then TASK_READY else state_of s u)"
  using assms
  by (auto simp: context_switch_def cpu_update_current_task_def task_handle_prev_status_def scheduler_add_def
    split: task_state.split)

lemma queue_switch:
  assumes "queue_ok s" and "pids_ok s" and "t \<in> ks_live s" and "t \<noteq> ks_current s"
    and "state_of s (ks_current s) \<notin> {TASK_NEW, TASK_READY}"
    and "ks_ready s = (if t = ks_idle s then ts else t # ts)"
  defines "s' \<equiv> context_switch (ks_current s) t (s\<lparr>ks_ready := ts\<rparr>)"
  shows "queue_ok s' \<and> running s' \<and> ks_current s' = t"
proof -
  let ?p = "ks_current s"
  have q: "distinct (ks_ready s)" "set (ks_ready s) \<subseteq> ks_live s - {?p, ks_idle s}" "?p \<in> ks_live s"
    "ks_idle s \<in> ks_live s" "state_of s (ks_idle s) = TASK_RUNNING"
    and st: "\<And>u. u \<in> ks_live s \<Longrightarrow> u \<noteq> ?p \<Longrightarrow> u \<noteq> ks_idle s \<Longrightarrow>
      state_of s u \<noteq> TASK_RUNNING \<and> (u \<in> set (ks_ready s) \<longleftrightarrow> state_of s u \<in> {TASK_NEW, TASK_READY})"
    using assms(1) by (auto simp: queue_ok_def)
  have pz: "t_pid (ks_task s ?p) = 0 \<longleftrightarrow> ?p = ks_idle s"
    using pids_ok_nonzero [OF assms(2) q(3)] assms(2) by (auto simp: pids_ok_def)
  let ?requeue = "state_of s ?p = TASK_RUNNING \<and> ?p \<noteq> ks_idle s"
  have c: "ks_current s' = t"
    unfolding s'_def using assms(4) by (subst switch_result(1)) (simp_all add: pz)
  have r: "ks_ready s' = (if ?requeue then ts @ [?p] else ts)"
    unfolding s'_def using assms(4) by (subst switch_result(2)) (simp_all add: pz)
  have so: "state_of s' u = (if u = t then TASK_RUNNING else if u = ?p \<and> ?requeue then TASK_READY else state_of s u)" for u
    unfolding s'_def using assms(4) by (subst switch_result(3)) (simp_all add: pz)
  have ts: "t \<notin> set ts" "distinct ts" "set ts \<subseteq> ks_live s - {?p, ks_idle s, t}"
    "\<And>u. u \<noteq> t \<Longrightarrow> u \<in> set ts \<longleftrightarrow> u \<in> set (ks_ready s)"
    using q(1,2) assms(6) by (auto split: if_splits)
  have live: "ks_live s' = ks_live s" "ks_idle s' = ks_idle s" by (simp_all add: s'_def)
  have "state_of s' u \<noteq> TASK_RUNNING \<and> (u \<in> set (ks_ready s') \<longleftrightarrow> state_of s' u \<in> {TASK_NEW, TASK_READY})"
    if "u \<in> ks_live s" "u \<noteq> t" "u \<noteq> ks_idle s" for u
  proof (cases "u = ?p")
    case True
    then show ?thesis using that ts assms(5) by (auto simp: so r)
  next
    case False
    then show ?thesis using that ts(4) st by (auto simp: so r)
  qed
  moreover have "set (ks_ready s') \<subseteq> ks_live s - {t, ks_idle s}" "distinct (ks_ready s')"
    using ts q(2,3) assms(4) by (auto simp: r)
  ultimately show ?thesis
    using q(4,5) assms(3,4) unfolding queue_ok_def running_def c live by (auto simp: so)
qed

lemma schedule_inv:
  assumes "ks_scheduling s" and "queue_ok s" and "pids_ok s" and "family_ok s"
    and "state_of s (ks_current s) \<in> {TASK_RUNNING, TASK_BLOCKED, TASK_ZOMBIE}"
    and "state_of s (ks_current s) = TASK_ZOMBIE \<Longrightarrow> ks_ready s \<noteq> []"
  shows "sched_inv (schedule s) \<and> (state_of s (ks_current s) \<noteq> TASK_RUNNING \<longrightarrow> ks_current (schedule s) \<noteq> ks_current s)"
proof -
  have idl: "ks_idle s \<in> ks_live s" using assms(2) by (simp add: queue_ok_def)
  from assms(1) show ?thesis
  proof (cases rule: schedule_cases)
    case stay
    then show ?thesis using assms by (auto simp: sched_inv_def running_def)
  next
    case idle
    let ?s' = "context_switch (ks_current s) (ks_idle s) (s\<lparr>ks_ready := []\<rparr>)"
    have e: "s\<lparr>ks_ready := []\<rparr> = s" using idle(1) by simp
    have ne: "ks_idle s \<noteq> ks_current s" using assms(2) idle(2) by (auto simp: queue_ok_def)
    have "ks_idle s \<in> ks_live s" using assms(2) by (simp add: queue_ok_def)
    then have r: "queue_ok ?s' \<and> running ?s' \<and> ks_current ?s' = ks_idle s"
      using idle(1) assms(2,3,5) ne by (intro queue_switch) auto
    have "state_of s (ks_idle s) \<noteq> TASK_ZOMBIE" using assms(2) by (simp add: queue_ok_def)
    then have "family_ok ?s'" using idl by (intro family_ok_cong [OF assms(4)]) (simp_all add: context_switch_zombie)
    moreover have "pids_ok ?s'" using assms(3) by (rule pids_ok_cong) simp_all
    ultimately show ?thesis using r ne assms(1) idle(3) by (simp add: sched_inv_def e)
  next
    case (switch t ts)
    let ?s' = "context_switch (ks_current s) t (s\<lparr>ks_ready := ts\<rparr>)"
    have t: "t \<in> ks_live s" "t \<noteq> ks_current s" "t \<noteq> ks_idle s" "state_of s t \<in> {TASK_NEW, TASK_READY}"
      using assms(2) switch(1) by (auto simp: queue_ok_def)
    have r: "queue_ok ?s' \<and> running ?s' \<and> ks_current ?s' = t"
      using switch(1) assms(2,3,5) t by (intro queue_switch) auto
    have "state_of s t \<noteq> TASK_ZOMBIE" using t(4) by auto
    then have "family_ok ?s'" using idl by (intro family_ok_cong [OF assms(4)]) (simp_all add: context_switch_zombie)
    moreover have "pids_ok ?s'" using assms(3) by (rule pids_ok_cong) simp_all
    ultimately show ?thesis using r t assms(1) switch(2) by (simp add: sched_inv_def)
  qed
qed

subsection \<open>Sleeping, waking and exiting\<close>

lemma live_facts:
  assumes "sched_inv s"
  shows "ks_idle s \<in> ks_live s" and "ks_current s \<in> ks_live s" and "queue_ok s" and "family_ok s" and "pids_ok s"
    and "ks_scheduling s" and "state_of s (ks_current s) = TASK_RUNNING"
  using assms by (simp_all add: sched_inv_def queue_ok_def running_def)

lemma sleep_inv:
  assumes "sched_inv s" and "ks_current s \<noteq> ks_idle s"
  shows "sched_inv (sleep_current s)"
proof -
  note lf = live_facts [OF assms(1)]
  let ?s = "task_sleep (ks_current s) s"
  have "queue_ok ?s" using lf(3) assms(2) unfolding queue_ok_def by (auto simp: task_sleep_def)
  moreover have "family_ok ?s" using lf(1,7) by (intro family_ok_cong [OF lf(4)]) (auto simp: task_sleep_def)
  moreover have "pids_ok ?s" by (rule pids_ok_cong [OF lf(5)]) (simp_all add: task_sleep_def)
  ultimately show ?thesis
    unfolding sleep_current_def using lf(6) by (intro schedule_inv [THEN conjunct1]) (simp_all add: task_sleep_def)
qed

lemma wakeup_queue:
  assumes "queue_ok s" and "t \<in> ks_live s" and "state_of s (ks_current s) \<noteq> TASK_BLOCKED"
  shows "queue_ok (task_wakeup t s)"
proof (cases "state_of s t = TASK_BLOCKED")
  case True
  then have t: "t \<noteq> ks_current s" "t \<noteq> ks_idle s" using assms queue_okD(5) by auto
  then have "t \<notin> set (ks_ready s)" using queue_okD(6) [OF assms(1,2)] True by auto
  then show ?thesis
    using assms(1,2) True t unfolding queue_ok_def by (auto simp: task_wakeup_def scheduler_add_def)
qed (use assms(1) in \<open>simp add: task_wakeup_def\<close>)

lemma wakeup_fields [simp]:
  "ks_live (task_wakeup t s) = ks_live s" "ks_idle (task_wakeup t s) = ks_idle s" "ks_init (task_wakeup t s) = ks_init s"
  "ks_current (task_wakeup t s) = ks_current s" "ks_scheduling (task_wakeup t s) = ks_scheduling s"
  "ks_pids (task_wakeup t s) = ks_pids s" "t_children (ks_task (task_wakeup t s) u) = t_children (ks_task s u)"
  "t_parent (ks_task (task_wakeup t s) u) = t_parent (ks_task s u)"
  "t_pid (ks_task (task_wakeup t s) u) = t_pid (ks_task s u)"
  "state_of (task_wakeup t s) u = TASK_ZOMBIE \<longleftrightarrow> state_of s u = TASK_ZOMBIE"
  "state_of s u \<noteq> TASK_BLOCKED \<Longrightarrow> state_of (task_wakeup t s) u = state_of s u"
  by (auto simp: task_wakeup_def scheduler_add_def)

lemma wakeup_inv:
  assumes "sched_inv s" and "t \<in> ks_live s"
  shows "sched_inv (task_wakeup t s)"
proof -
  note lf = live_facts [OF assms(1)]
  have "queue_ok (task_wakeup t s)" using lf assms(2) by (intro wakeup_queue) simp_all
  moreover have "family_ok (task_wakeup t s)" using lf(1) by (intro family_ok_cong [OF lf(4)]) simp_all
  moreover have "pids_ok (task_wakeup t s)" by (rule pids_ok_cong [OF lf(5)]) simp_all
  ultimately show ?thesis using lf(6,7) by (simp add: sched_inv_def running_def)
qed

text \<open>The effect of the reparenting loop.\<close>

lemma reparent_fields [simp]:
  "ks_live (reparent_loop t np cs s) = ks_live s" "ks_ready (reparent_loop t np cs s) = ks_ready s"
  "ks_current (reparent_loop t np cs s) = ks_current s" "ks_idle (reparent_loop t np cs s) = ks_idle s"
  "ks_init (reparent_loop t np cs s) = ks_init s" "ks_scheduling (reparent_loop t np cs s) = ks_scheduling s"
  "ks_pids (reparent_loop t np cs s) = ks_pids s" "state_of (reparent_loop t np cs s) u = state_of s u"
  "t_pid (ks_task (reparent_loop t np cs s) u) = t_pid (ks_task s u)"
  by (induction cs arbitrary: s) simp_all

lemma reparent_parent:
  "t_parent (ks_task (reparent_loop t np cs s) u) = (if u \<in> set cs then Some np else t_parent (ks_task s u))"
  by (induction cs arbitrary: s) simp_all

lemma reparent_children:
  assumes "t \<noteq> np" and "set cs \<inter> {t, np} = {}"
  shows "t_children (ks_task (reparent_loop t np cs s) u) =
    (if u = np then rev cs @ t_children (ks_task s np)
     else if u = t then fold remove1 cs (t_children (ks_task s t)) else t_children (ks_task s u))"
  using assms
proof (induction cs arbitrary: s)
  case (Cons c cs)
  then show ?case by simp
qed simp

lemma fold_remove1_self: "fold remove1 cs cs = []"
proof -
  have "fold remove1 cs (cs @ ds) = ds" for ds :: "'a list" by (induction cs arbitrary: ds) simp_all
  from this [of "[]"] show ?thesis by simp
qed

text \<open>Exit: the family after reparenting, with the exiting task a zombie.\<close>

lemma exit_family:
  assumes "family_ok s" and "ks_idle s \<in> ks_live s" and "t \<in> ks_live s" and "t \<noteq> ks_init s" and "t \<noteq> ks_idle s"
    and s1_def: "s1 = upd_task t (\<lambda>k. k\<lparr>t_exit_code := e, t_state := TASK_ZOMBIE\<rparr>) s"
  shows "family_ok (task_reparent_children t (ks_init s) s1)"
proof -
  note f = family_okD [OF assms(1)]
  let ?cs = "t_children (ks_task s t)" and ?i = "ks_init s"
  let ?s = "task_reparent_children t ?i s1"
  have cs: "set ?cs = {c \<in> ks_live s. t_parent (ks_task s c) = Some t}" by (rule f(2) [OF assms(3)])
  have tc: "t \<notin> set ?cs" using f(3) [OF assms(3)] cs by auto
  have ic: "?i \<notin> set ?cs" "ks_idle s \<notin> set ?cs" using f(7,9) cs by auto
  have s: "?s = reparent_loop t ?i ?cs s1" by (simp add: task_reparent_children_def s1_def)
  have fld: "ks_live ?s = ks_live s" "ks_init ?s = ?i" "ks_idle ?s = ks_idle s" unfolding s by (simp_all add: s1_def)
  have pid: "t_pid (ks_task ?s u) = t_pid (ks_task s u)" for u unfolding s by (simp add: s1_def)
  have st: "state_of ?s u = (if u = t then TASK_ZOMBIE else state_of s u)" for u unfolding s by (simp add: s1_def)
  have pa: "t_parent (ks_task ?s u) = (if u \<in> set ?cs then Some ?i else t_parent (ks_task s u))" for u
    unfolding s by (simp add: s1_def reparent_parent)
  have ch: "t_children (ks_task ?s u) = (if u = ?i then rev ?cs @ t_children (ks_task s ?i) else if u = t then []
      else t_children (ks_task s u))" for u
    using assms(4) tc ic unfolding s by (subst reparent_children) (simp_all add: s1_def fold_remove1_self)
  have kids: "{c \<in> ks_live s. t_parent (ks_task ?s c) = Some u} =
      (if u = ?i then set ?cs \<union> set (t_children (ks_task s ?i)) else if u = t then {} else set (t_children (ks_task s u)))"
    if "u \<in> ks_live s" for u
    using f(2) [OF that] f(2) [OF f(4)] cs that assms(4) unfolding pa by auto
  have dis: "set ?cs \<inter> set (t_children (ks_task s ?i)) = {}" using f(2) [OF f(4)] cs assms(4) by auto
  show ?thesis
  proof (rule family_okI, unfold fld)
    fix u assume u: "u \<in> ks_live s"
    show "distinct (t_children (ks_task ?s u))" unfolding ch using f(1) [OF assms(3)] f(1) [OF f(4)] f(1) [OF u] dis by simp
    show "set (t_children (ks_task ?s u)) = {c \<in> ks_live s. t_parent (ks_task ?s c) = Some u}"
      unfolding kids [OF u] ch by simp
    fix p assume p: "t_parent (ks_task ?s u) = Some p"
    show "p \<in> ks_live s \<and> state_of ?s p \<noteq> TASK_ZOMBIE \<and> p \<noteq> u \<and> p \<noteq> ks_idle s"
    proof (cases "u \<in> set ?cs")
      case True
      then have "p = ?i" using p by (simp add: pa)
      then show ?thesis using f(4-6) assms(4) ic True by (auto simp: st)
    next
      case False
      then have "t_parent (ks_task s u) = Some p" using p by (simp add: pa)
      moreover from this have "p \<noteq> t" using False cs u by auto
      ultimately show ?thesis using f(3) [OF u] by (auto simp: st)
    qed
  qed (use f(4-10) assms(4,5) ic in \<open>simp_all add: st pid pa ch\<close>)
qed

lemma schedule_fields [simp]:
  "t_parent (ks_task (schedule s) u) = t_parent (ks_task s u)"
  "t_exit_code (ks_task (schedule s) u) = t_exit_code (ks_task s u)"
  by (simp_all add: schedule_def next_task_def context_switch_def cpu_update_current_task_def
    task_handle_prev_status_def scheduler_add_def Let_def split: list.split task_state.split)

lemma exit_code_fields [simp]:
  "t_exit_code (ks_task (reparent_loop t np cs s) u) = t_exit_code (ks_task s u)"
  "t_exit_code (ks_task (task_wakeup t s) u) = t_exit_code (ks_task s u)"
  by (induction cs arbitrary: s) (simp_all add: task_wakeup_def scheduler_add_def)

lemma schedule_zombie:
  assumes "queue_ok s" and "state_of s u = TASK_ZOMBIE"
  shows "state_of (schedule s) u = TASK_ZOMBIE"
proof (cases "ks_scheduling s")
  case True
  then show ?thesis
  proof (cases rule: schedule_cases)
    case stay
    then show ?thesis using assms(2) by simp
  next
    case idle
    then show ?thesis using assms queue_okD(5) [OF assms(1)] by (simp add: context_switch_zombie)
  next
    case (switch t ts)
    have "t \<in> ks_live s" "t \<noteq> ks_current s" "t \<noteq> ks_idle s" using queue_okD(2) [OF assms(1)] switch(1) by auto
    then have "state_of s t \<in> {TASK_NEW, TASK_READY}" using queue_okD(6) [OF assms(1)] switch(1) by auto
    then show ?thesis using switch(2) assms(2) by (auto simp: context_switch_zombie)
  qed
qed (simp add: schedule_def assms(2))

lemma exit_inv:
  assumes "sched_inv s" and "ks_current s \<noteq> ks_idle s" and "sys_exit e s = Some s'"
  shows "sched_inv s' \<and> ks_current s' \<noteq> ks_current s \<and> state_of s' (ks_current s) = TASK_ZOMBIE
    \<and> t_exit_code (ks_task s' (ks_current s)) = e
    \<and> (\<forall>c\<in>ks_live s. t_parent (ks_task s c) = Some (ks_current s) \<longrightarrow> t_parent (ks_task s' c) = Some (ks_init s))"
proof -
  note lf = live_facts [OF assms(1)]
  note f = family_okD [OF lf(4)]
  let ?t = "ks_current s"
  let ?s1 = "upd_task ?t (\<lambda>k. k\<lparr>t_exit_code := e, t_state := TASK_ZOMBIE\<rparr>) s"
  let ?s2 = "task_reparent_children ?t (ks_init s) ?s1"
  have ti: "?t \<noteq> ks_init s" using assms(3) f(8) by (auto simp: sys_exit_def task_exit_def)
  have tc: "?t \<notin> set (t_children (ks_task s ?t))" using f(2) [OF lf(2)] f(3) [OF lf(2)] by auto
  have par: "t_parent (ks_task ?s2 ?t) = t_parent (ks_task s ?t)"
    using tc by (simp add: task_reparent_children_def reparent_parent)
  have te: "task_exit ?t e s = (case t_parent (ks_task ?s2 ?t) of None \<Rightarrow> None | Some p \<Rightarrow> Some (task_wakeup p ?s2))
      \<or> task_exit ?t e s = None"
    by (simp add: task_exit_def Let_def split: option.split)
  then obtain p where p: "t_parent (ks_task s ?t) = Some p" "task_exit ?t e s = Some (task_wakeup p ?s2)"
    using assms(3) par by (cases "t_parent (ks_task s ?t)") (auto simp: sys_exit_def)
  have pp: "p \<in> ks_live s" "state_of s p \<noteq> TASK_ZOMBIE" "p \<noteq> ?t" "p \<noteq> ks_idle s" using f(3) [OF lf(2) p(1)] by auto
  have st: "state_of ?s2 u = (if u = ?t then TASK_ZOMBIE else state_of s u)" for u by (simp add: task_reparent_children_def)
  have fld: "ks_live ?s2 = ks_live s" "ks_idle ?s2 = ks_idle s" "ks_current ?s2 = ?t" "ks_ready ?s2 = ks_ready s"
    "ks_scheduling ?s2 = ks_scheduling s" by (simp_all add: task_reparent_children_def)
  have q: "queue_ok ?s2" using lf(3) assms(2) unfolding queue_ok_def fld st by auto
  have qw: "queue_ok (task_wakeup p ?s2)" using pp(1) by (intro wakeup_queue [OF q]) (simp_all add: fld st)
  have "family_ok ?s2" using lf ti assms(2) by (intro exit_family) simp_all
  then have fw: "family_ok (task_wakeup p ?s2)" by (rule family_ok_cong) (use lf(1) fld in simp_all)
  have pw: "pids_ok (task_wakeup p ?s2)" by (rule pids_ok_cong [OF lf(5)]) (simp_all add: task_reparent_children_def)
  have "ks_ready (task_wakeup p ?s2) \<noteq> []"
  proof (cases "state_of s p = TASK_BLOCKED")
    case True
    then show ?thesis using pp(3) by (simp add: task_wakeup_def scheduler_add_def st)
  next
    case False
    then have "state_of s p \<in> {TASK_NEW, TASK_READY}"
      using queue_okD(6) [OF lf(3) pp(1,3,4)] pp(2) by (cases "state_of s p") auto
    then have "p \<in> set (ks_ready s)" using queue_okD(6) [OF lf(3) pp(1,3,4)] by blast
    then show ?thesis using False pp(3) by (auto simp: task_wakeup_def st fld)
  qed
  moreover have zt: "state_of (task_wakeup p ?s2) ?t = TASK_ZOMBIE" by (simp add: st)
  moreover have s': "s' = schedule (task_wakeup p ?s2)" using assms(3) p(2) by (simp add: sys_exit_def)
  ultimately have "sched_inv s' \<and> ks_current s' \<noteq> ks_current s"
    using schedule_inv [of "task_wakeup p ?s2"] qw fw pw lf(6) by (simp add: fld)
  moreover have "state_of s' ?t = TASK_ZOMBIE" unfolding s' by (rule schedule_zombie [OF qw zt])
  moreover have "t_exit_code (ks_task s' ?t) = e" by (simp add: s' task_reparent_children_def)
  moreover have "t_parent (ks_task s' c) = Some (ks_init s)" if "c \<in> ks_live s" "t_parent (ks_task s c) = Some ?t" for c
    using f(2) [OF lf(2)] that by (simp add: s' task_reparent_children_def reparent_parent)
  ultimately show ?thesis by blast
qed

lemma exit_returns:
  assumes "sched_inv s" and "t_pid (ks_task s (ks_current s)) \<noteq> 1" and "t_parent (ks_task s (ks_current s)) \<noteq> None"
  shows "\<exists>s'. sys_exit e s = Some s'"
proof -
  note lf = live_facts [OF assms(1)]
  note f = family_okD [OF lf(4)]
  have "ks_current s \<notin> set (t_children (ks_task s (ks_current s)))" using f(2) [OF lf(2)] f(3) [OF lf(2)] by auto
  then show ?thesis
    using assms(2,3) by (auto simp: sys_exit_def task_exit_def Let_def task_reparent_children_def reparent_parent)
qed

subsection \<open>Creating and collecting tasks\<close>

abbreviation used_pids :: "ksys \<Rightarrow> nat set" where
  "used_pids s \<equiv> (\<lambda>t. nat (t_pid (ks_task s t))) ` (ks_live s - {ks_idle s})"

definition same_sched :: "ksys \<Rightarrow> ksys \<Rightarrow> bool" where
  "same_sched s s' \<longleftrightarrow> ks_current s' = ks_current s \<and> ks_idle s' = ks_idle s \<and> ks_init s' = ks_init s
     \<and> ks_scheduling s' = ks_scheduling s"

text \<open>A failed attempt leaves the live tasks as they were.\<close>

lemma sched_inv_agree:
  assumes "sched_inv s" and "same_sched s s'" and "ks_live s' = ks_live s" and "ks_ready s' = ks_ready s"
    and "\<And>t. t \<in> ks_live s \<Longrightarrow> ks_task s' t = ks_task s t" and "pid_owned (ks_pids s') (used_pids s)"
  shows "sched_inv s'"
proof -
  note lf = live_facts [OF assms(1)]
  have sm: "ks_current s' = ks_current s" "ks_idle s' = ks_idle s" "ks_init s' = ks_init s" "ks_scheduling s' = ks_scheduling s"
    using assms(2) by (simp_all add: same_sched_def)
  have "queue_ok s'" using lf(1,3) assms(5) unfolding queue_ok_def sm assms(3,4) by auto
  moreover have "family_ok s'" using lf(1) assms(5) by (intro family_ok_cong [OF lf(4)]) (simp_all add: sm assms(3))
  moreover have "pids_ok s'"
  proof -
    have "used_pids s' = used_pids s" using assms(5) by (auto simp: sm assms(3))
    moreover have "inj_on (\<lambda>t. t_pid (ks_task s' t)) (ks_live s)"
      using lf(5) assms(5) by (auto simp: pids_ok_def inj_on_def)
    ultimately show ?thesis using lf(1,5) assms(5,6) unfolding pids_ok_def by (simp add: sm assms(3))
  qed
  ultimately show ?thesis using lf assms(5) [OF lf(2)] by (simp add: sched_inv_def running_def sm)
qed

text \<open>A new task at the end of the ready queue, with or without the current task as its parent.\<close>

lemma sched_inv_add:
  assumes "sched_inv s" and "c \<notin> ks_live s" and "same_sched s s'" and "ks_live s' = insert c (ks_live s)"
    and "ks_ready s' = ks_ready s @ [c]" and "state_of s' c \<in> {TASK_NEW, TASK_READY}" and "t_children (ks_task s' c) = []"
    and old: "\<And>t. t \<in> ks_live s \<Longrightarrow> state_of s' t = state_of s t \<and> t_pid (ks_task s' t) = t_pid (ks_task s t)
      \<and> t_parent (ks_task s' t) = t_parent (ks_task s t)"
    and par: "t_parent (ks_task s' c) = None \<or> t_parent (ks_task s' c) = Some (ks_current s) \<and> ks_current s \<noteq> ks_idle s"
    and ch: "\<And>t. t \<in> ks_live s \<Longrightarrow> t_children (ks_task s' t) =
      (if t_parent (ks_task s' c) = Some t then c # t_children (ks_task s t) else t_children (ks_task s t))"
    and pid: "t_pid (ks_task s' c) = int i" "pid_get (ks_pids s) = (ks_pids s', Some i)"
  shows "sched_inv s'"
proof -
  note lf = live_facts [OF assms(1)]
  note f = family_okD [OF lf(4)]
  have sm: "ks_current s' = ks_current s" "ks_idle s' = ks_idle s" "ks_init s' = ks_init s" "ks_scheduling s' = ks_scheduling s"
    using assms(3) by (simp_all add: same_sched_def)
  have ne: "c \<noteq> ks_current s" "c \<noteq> ks_idle s" "c \<notin> set (ks_ready s)"
    using assms(2) lf(1,2) queue_okD(2) [OF lf(3)] by auto
  have q: "queue_ok s'"
    using queue_okD [OF lf(3)] ne assms(6) old unfolding queue_ok_def sm assms(4,5) by (auto split: if_splits)
  have "family_ok s'"
  proof (rule family_okI, unfold sm assms(4))
    fix t assume t: "t \<in> insert c (ks_live s)"
    have nc: "c \<notin> set (t_children (ks_task s t))" if "t \<in> ks_live s" using f(2) [OF that] assms(2) by auto
    show "distinct (t_children (ks_task s' t))"
      using t assms(7) ch f(1) nc by (cases "t = c") auto
    have "{x \<in> insert c (ks_live s). t_parent (ks_task s' x) = Some t}
        = (if t_parent (ks_task s' c) = Some t then {c} else {}) \<union> {x \<in> ks_live s. t_parent (ks_task s x) = Some t}"
      using old assms(2) by auto
    moreover have "{x \<in> ks_live s. t_parent (ks_task s x) = Some c} = {}" using f(3) assms(2) by auto
    moreover have "t_parent (ks_task s' c) \<noteq> Some c" using par ne by auto
    ultimately show "set (t_children (ks_task s' t)) = {x \<in> insert c (ks_live s). t_parent (ks_task s' x) = Some t}"
      using t assms(7) ch f(2) by (cases "t = c") auto
    fix p assume p: "t_parent (ks_task s' t) = Some p"
    show "p \<in> insert c (ks_live s) \<and> state_of s' p \<noteq> TASK_ZOMBIE \<and> p \<noteq> t \<and> p \<noteq> ks_idle s"
    proof (cases "t = c")
      case True
      then have "p = ks_current s" "p \<noteq> ks_idle s" using p par by auto
      then show ?thesis using True lf(2,7) old ne by auto
    next
      case False
      then show ?thesis using t p old f(3) [of t p] by auto
    qed
  qed (use f(4-10) old [OF f(4)] old [OF lf(1)] ch [OF lf(1)] par ne in auto)
  moreover have "pids_ok s'"
  proof -
    have own: "pid_owned (ks_pids s) (used_pids s)" using lf(5) by (simp add: pids_ok_def)
    note g = pid.get_some [OF own pid(2)]
    have d: "insert c (ks_live s) - {ks_idle s} = insert c (ks_live s - {ks_idle s})" using ne by auto
    have "(\<lambda>t. nat (t_pid (ks_task s' t))) ` (ks_live s - {ks_idle s}) = used_pids s"
      using old by (intro image_cong) auto
    then have im: "used_pids s' = insert i (used_pids s)" by (simp add: sm assms(4) d pid(1))
    have i0: "i \<noteq> 0" "i \<notin> used_pids s" using g by (auto simp: pid_owned_def)
    have "t_pid (ks_task s t) \<noteq> int i" if "t \<in> ks_live s" for t
    proof
      assume e: "t_pid (ks_task s t) = int i"
      then have "t \<noteq> ks_idle s" using i0(1) lf(5) by (auto simp: pids_ok_def)
      then have "nat (t_pid (ks_task s t)) \<in> used_pids s" using that by blast
      then show False using e i0(2) by simp
    qed
    then have "t_pid (ks_task s' c) \<notin> (\<lambda>t. t_pid (ks_task s' t)) ` (ks_live s - {c})"
      using old by (force simp: pid(1))
    moreover have "inj_on (\<lambda>t. t_pid (ks_task s' t)) (ks_live s) \<longleftrightarrow> inj_on (\<lambda>t. t_pid (ks_task s t)) (ks_live s)"
      using old by (intro inj_on_cong) simp
    ultimately have "inj_on (\<lambda>t. t_pid (ks_task s' t)) (insert c (ks_live s))"
      using lf(5) by (simp add: pids_ok_def)
    moreover have "\<forall>t\<in>insert c (ks_live s). 0 \<le> t_pid (ks_task s' t)" using lf(5) old by (auto simp: pids_ok_def pid(1))
    ultimately show ?thesis using g lf(1,5) old [OF lf(1)] unfolding pids_ok_def im unfolding sm assms(4) by simp
  qed
  ultimately show ?thesis using q lf old [OF lf(2)] by (simp add: sched_inv_def running_def sm)
qed

lemma pid_alloc_used:
  assumes "pids_ok s"
  obtains (none) "pid_alloc (ks_pids s) = Some (ks_pids s, Inl ENOENT)" "free_pids (ks_pids s) = {}"
  | (got) ps i where "pid_alloc (ks_pids s) = Some (ps, Inr i)" "pid_get (ks_pids s) = (ps, Some i)"
      "pid_owned (pid_free i ps) (used_pids s)"
proof -
  have own: "pid_owned (ks_pids s) (used_pids s)" using assms by (simp add: pids_ok_def)
  then have "pid_ok (ks_pids s)" by (simp add: pid_owned_def)
  then obtain ps r where a: "pid_alloc (ks_pids s) = Some (ps, r)"
    and r: "case r of Inl e \<Rightarrow> e = ENOENT \<and> ps = ks_pids s \<and> (\<forall>i<32. pids (ks_pids s) ! i)
     | Inr i \<Rightarrow> i < 32 \<and> \<not> pids (ks_pids s) ! i \<and> pids ps = (pids (ks_pids s))[i := True]"
    using pid_alloc_spec by blast
  show thesis
  proof (cases r)
    case (Inl e)
    then show thesis using a r none by (auto simp: free_pids_def)
  next
    case (Inr i)
    then have g: "pid_get (ks_pids s) = (ps, Some i)" using a by (simp add: pid_get_eq)
    then show thesis using a Inr got pid.get_put [OF own g] by blast
  qed
qed

text \<open>The outcomes of \<open>fork\<close>.\<close>

lemma fork_outcomes:
  assumes "pids_ok s" and "fm_task fm = None \<or> (\<exists>c. fm_task fm = Some c \<and> c \<notin> ks_live s)" and "sys_fork fm s = Some (s', r)"
    and "ks_current s \<in> ks_live s"
  obtains (failed) "same_sched s s'" "ks_live s' = ks_live s" "ks_ready s' = ks_ready s" "r < 0"
      "\<And>t. t \<in> ks_live s \<Longrightarrow> ks_task s' t = ks_task s t" "pid_owned (ks_pids s') (used_pids s)"
  | (child) c i mm fs c_mm where "fm_task fm = Some c" "c \<notin> ks_live s" "r = int i"
      "pid_get (ks_pids s) = (ks_pids s', Some i)" "same_sched s s'" "ks_ready s' = ks_ready s @ [c]"
      "ks_live s' = insert c (ks_live s)" "t_mm (ks_task s (ks_current s)) = Some mm"
      "vma_dup (fm_vma fm) (fm_clone fm) mm (ks_files s) = (fs, Some c_mm)"
      "ks_files s' = fold file_get_opt (t_files (ks_task s (ks_current s))) fs"
      "ks_task s' = (ks_task s)(c := (new_task (t_priority (ks_task s (ks_current s))))\<lparr>t_kstack := True, t_mm := Some c_mm,
          t_parent := Some (ks_current s), t_files := t_files (ks_task s (ks_current s)), t_pid := int i\<rparr>,
        ks_current s := ks_task s (ks_current s)\<lparr>t_children := c # t_children (ks_task s (ks_current s))\<rparr>)"
proof (cases "fm_task fm")
  case None
  then have "s' = s" "r = - 12" using assms(3) by (simp_all add: sys_fork_def copy_process_def task_create_def)
  then show thesis using failed assms(1) by (simp add: same_sched_def pids_ok_def)
next
  case c: (Some c)
  then have nl: "c \<notin> ks_live s" using assms(2) by auto
  then have ne: "c \<noteq> ks_current s" "insert c (ks_live s) - {c} = ks_live s" using assms(4) by auto
  from assms(1) show thesis
  proof (cases rule: pid_alloc_used)
    case none
    then have "s' = drop_task c (fst (task_create (Some c) (t_priority (ks_task s (ks_current s))) s))" "r = - 2"
      using assms(3) c by (simp_all add: sys_fork_def copy_process_def task_create_def)
    then show thesis
      using assms(1) nl ne by (intro failed) (auto simp: same_sched_def pids_ok_def task_create_def drop_task_def)
  next
    case (got ps i)
    let ?cur = "ks_task s (ks_current s)"
    let ?s1 = "s\<lparr>ks_task := (ks_task s)(c := new_task (t_priority ?cur)), ks_live := insert c (ks_live s), ks_pids := ps\<rparr>"
    have tc: "task_create (fm_task fm) (t_priority ?cur) s
        = (s\<lparr>ks_task := (ks_task s)(c := new_task (t_priority ?cur)), ks_live := insert c (ks_live s)\<rparr>, Some c)"
      by (simp add: task_create_def c)
    have cp: "copy_process fm s =
       (if \<not> fm_stack fm then Some (drop_task c (?s1\<lparr>ks_pids := pid_free i ps\<rparr>), Inl ENOMEM)
        else case t_mm ?cur of None \<Rightarrow> None
          | Some mm \<Rightarrow> (case vma_dup (fm_vma fm) (fm_clone fm) mm (ks_files s) of
              (fs, None) \<Rightarrow> Some (drop_task c (?s1\<lparr>ks_pids := pid_free i ps, ks_files := fs\<rparr>), Inl ENOMEM)
            | (fs, Some c_mm) \<Rightarrow>
                Some (?s1\<lparr>ks_files := fold file_get_opt (t_files ?cur) fs, ks_task := (ks_task s)(c := (new_task (t_priority ?cur))\<lparr>t_kstack := True,
                   t_mm := Some c_mm, t_parent := Some (ks_current s), t_files := t_files ?cur, t_pid := int i\<rparr>,
                   ks_current s := ?cur\<lparr>t_children := c # t_children ?cur\<rparr>)\<rparr>, Inr c)))"
      unfolding copy_process_def Let_def tc using got(1) ne(1) by (simp cong: option.case_cong)
    have fail: thesis if "sys_fork fm s = Some (drop_task c (?s1\<lparr>ks_pids := pid_free i ps, ks_files := fs\<rparr>), - 12)" for fs
      using assms(3) that got(3) nl ne by (intro failed) (auto simp: drop_task_def same_sched_def)
    show thesis
    proof (cases "fm_stack fm")
      case False
      then show thesis using fail [of "ks_files s"] cp by (simp add: sys_fork_def)
    next
      case st: True
      then obtain mm where mm: "t_mm ?cur = Some mm" using assms(3) cp by (cases "t_mm ?cur") (simp_all add: sys_fork_def)
      obtain fs res where d: "vma_dup (fm_vma fm) (fm_clone fm) mm (ks_files s) = (fs, res)" by fastforce
      show thesis
      proof (cases res)
        case None
        then show thesis using fail [of fs] cp st mm d by (simp add: sys_fork_def)
      next
        case (Some c_mm)
        then show thesis
          using assms(3) cp st mm d got ne nl c by (intro child [of c i mm fs c_mm]) (auto simp: sys_fork_def scheduler_add_def same_sched_def)
      qed
    qed
  qed
qed

lemma fork_inv:
  assumes "sched_inv s" and "ks_current s \<noteq> ks_idle s"
    and "fm_task fm = None \<or> (\<exists>c. fm_task fm = Some c \<and> c \<notin> ks_live s)" and "sys_fork fm s = Some (s', r)"
  shows "sched_inv s'"
proof -
  note lf = live_facts [OF assms(1)]
  from lf(5) assms(3,4) lf(2) show ?thesis
  proof (cases rule: fork_outcomes)
    case failed
    then show ?thesis using assms(1) by (intro sched_inv_agree [OF assms(1)]) simp_all
  next
    case (child c i mm fs c_mm)
    have ne: "c \<noteq> ks_current s" using child(2) lf(2) by auto
    show ?thesis
      by (rule sched_inv_add [OF assms(1) child(2,5,7,6), of i])
        (use child ne assms(2) in \<open>auto simp: new_task_def\<close>)
  qed
qed

lemma thread_inv:
  assumes "sched_inv s" and "mem = None \<or> (\<exists>c. mem = Some c \<and> c \<notin> ks_live s)" and "free_pids (ks_pids s) \<noteq> {}"
    and "kernel_thread mem stack s = Some (s', r)"
  shows "sched_inv s'"
proof (cases mem)
  case None
  then show ?thesis using assms(1,4) by (simp add: kernel_thread_def task_create_def)
next
  case c: (Some c)
  then have nl: "c \<notin> ks_live s" using assms(2) by auto
  note lf = live_facts [OF assms(1)]
  have own: "pid_owned (ks_pids s) (used_pids s)" using lf(5) by (simp add: pids_ok_def)
  from lf(5) show ?thesis
  proof (cases rule: pid_alloc_used)
    case none
    then show ?thesis using assms(3) by simp
  next
    case (got ps i)
    show ?thesis
    proof (cases stack)
      case True
      have s': "s' = s\<lparr>ks_task := (ks_task s)(c := (new_task 0)\<lparr>t_pid := int i, t_kstack := True, t_state := TASK_READY\<rparr>),
          ks_live := insert c (ks_live s), ks_pids := ps, ks_ready := ks_ready s @ [c]\<rparr>"
        using assms(4) c got(1) True by (auto simp: kernel_thread_def task_create_def Let_def scheduler_add_def)
      show ?thesis
        by (rule sched_inv_add [OF assms(1) nl, of _ i]) (use nl got(2) in \<open>auto simp: s' same_sched_def new_task_def\<close>)
    next
      case False
      then show ?thesis
        using assms(4) c nl own
        by (intro sched_inv_agree [OF assms(1)]) (auto simp: kernel_thread_def task_create_def drop_task_def same_sched_def)
    qed
  qed
qed

lemma close_files_fields [simp]:
  "ks_live (task_close_files cf t s) = ks_live s" "ks_ready (task_close_files cf t s) = ks_ready s"
  "ks_current (task_close_files cf t s) = ks_current s" "ks_idle (task_close_files cf t s) = ks_idle s"
  "ks_init (task_close_files cf t s) = ks_init s" "ks_scheduling (task_close_files cf t s) = ks_scheduling s"
  "ks_pids (task_close_files cf t s) = ks_pids s" "state_of (task_close_files cf t s) u = state_of s u"
  "t_pid (ks_task (task_close_files cf t s) u) = t_pid (ks_task s u)"
  "t_children (ks_task (task_close_files cf t s) u) = t_children (ks_task s u)"
  "t_parent (ks_task (task_close_files cf t s) u) = t_parent (ks_task s u)"
  by (simp_all add: task_close_files_def)

lemma destroy_inv:
  assumes "sched_inv s" and "c \<in> set (t_children (ks_task s (ks_current s)))" and "state_of s c = TASK_ZOMBIE"
  shows "\<exists>s'. task_destroy cf c s = Some s' \<and> sched_inv s' \<and> ks_live s' = ks_live s - {c} \<and> c \<in> ks_live s"
proof -
  note lf = live_facts [OF assms(1)]
  note f = family_okD [OF lf(4)]
  let ?p = "ks_current s"
  have c: "c \<in> ks_live s" "t_parent (ks_task s c) = Some ?p" using assms(2) f(2) [OF lf(2)] by auto
  have cp: "c \<noteq> ?p" "c \<noteq> ks_idle s" "c \<noteq> ks_init s" "0 \<le> t_pid (ks_task s c)"
    using f(5,7,9) c assms(3) lf(5) f(3) [OF c] by (auto simp: pids_ok_def)
  let ?s1 = "task_close_files cf c (task_release c s)"
  let ?s2 = "upd_task ?p (\<lambda>k. k\<lparr>t_children := remove1 c (t_children k)\<rparr>) ?s1"
  let ?s' = "?s2\<lparr>ks_pids := pid_free (nat (t_pid (ks_task s c))) (ks_pids s), ks_live := ks_live s - {c}\<rparr>"
  have d: "task_destroy cf c s = Some ?s'"
    using assms(3) c(2) cp by (simp add: task_destroy_def Let_def)
  have st: "state_of ?s' u = state_of s u" and pid: "t_pid (ks_task ?s' u) = t_pid (ks_task s u)"
    and pa: "t_parent (ks_task ?s' u) = t_parent (ks_task s u)"
    and ch: "t_children (ks_task ?s' u) = (if u = ?p then remove1 c (t_children (ks_task s ?p)) else t_children (ks_task s u))" for u
    by simp_all
  have fld: "ks_live ?s' = ks_live s - {c}" "ks_ready ?s' = ks_ready s" "ks_current ?s' = ?p" "ks_idle ?s' = ks_idle s"
    "ks_init ?s' = ks_init s" "ks_scheduling ?s' = ks_scheduling s" by simp_all
  have cr: "c \<notin> set (ks_ready s)" using queue_okD(6) [OF lf(3) c(1) cp(1,2)] assms(3) by auto
  have "queue_ok ?s'"
    using queue_okD [OF lf(3)] cp cr unfolding queue_ok_def fld st by auto
  moreover have "family_ok ?s'"
  proof (rule family_okI, unfold fld st pa pid)
    fix t assume t: "t \<in> ks_live s - {c}"
    then have tl: "t \<in> ks_live s" by blast
    show "distinct (t_children (ks_task ?s' t))" using f(1) [OF tl] f(1) [OF lf(2)] unfolding ch by (simp add: distinct_remove1)
    show "set (t_children (ks_task ?s' t)) = {x \<in> ks_live s - {c}. t_parent (ks_task s x) = Some t}"
      using f(2) [OF tl] f(1) [OF lf(2)] c(2) unfolding ch by auto
    fix p assume "t_parent (ks_task s t) = Some p"
    then show "p \<in> ks_live s - {c} \<and> state_of s p \<noteq> TASK_ZOMBIE \<and> p \<noteq> t \<and> p \<noteq> ks_idle s"
      using f(3) [OF tl] assms(3) by auto
  qed (use f(4-10) cp in \<open>auto simp: ch\<close>)
  moreover have "pids_ok ?s'"
  proof -
    have own: "pid_owned (ks_pids s) (used_pids s)" and inj: "inj_on (\<lambda>t. t_pid (ks_task s t)) (ks_live s)"
      and nn: "\<forall>t\<in>ks_live s. 0 \<le> t_pid (ks_task s t)"
      using lf(5) by (simp_all add: pids_ok_def)
    have "inj_on (\<lambda>t. nat (t_pid (ks_task s t))) (ks_live s)"
    proof (rule inj_onI)
      fix x y assume xy: "x \<in> ks_live s" "y \<in> ks_live s" "nat (t_pid (ks_task s x)) = nat (t_pid (ks_task s y))"
      then have "t_pid (ks_task s x) = t_pid (ks_task s y)" using nn by (simp add: eq_nat_nat_iff)
      then show "x = y" by (rule inj_onD [OF inj _ xy(1,2)])
    qed
    then have e: "used_pids s - {nat (t_pid (ks_task s c))} = (\<lambda>t. nat (t_pid (ks_task s t))) ` (ks_live s - {c} - {ks_idle s})"
      using c(1) cp(2) by (auto simp: inj_on_def)
    have "nat (t_pid (ks_task s c)) \<in> used_pids s" using c(1) cp(2) by blast
    from pid.put_back [OF own this, unfolded e]
    have "pid_owned (ks_pids ?s') ((\<lambda>t. nat (t_pid (ks_task s t))) ` (ks_live s - {c} - {ks_idle s}))" by simp
    then show ?thesis
      using lf(5) cp(2) inj_on_subset [OF inj, of "ks_live s - {c}"] unfolding pids_ok_def fld pid by auto
  qed
  ultimately have "sched_inv ?s'" using lf(6,7) unfolding sched_inv_def running_def fld st by blast
  then show ?thesis using d c(1) by (intro exI [of _ ?s']) simp
qed

subsection \<open>The kernel as a transition system\<close>

definition fresh_for :: "nat option \<Rightarrow> ksys \<Rightarrow> bool" where
  "fresh_for mem s \<longleftrightarrow> (case mem of None \<Rightarrow> True | Some c \<Rightarrow> c \<notin> ks_live s)"

lemma fresh_for_alt: "fresh_for mem s \<longleftrightarrow> mem = None \<or> (\<exists>c. mem = Some c \<and> c \<notin> ks_live s)"
  by (cases mem) (auto simp: fresh_for_def)

inductive kstep :: "ksys \<Rightarrow> ksys \<Rightarrow> bool" where
  resched: "kstep s (schedule s)"
| sleep: "ks_current s \<noteq> ks_idle s \<Longrightarrow> kstep s (sleep_current s)"
| wake: "t \<in> ks_live s \<Longrightarrow> kstep s (task_wakeup t s)"
| exit: "ks_current s \<noteq> ks_idle s \<Longrightarrow> sys_exit status s = Some s' \<Longrightarrow> kstep s s'"
| fork: "ks_current s \<noteq> ks_idle s \<Longrightarrow> fresh_for (fm_task fm) s \<Longrightarrow> sys_fork fm s = Some (s', r) \<Longrightarrow> kstep s s'"
| wait: "ks_current s \<noteq> ks_idle s \<Longrightarrow> waitpid_round cf pid nohang s = Some (s', w) \<Longrightarrow> kstep s s'"
| thread: "fresh_for mem s \<Longrightarrow> free_pids (ks_pids s) \<noteq> {} \<Longrightarrow> kernel_thread mem stack s = Some (s', r) \<Longrightarrow> kstep s s'"

inductive_cases kstepE: "kstep s s'"

lemma resched_inv: "sched_inv s \<Longrightarrow> sched_inv (schedule s)"
  using schedule_inv [of s] by (auto simp: sched_inv_def running_def)

text \<open>The rounds of \<open>waitpid\<close>: a child is collected only when it is a zombie.\<close>

lemma waitpid_cases:
  assumes "sched_inv s"
  obtains (reap) c s' where "waitpid_round cf pid nohang s = Some (s', WaitReturn (t_pid (ks_task s c)) (Some (t_exit_code (ks_task s c))))"
      "c \<in> set (t_children (ks_task s (ks_current s)))" "state_of s c = TASK_ZOMBIE" "pid > 0 \<longrightarrow> t_pid (ks_task s c) = pid"
      "task_destroy cf c s = Some s'" "sched_inv s'" "ks_live s' = ks_live s - {c}"
  | (nochild) "waitpid_round cf pid nohang s = Some (s, WaitReturn (-2) None)" "pid > 0"
      "\<forall>c\<in>set (t_children (ks_task s (ks_current s))). t_pid (ks_task s c) \<noteq> pid"
  | (nohang) "waitpid_round cf pid nohang s = Some (s, WaitReturn 0 None)" nohang
  | (again) "waitpid_round cf pid nohang s = Some (sleep_current s, WaitAgain)" "\<not> nohang"
proof -
  let ?cs = "t_children (ks_task s (ks_current s))"
  define child where "child = (if pid > 0 then task_get_child (ks_current s) pid s else task_find_zombie_child (ks_current s) s)"
  show thesis
  proof (cases child)
    case None
    show thesis
    proof (cases "pid > 0")
      case True
      then have "\<forall>c\<in>set ?cs. t_pid (ks_task s c) \<noteq> pid"
        using None by (auto simp: child_def task_get_child_def find_None_iff)
      then show thesis using True None nochild by (simp add: waitpid_round_def child_def)
    next
      case False
      then show thesis using None nohang again by (cases nohang) (simp_all add: waitpid_round_def child_def)
    qed
  next
    case (Some c)
    then have c: "c \<in> set ?cs" "pid > 0 \<longrightarrow> t_pid (ks_task s c) = pid"
      by (auto simp: child_def task_get_child_def task_find_zombie_child_def find_Some_iff split: if_splits)
    show thesis
    proof (cases "state_of s c = TASK_ZOMBIE")
      case True
      then obtain s' where "task_destroy cf c s = Some s'" "sched_inv s'" "ks_live s' = ks_live s - {c}"
        using destroy_inv [OF assms c(1)] by blast
      then show thesis using reap c True Some by (simp add: waitpid_round_def child_def)
    next
      case False
      then show thesis using Some nohang again by (cases nohang) (simp_all add: waitpid_round_def child_def)
    qed
  qed
qed

lemma kstep_inv:
  assumes "sched_inv s" and "kstep s s'"
  shows "sched_inv s'"
  using assms(2,1)
proof cases
  case resched
  then show ?thesis using assms(1) resched_inv by simp
next
  case sleep
  then show ?thesis using assms(1) sleep_inv by simp
next
  case wake
  then show ?thesis using assms(1) wakeup_inv by simp
next
  case exit
  then show ?thesis using assms(1) exit_inv by blast
next
  case fork
  then show ?thesis using assms(1) fork_inv by (simp add: fresh_for_alt)
next
  case (wait cf pid nohang w)
  from assms(1) show ?thesis
    by (cases rule: waitpid_cases [where cf = cf and pid = pid and nohang = nohang])
      (use wait assms(1) sleep_inv in auto)
next
  case thread
  then show ?thesis using assms(1) thread_inv by (simp add: fresh_for_alt)
qed

lemma schedule_next:
  assumes "sched_inv s" and "ks_ready s = x # xs"
  shows "ks_current (schedule s) = x" and "\<exists>zs. ks_ready (schedule s) = xs @ zs"
proof -
  note lf = live_facts [OF assms(1)]
  have x: "x \<noteq> ks_current s" using queue_okD(2) [OF lf(3)] assms(2) by auto
  have sc: "schedule s = context_switch (ks_current s) x (s\<lparr>ks_ready := xs\<rparr>)"
    using lf(6) assms(2) by (simp add: schedule_def next_task_def)
  have z: "t_pid (ks_task s (ks_current s)) = 0 \<Longrightarrow> ks_current s = ks_idle s"
    using pids_ok_nonzero [OF lf(5,2)] by blast
  show "ks_current (schedule s) = x" unfolding sc using x by (subst switch_result(1)) (auto dest: z)
  show "\<exists>zs. ks_ready (schedule s) = xs @ zs" unfolding sc using x by (subst switch_result(2)) (auto dest: z)
qed

lemma round_robin_turn:
  "sched_inv s \<Longrightarrow> ks_ready s = xs @ t # ys \<Longrightarrow> ks_current ((schedule ^^ Suc (length xs)) s) = t"
proof (induction xs arbitrary: s ys)
  case Nil
  then show ?case using schedule_next(1) by simp
next
  case (Cons x xs)
  obtain zs where "ks_ready (schedule s) = xs @ t # (ys @ zs)"
    using schedule_next(2) [OF Cons.prems(1), of x "xs @ t # ys"] Cons.prems(2) by auto
  from Cons.IH [OF resched_inv [OF Cons.prems(1)] this] show ?case
    by (simp add: funpow_swap1)
qed

subsection \<open>A small system\<close>

text \<open>The idle task 0, the first process 1, which is running, and its child 2, which is ready.\<close>

definition demo_mm :: "nat mm_struct" where
  "demo_mm = \<lparr>mm_ctx = Some 7, mm_vma = [\<lparr>vr_start = 0x8048000, vr_end = 0x804A000, vr_mem_flags = 5, vr_prot_flags = 0,
     vr_file = Some 3, vr_offset = 0\<rparr>], mm_brk_start = 0x804A000, mm_brk = 0x804B000, mm_refcount = 1\<rparr>"

definition demo_task :: "nat \<Rightarrow> task" where
  "demo_task t =
     (if t = 0 then (new_task 0)\<lparr>t_state := TASK_RUNNING\<rparr>
      else if t = 1 then (new_task 0)\<lparr>t_pid := 1, t_state := TASK_RUNNING, t_children := [2], t_mm := Some demo_mm\<rparr>
      else (new_task 0)\<lparr>t_pid := 2, t_state := TASK_READY, t_parent := Some 1, t_mm := Some demo_mm\<rparr>)"

definition demo_sys :: ksys where
  "demo_sys = \<lparr>ks_task = demo_task, ks_live = {0, 1, 2}, ks_ready = [2], ks_current = 1, ks_idle = 0, ks_init = 1,
     ks_scheduling = True, ks_need_resched = False,
     ks_pids = \<lparr>pids = (replicate 32 False)[0 := True, 1 := True, 2 := True], next_free_pid = 3\<rparr>,
     ks_files = \<lparr>file_refs = (\<lambda>f. if f = 3 then 3 else 0), file_released = []\<rparr>\<rparr>"

lemma demo_sys_inv: "sched_inv demo_sys"
proof -
  have "queue_ok demo_sys" by (simp add: queue_ok_def demo_sys_def demo_task_def new_task_def)
  moreover have "family_ok demo_sys"
    by (rule family_okI) (auto simp: demo_sys_def demo_task_def new_task_def split: if_splits)
  moreover have "pids_ok demo_sys"
  proof -
    have "pid_owned (ks_pids demo_sys) {1, 2}"
      by (auto simp: pid_owned_def pid_ok_def demo_sys_def nth_list_update)
    moreover have "used_pids demo_sys = {1, 2}" by (auto simp: demo_sys_def demo_task_def new_task_def)
    ultimately show ?thesis by (auto simp: pids_ok_def demo_sys_def demo_task_def new_task_def)
  qed
  ultimately show ?thesis by (simp add: sched_inv_def running_def demo_sys_def demo_task_def new_task_def)
qed

lemma demo_next: "ks_current (schedule demo_sys) = 2"
  using schedule_next(1) [OF demo_sys_inv, of 2 "[]"] by (simp add: demo_sys_def)

subsection \<open>Correctness of the scheduler\<close>









lemma fold_file_get:
  "file_refs (fold file_get_opt xs fs) f = file_refs fs f + of_nat (count_list xs (Some f))"
  by (induction xs arbitrary: fs) (auto simp: file_get_def split: option.split)

lemma fork_fails_cleanly:
  assumes "pids_ok s" and "ks_current s \<in> ks_live s" and "fresh_for (fm_task fm) s" and "t_mm (ks_task s (ks_current s)) = Some mm"
    and "mm_ok mm" and "\<And>f. 0 < uses_of f (mm_vma mm) \<Longrightarrow> 0 < unat (file_refs (ks_files s) f)
      \<and> unat (file_refs (ks_files s) f) + uses_of f (mm_vma mm) < 4294967296"
  shows "\<exists>s' r. sys_fork fm s = Some (s', r) \<and> (r < 0 \<longrightarrow> ks_files s' = ks_files s)"
proof (cases "fm_task fm")
  case None
  then show ?thesis by (simp add: sys_fork_def copy_process_def task_create_def)
next
  case c: (Some c)
  then have ne: "c \<noteq> ks_current s" using assms(2,3) by (auto simp: fresh_for_def)
  obtain fs res where d: "vma_dup (fm_vma fm) (fm_clone fm) mm (ks_files s) = (fs, res)" by fastforce
  have u: "fs = ks_files s" if "res = None"
    using vma_dup_keeps [OF assms(5,6), of "fm_clone fm" "fm_vma fm"] d that by simp
  from assms(1) show ?thesis
  proof (cases rule: pid_alloc_used)
    case none
    then show ?thesis using c by (simp add: sys_fork_def copy_process_def task_create_def drop_task_def)
  next
    case (got ps i)
    then show ?thesis
      using c ne assms(4) d u
      by (cases res) (simp_all add: sys_fork_def copy_process_def task_create_def drop_task_def Let_def scheduler_add_def)
  qed
qed


definition demo_fork :: fork_mem where
  "demo_fork = \<lparr>fm_task = Some 9, fm_stack = True, fm_vma = (\<lambda>_. True), fm_clone = (\<lambda>c. c)\<rparr>"


text \<open>
  Exhausted identifiers: when none is free, \<open>kernel_thread\<close> does not fail as its error
  branch intends. \<open>pid_alloc\<close> answers \<open>-ENOENT\<close>, the test against -1 does not see it, and a task
  with the identifier -2 is put on the ready queue while the caller is told of an error.
\<close>

theorem kernel_thread_exhausted:
  assumes "pid_ok (ks_pids s)" and "free_pids (ks_pids s) = {}"
  shows "\<exists>s'. kernel_thread (Some t) True s = Some (s', - errno_val ENOENT)
    \<and> ks_ready s' = ks_ready s @ [t] \<and> t_pid (ks_task s' t) = - 2 \<and> state_of s' t = TASK_READY"
proof -
  obtain ps r where a: "pid_alloc (ks_pids s) = Some (ps, r)" and r: "case r of
       Inl e \<Rightarrow> e = ENOENT \<and> ps = ks_pids s \<and> (\<forall>i<32. pids (ks_pids s) ! i)
     | Inr i \<Rightarrow> i < 32 \<and> \<not> pids (ks_pids s) ! i \<and> pids ps = (pids (ks_pids s))[i := True]"
    using pid_alloc_spec [OF assms(1)] by blast
  then have "r = Inl ENOENT" using assms(2) by (cases r) (auto simp: free_pids_def)
  then show ?thesis using a by (simp add: kernel_thread_def task_create_def scheduler_add_def)
qed

theorem kernel_thread_exhausted_witness:
  "\<exists>s'. kernel_thread (Some 5) True (demo_sys\<lparr>ks_pids := \<lparr>pids = replicate 32 True, next_free_pid = 0\<rparr>\<rparr>) = Some (s', - 2)
    \<and> t_pid (ks_task s' 5) = - 2"
  using kernel_thread_exhausted [of "demo_sys\<lparr>ks_pids := \<lparr>pids = replicate 32 True, next_free_pid = 0\<rparr>\<rparr>" 5]
  by (auto simp: pid_ok_def free_pids_def)

definition bss_pids :: pid_state where
  "bss_pids = \<lparr>pids = replicate 32 False, next_free_pid = 0\<rparr>"

lemma bss_alloc: "\<exists>ps. pid_alloc bss_pids = Some (ps, Inr 0)"
proof -
  have "pid_search 0 0 (replicate 32 False) = Some (Some 0)" by (subst pid_search.simps) simp
  then show ?thesis by (simp add: pid_alloc_def bss_pids_def)
qed

text \<open>
  C28. The first process and identifier 0: \<open>kmain\<close> creates it before \<open>pid_init\<close> has run, when
  the table is still zero, so its identifier is 0, that of the idle task. When such a process is
  preempted by a ready task it is not put back on the ready queue, stays \<open>RUNNING\<close>, and no
  wake-up brings it back.
\<close>

theorem first_process_lost:
  assumes "ks_pids s = bss_pids" and "kernel_thread (Some t) True s = Some (s1, pid)"
    and "s2 = s3\<lparr>ks_task := (ks_task s3)(t := ks_task s1 t\<lparr>t_state := TASK_RUNNING\<rparr>)\<rparr>"
    and "ks_scheduling s2" and "ks_current s2 = t" and "ks_ready s2 = u # us" and "t \<notin> set (u # us)"
  shows "pid = 0 \<and> ks_current (schedule s2) = u \<and> t \<notin> set (ks_ready (schedule s2))
    \<and> state_of (schedule s2) t = TASK_RUNNING \<and> task_wakeup t (schedule s2) = schedule s2"
proof -
  obtain ps where "pid_alloc (ks_pids s) = Some (ps, Inr 0)" using bss_alloc assms(1) by auto
  then have p: "pid = 0" "t_pid (ks_task s1 t) = 0"
    using assms(2) by (auto simp: kernel_thread_def task_create_def Let_def scheduler_add_def)
  have "t_pid (ks_task s2 t) = 0" "state_of s2 t = TASK_RUNNING" using p by (simp_all add: assms(3))
  then have "schedule s2 = cpu_update_current_task u (s2\<lparr>ks_ready := us\<rparr>)"
    using assms(4-7)
    by (auto simp: schedule_def next_task_def context_switch_def task_handle_prev_status_def cpu_update_current_task_def)
  then show ?thesis
    using p assms(3,7) by (auto simp: cpu_update_current_task_def task_wakeup_def)
qed

theorem first_process_lost_witness:
  "\<exists>s1 s2. kernel_thread (Some 1) True (demo_sys\<lparr>ks_pids := bss_pids\<rparr>) = Some (s1, 0) \<and> ks_current s2 = 1
    \<and> ks_current (schedule s2) = 2 \<and> 1 \<notin> set (ks_ready (schedule s2))"
proof -
  obtain s1 where k: "kernel_thread (Some 1) True (demo_sys\<lparr>ks_pids := bss_pids\<rparr>) = Some (s1, 0)"
    using bss_alloc by (auto simp: kernel_thread_def task_create_def Let_def)
  let ?s2 = "demo_sys\<lparr>ks_task := (ks_task demo_sys)(1 := ks_task s1 1\<lparr>t_state := TASK_RUNNING\<rparr>)\<rparr>"
  have "ks_pids (demo_sys\<lparr>ks_pids := bss_pids\<rparr>) = bss_pids" "ks_scheduling ?s2" "ks_current ?s2 = 1" "ks_ready ?s2 = [2]"
    by (simp_all add: demo_sys_def)
  note e = this
  have "1 \<notin> set [2::nat]" by simp
  from first_process_lost [OF e(1) k refl e(2-4) this] k e(3) show ?thesis
    by (intro exI [of _ s1] exI [of _ ?s2]) blast
qed



end
