(* ===== verification/Wey_Vfs.thy ===== *)
theory Wey_Vfs
  imports Wey_Prelude Wey_Errno
begin

unbundle bit_operations_syntax

text \<open>
  The virtual file system: path iteration and walking (\<open>fs/path.c\<close>), the operations on names
  (\<open>fs/namei.c\<close>), mounting (\<open>fs/super.c\<close>), opening (\<open>fs/open.c\<close>) and attributes
  (\<open>fs/stat.c\<close>). Inodes and mounts are named by numbers. What a file system provides, its inode
  operations and the destruction of an inode, are arguments of the functions that call them, as
  the function pointers \<open>i_op\<close> and \<open>s_op\<close> are in the code; the private data of the file system
  is a component of the state of any type.
\<close>

subsection \<open>Data\<close>

datatype fops = Ramfs_fops | Def_chr_fops | Def_blk_fops

record inode =
  i_ino :: u64
  i_fop :: "fops option"
  i_mode :: u16
  i_dev :: u32
  i_size :: u32
  i_ref :: u32
  i_mounted :: "nat option"
  i_sb :: nat
  i_atime :: u64
  i_mtime :: u64
  i_ctime :: u64

record mount =
  mnt_name :: string
  mnt_root :: nat
  mnt_point :: "nat option"
  mnt_sb :: nat
  mnt_parent :: "nat option"
  mnt_children :: "nat list"

record 'f vfs =
  vf_ino :: "nat \<Rightarrow> inode"
  vf_mnt :: "nat \<Rightarrow> mount"
  vf_root_mount :: "nat option"
  vf_sb :: "nat \<Rightarrow> nat list"
  vf_fs :: 'f

abbreviation upd_ino :: "nat \<Rightarrow> (inode \<Rightarrow> inode) \<Rightarrow> 'f vfs \<Rightarrow> 'f vfs" where
  "upd_ino i f s \<equiv> s\<lparr>vf_ino := (vf_ino s)(i := f (vf_ino s i))\<rparr>"

text \<open>\<open>struct stat\<close> and \<open>struct iattr\<close>, and the attribute bits.\<close>

record kstat =
  st_ino :: u64
  st_mode :: u16
  st_dev :: u32
  st_size :: u32
  st_atime :: u64
  st_mtime :: u64
  st_ctime :: u64

record iattr =
  ia_valid :: u32
  ia_stat :: kstat

definition ATTR_MODE :: u32 where "ATTR_MODE = 1"
definition ATTR_SIZE :: u32 where "ATTR_SIZE = 2"
definition ATTR_DEV :: u32 where "ATTR_DEV = 4"
definition ATTR_ATIME :: u32 where "ATTR_ATIME = 8"
definition ATTR_MTIME :: u32 where "ATTR_MTIME = 16"
definition ATTR_CTIME :: u32 where "ATTR_CTIME = 32"

definition O_CREAT :: u32 where "O_CREAT = 2"
definition O_TRUNC :: u32 where "O_TRUNC = 4"

definition S_IFMT :: u16 where "S_IFMT = 0xF000"
definition S_IFREG :: u16 where "S_IFREG = 0x8000"
definition S_IFBLK :: u16 where "S_IFBLK = 0x6000"
definition S_IFDIR :: u16 where "S_IFDIR = 0x4000"
definition S_IFCHR :: u16 where "S_IFCHR = 0x2000"

definition S_ISREG :: "u16 \<Rightarrow> bool" where "S_ISREG m \<longleftrightarrow> m AND S_IFMT = S_IFREG"
definition S_ISDIR :: "u16 \<Rightarrow> bool" where "S_ISDIR m \<longleftrightarrow> m AND S_IFMT = S_IFDIR"

text \<open>An open file. \<open>off_t\<close> is a signed 64-bit integer.\<close>

record vfile =
  f_inode :: nat
  f_pos :: int
  f_flags :: u32
  f_op :: "fops option"

text \<open>
  The operations of an inode; a missing one is a null pointer. \<open>None\<close> as the result of
  \<open>op_setarrt\<close> is an access out of bounds.
\<close>

record 'f inode_ops =
  op_lookup :: "(nat \<Rightarrow> string \<Rightarrow> 'f vfs \<Rightarrow> 'f vfs \<times> (errno + nat option)) option"
  op_create :: "(nat \<Rightarrow> string \<Rightarrow> u16 \<Rightarrow> 'f vfs \<Rightarrow> 'f vfs \<times> (errno + unit)) option"
  op_mknod :: "(nat \<Rightarrow> string \<Rightarrow> u16 \<Rightarrow> u32 \<Rightarrow> 'f vfs \<Rightarrow> 'f vfs \<times> (errno + unit)) option"
  op_unlink :: "(nat \<Rightarrow> string \<Rightarrow> 'f vfs \<Rightarrow> 'f vfs \<times> (errno + unit)) option"
  op_mkdir :: "(nat \<Rightarrow> string \<Rightarrow> 'f vfs \<Rightarrow> 'f vfs \<times> (errno + unit)) option"
  op_rmdir :: "(nat \<Rightarrow> string \<Rightarrow> 'f vfs \<Rightarrow> 'f vfs \<times> (errno + unit)) option"
  op_getattr :: "(nat \<Rightarrow> 'f vfs \<Rightarrow> errno + kstat) option"
  op_setarrt :: "(nat \<Rightarrow> iattr \<Rightarrow> 'f vfs \<Rightarrow> ('f vfs \<times> (errno + unit)) option) option"

text \<open>What the walk needs: the operations of each inode, and the operation \<open>destroy_inode\<close>.\<close>

record 'f fs_env =
  e_iop :: "nat \<Rightarrow> 'f inode_ops option"
  e_destroy :: "nat \<Rightarrow> 'f vfs \<Rightarrow> 'f vfs"

definition inode_get :: "nat \<Rightarrow> 'f vfs \<Rightarrow> 'f vfs" where
  "inode_get i s = upd_ino i (\<lambda>n. n\<lparr>i_ref := i_ref n + 1\<rparr>) s"

definition inode_destroy :: "(nat \<Rightarrow> 'f vfs \<Rightarrow> 'f vfs) \<Rightarrow> nat \<Rightarrow> 'f vfs \<Rightarrow> 'f vfs" where
  "inode_destroy destroy i s =
     destroy i (s\<lparr>vf_sb := (vf_sb s)(i_sb (vf_ino s i) := remove1 i (vf_sb s (i_sb (vf_ino s i))))\<rparr>)"

definition inode_put :: "(nat \<Rightarrow> 'f vfs \<Rightarrow> 'f vfs) \<Rightarrow> nat \<Rightarrow> 'f vfs \<Rightarrow> 'f vfs" where
  "inode_put destroy i s =
     (let s' = upd_ino i (\<lambda>n. n\<lparr>i_ref := i_ref n - 1\<rparr>) s
      in if i_ref (vf_ino s' i) = 0 then inode_destroy destroy i s' else s')"

text \<open>
  \<open>inode_new\<close>: \<open>alloc\<close> is the file system's \<open>alloc_inode\<close>. The inode enters the list of its super
  block with one reference.
\<close>

definition inode_new :: "(nat \<Rightarrow> 'f vfs \<Rightarrow> 'f vfs \<times> nat option) \<Rightarrow> nat \<Rightarrow> 'f vfs \<Rightarrow> 'f vfs \<times> nat option" where
  "inode_new alloc sb s =
     (case alloc sb s of
        (s', None) \<Rightarrow> (s', None)
      | (s', Some i) \<Rightarrow>
          (let s'' = upd_ino i (\<lambda>n. n\<lparr>i_sb := sb, i_ref := 1\<rparr>) s'
           in (s''\<lparr>vf_sb := (vf_sb s'')(sb := i # vf_sb s'' sb)\<rparr>, Some i)))"

definition inode_init_special :: "nat \<Rightarrow> u16 \<Rightarrow> u32 \<Rightarrow> 'f vfs \<Rightarrow> 'f vfs" where
  "inode_init_special i mode dev =
     upd_ino i (\<lambda>n. let n = n\<lparr>i_mode := mode\<rparr>; t = mode AND S_IFMT
       in if t = S_IFCHR then n\<lparr>i_fop := Some Def_chr_fops, i_dev := dev\<rparr>
          else if t = S_IFBLK then n\<lparr>i_fop := Some Def_blk_fops, i_dev := dev\<rparr> else n)"

subsection \<open>Paths\<close>

text \<open>\<open>path_iterate\<close>: the next component and the rest of the path, or \<open>None\<close> at the end.\<close>

definition path_iterate :: "string \<Rightarrow> (string \<times> string) option" where
  "path_iterate cursor =
     (let path = dropWhile (\<lambda>c. c = CHR ''/'') cursor
      in if path = [] then None
         else Some (takeWhile (\<lambda>c. c \<noteq> CHR ''/'') path, dropWhile (\<lambda>c. c \<noteq> CHR ''/'') path))"

lemma path_iterate_shorter [dest]: "path_iterate p = Some (c, r) \<Longrightarrow> length r < length p"
proof -
  assume a: "path_iterate p = Some (c, r)"
  let ?q = "dropWhile (\<lambda>c. c = CHR ''/'') p"
  from a have q: "?q \<noteq> []" and r: "r = dropWhile (\<lambda>c. c \<noteq> CHR ''/'') ?q" by (auto simp: path_iterate_def Let_def split: if_splits)
  have "hd ?q \<noteq> CHR ''/''" using hd_dropWhile [OF q] .
  then obtain x xs where "?q = x # xs" "x \<noteq> CHR ''/''" using q by (cases ?q) auto
  then have "length r < length ?q" using r length_dropWhile_le [of _ xs] by (simp add: le_imp_less_Suc)
  then show ?thesis using length_dropWhile_le [of _ p] by (rule less_le_trans)
qed

definition vfs_lookup_path :: "'f fs_env \<Rightarrow> nat \<Rightarrow> string \<Rightarrow> 'f vfs \<Rightarrow> 'f vfs \<times> (errno + nat \<times> nat option)" where
  "vfs_lookup_path env parent name s =
     (case e_iop env parent of
        None \<Rightarrow> (s, Inl ENOSYS)
      | Some ops \<Rightarrow>
          (case op_lookup ops of
             None \<Rightarrow> (s, Inl ENOSYS)
           | Some lookup \<Rightarrow>
               (case lookup parent name s of
                  (s', Inl e) \<Rightarrow> (s', Inl e)
                | (s', Inr None) \<Rightarrow> (s', Inl ENOENT)
                | (s', Inr (Some child)) \<Rightarrow> (s', Inr (child, i_mounted (vf_ino s' child))))))"

text \<open>One step into a child, across a mount if there is one; shared by both walks.\<close>

definition walk_into :: "'f fs_env \<Rightarrow> nat \<Rightarrow> nat \<Rightarrow> nat option \<Rightarrow> nat \<Rightarrow> 'f vfs \<Rightarrow> 'f vfs \<times> nat \<times> nat" where
  "walk_into env cur child m mnt s =
     (let s = inode_put (e_destroy env) cur s in
      case m of
        None \<Rightarrow> (s, child, mnt)
      | Some m \<Rightarrow>
          let root = mnt_root (vf_mnt s m);
              s = inode_put (e_destroy env) child (inode_get root s)
          in (s, root, m))"

function walk_loop :: "'f fs_env \<Rightarrow> string \<Rightarrow> nat \<Rightarrow> nat \<Rightarrow> 'f vfs \<Rightarrow> 'f vfs \<times> (errno + nat \<times> nat)" where
  "walk_loop env cursor mnt cur s =
     (case path_iterate cursor of
        None \<Rightarrow> (s, Inr (mnt, cur))
      | Some (name, rest) \<Rightarrow>
          (case vfs_lookup_path env cur name s of
             (s', Inl e) \<Rightarrow> (inode_put (e_destroy env) cur s', Inl e)
           | (s', Inr (child, m)) \<Rightarrow>
               (case walk_into env cur child m mnt s' of (s'', cur', mnt') \<Rightarrow> walk_loop env rest mnt' cur' s'')))"
  by pat_completeness auto
termination
  by (relation "measure (\<lambda>(env, cursor, mnt, cur, s). length cursor)") auto

declare walk_loop.simps [simp del]

definition vfs_walk_path :: "'f fs_env \<Rightarrow> string \<Rightarrow> 'f vfs \<Rightarrow> 'f vfs \<times> (errno + nat \<times> nat)" where
  "vfs_walk_path env path s =
     (case vf_root_mount s of
        None \<Rightarrow> (s, Inl EINVAL)
      | Some m \<Rightarrow> let cur = mnt_root (vf_mnt s m) in walk_loop env path m cur (inode_get cur s))"

definition vfs_walk :: "'f fs_env \<Rightarrow> string \<Rightarrow> 'f vfs \<Rightarrow> 'f vfs \<times> (errno + nat)" where
  "vfs_walk env path s =
     (if vf_root_mount s = None then (s, Inl EINVAL)
      else case vfs_walk_path env path s of (s', Inl e) \<Rightarrow> (s', Inl e) | (s', Inr (m, i)) \<Rightarrow> (s', Inr i))"

function walk_parent_loop :: "'f fs_env \<Rightarrow> string \<Rightarrow> nat \<Rightarrow> 'f vfs \<Rightarrow> 'f vfs \<times> (errno + nat \<times> string)" where
  "walk_parent_loop env cursor cur s =
     (case path_iterate cursor of
        None \<Rightarrow> (inode_put (e_destroy env) cur s, Inl EINVAL)
      | Some (name, rest) \<Rightarrow>
          if path_iterate rest = None then (s, Inr (cur, name))
          else (case vfs_lookup_path env cur name s of
             (s', Inl e) \<Rightarrow> (inode_put (e_destroy env) cur s', Inl e)
           | (s', Inr (child, m)) \<Rightarrow>
               (case walk_into env cur child m 0 s' of (s'', cur', _) \<Rightarrow> walk_parent_loop env rest cur' s'')))"
  by pat_completeness auto
termination
  by (relation "measure (\<lambda>(env, cursor, cur, s). length cursor)") auto

declare walk_parent_loop.simps [simp del]

definition vfs_walk_parent :: "'f fs_env \<Rightarrow> string \<Rightarrow> 'f vfs \<Rightarrow> 'f vfs \<times> (errno + nat \<times> string)" where
  "vfs_walk_parent env path s =
     (case vf_root_mount s of
        None \<Rightarrow> (s, Inl EINVAL)
      | Some m \<Rightarrow> let cur = mnt_root (vf_mnt s m) in walk_parent_loop env path cur (inode_get cur s))"

subsection \<open>Operations on names\<close>

text \<open>The five functions of \<open>namei.c\<close> differ in the operation they pick and its arguments.\<close>

definition name_op :: "'f fs_env \<Rightarrow> ('f inode_ops \<Rightarrow> (nat \<Rightarrow> string \<Rightarrow> 'f vfs \<Rightarrow> 'f vfs \<times> (errno + unit)) option)
    \<Rightarrow> string \<Rightarrow> 'f vfs \<Rightarrow> 'f vfs \<times> (errno + unit)" where
  "name_op env pick path s =
     (if vf_root_mount s = None then (s, Inl EINVAL)
      else case vfs_walk_parent env path s of
          (s', Inl e) \<Rightarrow> (s', Inl e)
        | (s', Inr (parent, name)) \<Rightarrow>
            (case e_iop env parent of
               None \<Rightarrow> (inode_put (e_destroy env) parent s', Inl ENOSYS)
             | Some ops \<Rightarrow>
                 (case pick ops of
                    None \<Rightarrow> (inode_put (e_destroy env) parent s', Inl ENOSYS)
                  | Some f \<Rightarrow> (case f parent name s' of (s'', res) \<Rightarrow> (inode_put (e_destroy env) parent s'', res)))))"

definition vfs_create :: "'f fs_env \<Rightarrow> string \<Rightarrow> u16 \<Rightarrow> 'f vfs \<Rightarrow> 'f vfs \<times> (errno + unit)" where
  "vfs_create env path mode = name_op env (\<lambda>ops. map_option (\<lambda>f d n. f d n mode) (op_create ops)) path"

definition vfs_mknod :: "'f fs_env \<Rightarrow> string \<Rightarrow> u16 \<Rightarrow> u32 \<Rightarrow> 'f vfs \<Rightarrow> 'f vfs \<times> (errno + unit)" where
  "vfs_mknod env path mode dev = name_op env (\<lambda>ops. map_option (\<lambda>f d n. f d n mode dev) (op_mknod ops)) path"

definition vfs_unlink :: "'f fs_env \<Rightarrow> string \<Rightarrow> 'f vfs \<Rightarrow> 'f vfs \<times> (errno + unit)" where
  "vfs_unlink env = name_op env op_unlink"

definition vfs_mkdir :: "'f fs_env \<Rightarrow> string \<Rightarrow> 'f vfs \<Rightarrow> 'f vfs \<times> (errno + unit)" where
  "vfs_mkdir env = name_op env op_mkdir"

definition vfs_rmdir :: "'f fs_env \<Rightarrow> string \<Rightarrow> 'f vfs \<Rightarrow> 'f vfs \<times> (errno + unit)" where
  "vfs_rmdir env = name_op env op_rmdir"

definition vfs_getattr :: "'f fs_env \<Rightarrow> string \<Rightarrow> 'f vfs \<Rightarrow> 'f vfs \<times> (errno + kstat)" where
  "vfs_getattr env path s =
     (case vfs_walk env path s of
        (s', Inl e) \<Rightarrow> (s', Inl e)
      | (s', Inr i) \<Rightarrow>
          (inode_put (e_destroy env) i s',
           case e_iop env i of None \<Rightarrow> Inl ENOSYS
           | Some ops \<Rightarrow> (case op_getattr ops of None \<Rightarrow> Inl ENOSYS | Some f \<Rightarrow> f i s')))"

subsection \<open>Opening\<close>

text \<open>
  The operations of open files the VFS itself calls. \<open>open\<close> may change the file and answer an
  error; a missing operation is \<open>None\<close>.
\<close>

record 'f file_env =
  fe_open :: "fops \<Rightarrow> (nat \<Rightarrow> vfile \<Rightarrow> 'f vfs \<Rightarrow> 'f vfs \<times> (errno + vfile)) option"
  fe_close :: "fops \<Rightarrow> (vfile \<Rightarrow> 'f vfs \<Rightarrow> 'f vfs \<times> (errno + unit)) option"
  fe_release :: "fops \<Rightarrow> (nat \<Rightarrow> vfile \<Rightarrow> 'f vfs \<Rightarrow> 'f vfs) option"

text \<open>\<open>file_put\<close> of the last reference.\<close>

definition file_last_put :: "'f fs_env \<Rightarrow> 'f file_env \<Rightarrow> vfile \<Rightarrow> 'f vfs \<Rightarrow> 'f vfs" where
  "file_last_put env fe f s =
     (let s = (case f_op f of None \<Rightarrow> s
               | Some k \<Rightarrow> (case fe_release fe k of None \<Rightarrow> s | Some release \<Rightarrow> release (f_inode f) f s))
      in inode_put (e_destroy env) (f_inode f) s)"

definition open_inode :: "'f fs_env \<Rightarrow> string \<Rightarrow> u32 \<Rightarrow> u16 \<Rightarrow> 'f vfs \<Rightarrow> 'f vfs \<times> (errno + nat)" where
  "open_inode env path flags mode s =
     (case vfs_walk env path s of
        (s', Inr i) \<Rightarrow> (s', Inr i)
      | (s', Inl e) \<Rightarrow>
          if e = ENOENT \<and> flags AND O_CREAT \<noteq> 0
          then (case vfs_create env path mode s' of
                  (s'', Inl e') \<Rightarrow> (s'', Inl e')
                | (s'', Inr ()) \<Rightarrow> vfs_walk env path s'')
          else (s', Inl e))"

text \<open>\<open>O_TRUNC\<close>; a null \<open>i_op\<close> is dereferenced.\<close>

definition open_truncate :: "'f fs_env \<Rightarrow> u32 \<Rightarrow> nat \<Rightarrow> 'f vfs \<Rightarrow> 'f vfs option" where
  "open_truncate env flags i s =
     (if flags AND O_TRUNC = 0 then Some s
      else case e_iop env i of
          None \<Rightarrow> None
        | Some ops \<Rightarrow>
            (case op_setarrt ops of
               None \<Rightarrow> Some s
             | Some f \<Rightarrow> map_option fst (f i \<lparr>ia_valid = ATTR_SIZE,
                 ia_stat = \<lparr>st_ino = 0, st_mode = 0, st_dev = 0, st_size = 0, st_atime = 0, st_mtime = 0, st_ctime = 0\<rparr>\<rparr> s)))"

text \<open>\<open>ok\<close> is the answer of the heap to the allocation of the file.\<close>

definition vfs_open :: "'f fs_env \<Rightarrow> 'f file_env \<Rightarrow> bool \<Rightarrow> string \<Rightarrow> u32 \<Rightarrow> u16 \<Rightarrow> 'f vfs \<Rightarrow> ('f vfs \<times> (errno + vfile)) option" where
  "vfs_open env fe ok path flags mode s =
     (case open_inode env path flags mode s of
        (s1, Inl e) \<Rightarrow> Some (s1, Inl e)
      | (s1, Inr i) \<Rightarrow>
          if \<not> ok then Some (inode_put (e_destroy env) i s1, Inl ENOMEM)
          else (case open_truncate env flags i s1 of
              None \<Rightarrow> None
            | Some s2 \<Rightarrow>
                (let f = \<lparr>f_inode = i, f_pos = 0, f_flags = flags, f_op = i_fop (vf_ino s2 i)\<rparr> in
                 case f_op f of
                   None \<Rightarrow> Some (s2, Inr f)
                 | Some k \<Rightarrow>
                     (case fe_open fe k of
                        None \<Rightarrow> Some (s2, Inr f)
                      | Some op \<Rightarrow>
                          (case op i f s2 of
                             (s3, Inr f') \<Rightarrow> Some (s3, Inr f')
                           | (s3, Inl e) \<Rightarrow> Some (file_last_put env fe f s3, Inl e))))))"

subsection \<open>Mounting\<close>

text \<open>
  \<open>find_fs_by_name\<close> walks the registered file systems, the last registered first. A file system
  type provides \<open>mount\<close>, which answers the root inode of a new super block, and perhaps
  \<open>unmount\<close>.
\<close>

record 'f fs_type =
  ft_name :: string
  ft_mount :: "string \<Rightarrow> 'f vfs \<Rightarrow> 'f vfs \<times> (errno + nat option)"
  ft_unmount :: "(nat \<Rightarrow> 'f vfs \<Rightarrow> 'f vfs) option"

definition vfs_register_filesystem :: "'f fs_type \<Rightarrow> 'f fs_type list \<Rightarrow> 'f fs_type list" where
  "vfs_register_filesystem ft fss = ft # fss"

fun find_fs_by_name :: "'f fs_type list \<Rightarrow> string \<Rightarrow> 'f fs_type option" where
  "find_fs_by_name [] name = None"
| "find_fs_by_name (ft # fss) name = (if ft_name ft = name then Some ft else find_fs_by_name fss name)"

function dup_mount_last :: "string \<Rightarrow> string option \<Rightarrow> string option" where
  "dup_mount_last cursor found =
     (case path_iterate cursor of None \<Rightarrow> found | Some (c, rest) \<Rightarrow> dup_mount_last rest (Some c))"
  by pat_completeness auto
termination
  by (relation "measure (\<lambda>(cursor, found). length cursor)") auto

declare dup_mount_last.simps [simp del]

definition dup_mount_name :: "string \<Rightarrow> string" where
  "dup_mount_name mountpoint = (case dup_mount_last mountpoint None of None \<Rightarrow> ''/'' | Some c \<Rightarrow> c)"

text \<open>
  \<open>vfs_mount\<close>: \<open>mem\<close> is the answer of the heap for the mount, \<open>name_ok\<close> that for its name.
\<close>

definition vfs_mount :: "'f fs_env \<Rightarrow> 'f fs_type list \<Rightarrow> nat option \<Rightarrow> bool \<Rightarrow> string \<Rightarrow> string \<Rightarrow> string
    \<Rightarrow> 'f vfs \<Rightarrow> 'f vfs \<times> (errno + unit)" where
  "vfs_mount env fss mem name_ok source mountpoint fs_name s =
     (case find_fs_by_name fss fs_name of
        None \<Rightarrow> (s, Inl ENOENT)
      | Some ft \<Rightarrow>
          (case (if vf_root_mount s = None then (s, Inr None) else map_prod id (map_sum id Some) (vfs_walk_path env mountpoint s)) of
             (s1, Inl e) \<Rightarrow> (s1, Inl e)
           | (s1, Inr point) \<Rightarrow>
               (let release = (\<lambda>s. case point of None \<Rightarrow> s | Some (_, i) \<Rightarrow> inode_put (e_destroy env) i s) in
                case mem of
                  None \<Rightarrow> (release s1, Inl ENOMEM)
                | Some m \<Rightarrow>
                    if \<not> name_ok then (release s1, Inl ENOMEM)
                    else (case ft_mount ft source s1 of
                        (s2, Inl e) \<Rightarrow> (release s2, Inl e)
                      | (s2, Inr None) \<Rightarrow> (release s2, Inl EAGAIN)
                      | (s2, Inr (Some root)) \<Rightarrow>
                          (let mnt = \<lparr>mnt_name = dup_mount_name mountpoint, mnt_root = root, mnt_point = map_option snd point,
                                      mnt_sb = i_sb (vf_ino s2 root), mnt_parent = map_option fst point, mnt_children = []\<rparr>;
                               s3 = s2\<lparr>vf_mnt := (vf_mnt s2)(m := mnt)\<rparr>
                           in case point of
                                None \<Rightarrow> (s3\<lparr>vf_root_mount := Some m\<rparr>, Inr ())
                              | Some (p, i) \<Rightarrow>
                                  (let s4 = upd_ino i (\<lambda>n. n\<lparr>i_mounted := Some m\<rparr>) s3
                                   in (s4\<lparr>vf_mnt := (vf_mnt s4)(p := (vf_mnt s4 p)\<lparr>mnt_children := m # mnt_children (vf_mnt s4 p)\<rparr>)\<rparr>,
                                       Inr ())))))))"

definition do_umount :: "'f fs_env \<Rightarrow> (nat \<Rightarrow> 'f vfs \<Rightarrow> 'f vfs) option \<Rightarrow> nat \<Rightarrow> 'f vfs \<Rightarrow> 'f vfs \<times> (errno + unit)" where
  "do_umount env unmount m s =
     (let mnt = vf_mnt s m; inodes = vf_sb s (mnt_sb mnt) in
      if mnt_children mnt \<noteq> [] then (s, Inl EBUSY)
      else if (\<exists>i \<in> set inodes. 1 < sint (i_ref (vf_ino s i))) then (s, Inl EBUSY)
      else
        (let s = fold (inode_destroy (e_destroy env)) inodes s;
             s = (case unmount of None \<Rightarrow> s | Some f \<Rightarrow> f (mnt_sb mnt) s);
             s = (case mnt_parent mnt of None \<Rightarrow> s
                  | Some p \<Rightarrow> s\<lparr>vf_mnt := (vf_mnt s)(p := (vf_mnt s p)\<lparr>mnt_children := remove1 m (mnt_children (vf_mnt s p))\<rparr>)\<rparr>);
             s = (if vf_root_mount s = Some m then s\<lparr>vf_root_mount := None\<rparr> else s)
         in (s, Inr ())))"

definition vfs_umount :: "'f fs_env \<Rightarrow> (nat \<Rightarrow> 'f vfs \<Rightarrow> 'f vfs) option \<Rightarrow> string \<Rightarrow> 'f vfs \<Rightarrow> 'f vfs \<times> (errno + unit)" where
  "vfs_umount env unmount mountpoint s =
     (case vfs_walk_path env mountpoint s of
        (s1, Inl e) \<Rightarrow> (s1, Inl e)
      | (s1, Inr (m, i)) \<Rightarrow>
          (let s2 = inode_put (e_destroy env) i s1; point = mnt_point (vf_mnt s2 m);
               s3 = (case point of None \<Rightarrow> s2 | Some p \<Rightarrow> upd_ino p (\<lambda>n. n\<lparr>i_mounted := None\<rparr>) s2)
           in case do_umount env unmount m s3 of
                (s4, Inl e) \<Rightarrow> (case point of None \<Rightarrow> (s4, Inl e)
                  | Some p \<Rightarrow> (upd_ino p (\<lambda>n. n\<lparr>i_mounted := Some m\<rparr>) s4, Inl e))
              | (s4, Inr ()) \<Rightarrow> (case point of None \<Rightarrow> (s4, Inr ())
                  | Some p \<Rightarrow> (inode_put (e_destroy env) p s4, Inr ()))))"

subsection \<open>Splitting a path\<close>

fun split_slash :: "string \<Rightarrow> string list" where
  "split_slash [] = [[]]"
| "split_slash (c # cs) = (if c = CHR ''/'' then [] # split_slash cs
     else case split_slash cs of [] \<Rightarrow> [[c]] | w # ws \<Rightarrow> (c # w) # ws)"

definition components :: "string \<Rightarrow> string list" where
  "components p = filter (\<lambda>c. c \<noteq> []) (split_slash p)"

lemma split_slash_nonempty: "split_slash p \<noteq> []"
  by (cases p) (auto split: list.splits)

lemma split_slash_unfold:
  "split_slash p = takeWhile (\<lambda>c. c \<noteq> CHR ''/'') p #
     (case dropWhile (\<lambda>c. c \<noteq> CHR ''/'') p of [] \<Rightarrow> [] | _ # r \<Rightarrow> split_slash r)"
  by (induction p) auto

lemma components_slash [simp]: "components (CHR ''/'' # p) = components p"
  by (simp add: components_def)

lemma components_drop: "components (dropWhile (\<lambda>c. c = CHR ''/'') p) = components p"
  by (induction p) auto

lemma components_nil [simp]: "components [] = []"
  by (simp add: components_def)

lemma components_tail: "filter (\<lambda>c. c \<noteq> []) (case dropWhile (\<lambda>c. c \<noteq> CHR ''/'') q of [] \<Rightarrow> [] | _ # r \<Rightarrow> split_slash r)
    = components (dropWhile (\<lambda>c. c \<noteq> CHR ''/'') q)"
  by (induction q) (simp_all add: components_def)

lemma components_first: "x \<noteq> CHR ''/'' \<Longrightarrow> components (x # q) =
    (x # takeWhile (\<lambda>c. c \<noteq> CHR ''/'') q) # components (dropWhile (\<lambda>c. c \<noteq> CHR ''/'') q)"
  unfolding components_def by (subst split_slash_unfold) (simp add: components_tail [unfolded components_def])

text \<open>\<open>path_iterate\<close> yields the components one after the other.\<close>

lemma path_iterate_components:
  "components p = (case path_iterate p of None \<Rightarrow> [] | Some (c, r) \<Rightarrow> c # components r)"
  by (induction p) (simp_all add: path_iterate_def components_first Let_def)

lemma dup_mount_last_components:
  "dup_mount_last p found = (if components p = [] then found else Some (last (components p)))"
proof (induction "length p" arbitrary: p found rule: less_induct)
  case less
  show ?case
    using path_iterate_components [of p] less.hyps
    by (subst dup_mount_last.simps) (auto split: option.splits)
qed

lemma dup_mount_name_last: "dup_mount_name p = (if components p = [] then ''/'' else last (components p))"
  by (simp add: dup_mount_name_def dup_mount_last_components)

subsection \<open>Walking\<close>

definition ref_ok :: "'f vfs \<Rightarrow> nat \<Rightarrow> bool" where
  "ref_ok s i \<longleftrightarrow> i_ref (vf_ino s i) \<noteq> 0 \<and> i_ref (vf_ino s i) + 1 \<noteq> 0"

lemma put_get_other:
  assumes "ref_ok s d"
  shows "inode_put destroy d (inode_get c (inode_get d s)) = inode_get c s"
  using assms by (auto simp: inode_put_def inode_get_def ref_ok_def Let_def fun_upd_twist add.commute)

lemma put_get: "ref_ok s d \<Longrightarrow> inode_put destroy d (inode_get d s) = s"
  by (simp add: inode_put_def inode_get_def ref_ok_def Let_def)

lemma inode_get_same [simp]:
  "i_mounted (vf_ino (inode_get c s) i) = i_mounted (vf_ino s i)" "vf_mnt (inode_get c s) = vf_mnt s"
  "vf_root_mount (inode_get c s) = vf_root_mount s" "vf_fs (inode_get c s) = vf_fs s"
  by (simp_all add: inode_get_def)

text \<open>Where a step ends: at the root of the file system mounted on the child, if there is one.\<close>

definition cross :: "'f vfs \<Rightarrow> nat \<Rightarrow> nat \<Rightarrow> nat \<times> nat" where
  "cross s mnt c = (case i_mounted (vf_ino s c) of None \<Rightarrow> (mnt, c) | Some m \<Rightarrow> (m, mnt_root (vf_mnt s m)))"

text \<open>The specification of a walk: follow the names, crossing mounts.\<close>

fun resolve :: "(nat \<Rightarrow> string \<Rightarrow> 'f vfs \<Rightarrow> errno + nat) \<Rightarrow> 'f vfs \<Rightarrow> string list \<Rightarrow> nat \<times> nat \<Rightarrow> errno + nat \<times> nat" where
  "resolve look s [] mc = Inr mc"
| "resolve look s (n # ns) mc =
     (case look (snd mc) n s of Inl e \<Rightarrow> Inl e | Inr c \<Rightarrow> resolve look s ns (cross s (fst mc) c))"

text \<open>
  The interface of a file system to the walk: looking a name up in a directory the caller holds
  finds what \<open>look\<close> says, takes a reference to it and changes nothing else, and what can be
  reached, mounted roots included, is referenced already.
\<close>

locale fs_iface =
  fixes env :: "'f fs_env" and look :: "nat \<Rightarrow> string \<Rightarrow> 'f vfs \<Rightarrow> errno + nat" and good :: "'f vfs \<Rightarrow> bool"
  assumes lookup_held: "good s \<Longrightarrow> vfs_lookup_path env d n (inode_get d s) =
      (case look d n s of Inl e \<Rightarrow> (inode_get d s, Inl e)
       | Inr c \<Rightarrow> (inode_get c (inode_get d s), Inr (c, i_mounted (vf_ino s c))))"
    and look_ref: "good s \<Longrightarrow> look d n s = Inr c \<Longrightarrow> ref_ok s c"
    and mount_ref: "good s \<Longrightarrow> i_mounted (vf_ino s c) = Some m \<Longrightarrow> ref_ok s (mnt_root (vf_mnt s m))"
    and root_ref: "good s \<Longrightarrow> vf_root_mount s = Some m \<Longrightarrow> ref_ok s (mnt_root (vf_mnt s m))"
begin

lemma cross_ref: "good s \<Longrightarrow> ref_ok s c \<Longrightarrow> ref_ok s (snd (cross s mnt c))"
  by (cases "i_mounted (vf_ino s c)") (auto simp: cross_def intro: mount_ref)

lemma walk_into_cross:
  assumes "good s" and "ref_ok s cur" and "ref_ok s c"
  shows "walk_into env cur c (i_mounted (vf_ino s c)) mnt (inode_get c (inode_get cur s))
    = (inode_get (snd (cross s mnt c)) s, snd (cross s mnt c), fst (cross s mnt c))"
  using assms
  by (cases "i_mounted (vf_ino s c)") (simp_all add: walk_into_def Let_def put_get_other cross_def)

lemma walk_loop_resolve:
  assumes "good s" and "ref_ok s cur"
  shows "walk_loop env path mnt cur (inode_get cur s) =
    (case resolve look s (components path) (mnt, cur) of Inl e \<Rightarrow> (s, Inl e) | Inr (m, i) \<Rightarrow> (inode_get i s, Inr (m, i)))"
  using assms(2)
proof (induction "length path" arbitrary: path mnt cur rule: less_induct)
  case less
  show ?case
  proof (cases "path_iterate path")
    case None
    then have "components path = []" using path_iterate_components [of path] by simp
    then show ?thesis using None by (subst walk_loop.simps) simp
  next
    case (Some nr)
    then obtain n r where nr: "path_iterate path = Some (n, r)" by (cases nr) simp
    then have c: "components path = n # components r" using path_iterate_components [of path] by simp
    show ?thesis
    proof (cases "look cur n s")
      case (Inl e)
      then show ?thesis
        using nr c less.prems by (subst walk_loop.simps) (simp add: lookup_held [OF assms(1)] put_get)
    next
      case (Inr ch)
      have rc: "ref_ok s ch" by (rule look_ref [OF assms(1) Inr])
      show ?thesis
        using nr c Inr walk_into_cross [OF assms(1) less.prems rc, of mnt]
          less.hyps [OF path_iterate_shorter [OF nr] cross_ref [OF assms(1) rc], of "fst (cross s mnt ch)"]
        by (subst walk_loop.simps) (simp add: lookup_held [OF assms(1)])
    qed
  qed
qed

lemma walk_path_resolve:
  assumes "good s" and "vf_root_mount s = Some m"
  shows "vfs_walk_path env path s = (case resolve look s (components path) (m, mnt_root (vf_mnt s m)) of
      Inl e \<Rightarrow> (s, Inl e) | Inr (m', i) \<Rightarrow> (inode_get i s, Inr (m', i)))"
  using walk_loop_resolve [OF assms(1) root_ref [OF assms]] assms(2) by (simp add: vfs_walk_path_def)

lemma resolve_mount:
  "map_sum id snd (resolve look s ns (m, i)) = map_sum id snd (resolve look s ns (m', i))"
proof (induction ns arbitrary: m m' i)
  case (Cons n ns)
  show ?case
  proof (cases "look i n s")
    case (Inr c)
    have "snd (cross s m c) = snd (cross s m' c)" by (simp add: cross_def split: option.splits)
    then show ?thesis
      using Inr Cons.IH [of "fst (cross s m c)" "snd (cross s m c)" "fst (cross s m' c)"]
      by (cases "cross s m c"; cases "cross s m' c") simp
  qed simp
qed simp

lemma walk_parent_resolve:
  assumes "good s" and "ref_ok s cur"
  shows "walk_parent_loop env path cur (inode_get cur s) =
    (if components path = [] then (s, Inl EINVAL)
     else case map_sum id snd (resolve look s (butlast (components path)) (0, cur)) of
         Inl e \<Rightarrow> (s, Inl e) | Inr i \<Rightarrow> (inode_get i s, Inr (i, last (components path))))"
  using assms(2)
proof (induction "length path" arbitrary: path cur rule: less_induct)
  case less
  show ?case
  proof (cases "path_iterate path")
    case None
    then have "components path = []" using path_iterate_components [of path] by simp
    then show ?thesis using None less.prems by (subst walk_parent_loop.simps) (simp add: put_get)
  next
    case (Some nr)
    then obtain n r where nr: "path_iterate path = Some (n, r)" by (cases nr) simp
    then have c: "components path = n # components r" using path_iterate_components [of path] by simp
    have nil: "path_iterate r = None \<longleftrightarrow> components r = []"
      using path_iterate_components [of r] by (auto split: option.splits)
    show ?thesis
    proof (cases "components r = []")
      case True
      then show ?thesis using nr c nil by (subst walk_parent_loop.simps) simp
    next
      case rest: False
      show ?thesis
      proof (cases "look cur n s")
        case (Inl e)
        then show ?thesis
          using nr c nil rest less.prems by (subst walk_parent_loop.simps) (simp add: lookup_held [OF assms(1)] put_get)
      next
        case (Inr ch)
        have rc: "ref_ok s ch" by (rule look_ref [OF assms(1) Inr])
        show ?thesis
          unfolding c last_ConsR [OF rest]
          using nr nil rest Inr walk_into_cross [OF assms(1) less.prems rc, of 0]
            less.hyps [OF path_iterate_shorter [OF nr] cross_ref [OF assms(1) rc]]
            resolve_mount [of s "butlast (components r)" "fst (cross s 0 ch)" "snd (cross s 0 ch)" 0]
          by (subst walk_parent_loop.simps) (auto simp: lookup_held [OF assms(1)])
      qed
    qed
  qed
qed

lemma resolve_ref:
  assumes "good s" and "ref_ok s (snd mc)" and "resolve look s ns mc = Inr mi"
  shows "ref_ok s (snd mi)"
  using assms(2,3)
proof (induction ns arbitrary: mc)
  case (Cons n ns)
  then obtain c where c: "look (snd mc) n s = Inr c" by (cases "look (snd mc) n s") auto
  show ?case
    using Cons.prems c by (intro Cons.IH [of "cross s (fst mc) c"] cross_ref [OF assms(1) look_ref [OF assms(1) c]]) simp
qed simp

text \<open>
  An operation on a name acts on the directory the path without its last component leads to, and
  the reference the walk holds on it is returned.
\<close>

lemma name_op_resolve:
  assumes "good s" and "vf_root_mount s = Some m" and "components path \<noteq> []"
  shows "name_op env pick path s =
    (case map_sum id snd (resolve look s (butlast (components path)) (0, mnt_root (vf_mnt s m))) of
       Inl e \<Rightarrow> (s, Inl e)
     | Inr d \<Rightarrow> (case Option.bind (e_iop env d) pick of
         None \<Rightarrow> (s, Inl ENOSYS)
       | Some f \<Rightarrow> (case f d (last (components path)) (inode_get d s) of (s', res) \<Rightarrow> (inode_put (e_destroy env) d s', res))))"
proof (cases "resolve look s (butlast (components path)) (0, mnt_root (vf_mnt s m))")
  case (Inl e)
  then show ?thesis using assms(2,3)
    by (simp add: name_op_def vfs_walk_parent_def walk_parent_resolve [OF assms(1) root_ref [OF assms(1,2)]])
next
  case (Inr mi)
  have "ref_ok s (snd mi)" by (rule resolve_ref [OF assms(1) _ Inr]) (simp add: root_ref [OF assms(1,2)])
  then show ?thesis using Inr assms(2,3)
    by (cases "e_iop env (snd mi)"; simp add: name_op_def vfs_walk_parent_def put_get
          walk_parent_resolve [OF assms(1) root_ref [OF assms(1,2)]] split: option.splits)
qed

end

end
