(* ===== verification/Wey_Rw.thy ===== *)
theory Wey_Rw
  imports Wey_Vfs Wey_Config
begin

text \<open>
  The system calls \<open>read\<close> and \<open>write\<close> (\<open>fs/read_write.c\<close>) with the copies between user and kernel
  space (\<open>usr/uaccess.c\<close>, \<open>arch/i386/usr/uaccess.asm\<close>). User memory is a partial function: an
  address without a byte faults, and the copy stops there through the exception table. What a
  driver does is an argument, a function from its state and a request to its new state and the
  \<open>int\<close> it returns; results are the \<open>int\<close>s of the code, negative for an error. \<open>None\<close> is an access
  through a null pointer or outside an array.
\<close>

subsection \<open>Copying\<close>

type_synonym umem = "addr \<Rightarrow> u8 option"

text \<open>\<open>rep movsb\<close> from user memory: the bytes copied before a fault.\<close>

fun user_bytes :: "umem \<Rightarrow> addr \<Rightarrow> nat \<Rightarrow> u8 list" where
  "user_bytes m a 0 = []"
| "user_bytes m a (Suc n) = (case m a of None \<Rightarrow> [] | Some b \<Rightarrow> b # user_bytes m (a + 1) n)"

fun user_store :: "umem \<Rightarrow> addr \<Rightarrow> u8 list \<Rightarrow> umem \<times> nat" where
  "user_store m a [] = (m, 0)"
| "user_store m a (b # bs) = (case m a of None \<Rightarrow> (m, Suc (length bs)) | Some _ \<Rightarrow> user_store (m(a := Some b)) (a + 1) bs)"

definition copy_from_user :: "umem \<Rightarrow> addr \<Rightarrow> nat \<Rightarrow> u8 list \<times> int" where
  "copy_from_user m src len =
     (if src = 0 then ([], - errno_val EINVAL)
      else let bs = user_bytes m src len in (bs, int len - int (length bs)))"

definition copy_to_user :: "umem \<Rightarrow> addr \<Rightarrow> u8 list \<Rightarrow> umem \<times> int" where
  "copy_to_user m dst bs =
     (if dst = 0 then (m, - errno_val EINVAL) else map_prod id int (user_store m dst bs))"

subsection \<open>The system calls\<close>

record 'st rw_ops =
  rw_read :: "('st \<Rightarrow> nat \<Rightarrow> 'st \<times> u8 list \<times> int) option"
  rw_write :: "('st \<Rightarrow> u8 list \<Rightarrow> 'st \<times> int) option"

text \<open>\<open>get_proc_file\<close>: an entry of the table is an open file, whose \<open>f_op\<close> may be null.\<close>

definition get_proc_file :: "int \<Rightarrow> 'f option list \<Rightarrow> (errno + 'f) option" where
  "get_proc_file fd tab =
     (if fd < 0 \<or> int PROC_FD_MAX < fd then Some (Inl EBADF)
      else if int (length tab) \<le> fd then None
      else case tab ! nat fd of None \<Rightarrow> Some (Inl EBADF) | Some f \<Rightarrow> Some (Inr f))"

definition vfs_read :: "'st rw_ops option option \<Rightarrow> nat \<Rightarrow> 'st \<Rightarrow> 'st \<times> u8 list \<times> int" where
  "vfs_read file n st =
     (case file of
        Some (Some ops) \<Rightarrow> (case rw_read ops of None \<Rightarrow> (st, [], - errno_val ENOSYS) | Some f \<Rightarrow> f st n)
      | _ \<Rightarrow> (st, [], - errno_val EIO))"

definition vfs_write :: "'st rw_ops option option \<Rightarrow> u8 list \<Rightarrow> 'st \<Rightarrow> 'st \<times> int" where
  "vfs_write file bs st =
     (case file of
        Some (Some ops) \<Rightarrow> (case rw_write ops of None \<Rightarrow> (st, - errno_val ENOSYS) | Some f \<Rightarrow> f st bs)
      | _ \<Rightarrow> (st, - errno_val EIO))"

definition RW_CHUNK :: nat where "RW_CHUNK = 512"

text \<open>The loop of \<open>write\<close>; \<open>left\<close> is \<open>count\<close>.\<close>

function sys_write_loop :: "'st rw_ops \<Rightarrow> umem \<Rightarrow> addr \<Rightarrow> nat \<Rightarrow> u32 \<Rightarrow> 'st \<Rightarrow> 'st \<times> int" where
  "sys_write_loop ops m buffer left done_n st =
     (if left = 0 then (st, uint done_n)
      else
        (let to_copy = min left RW_CHUNK in
         case copy_from_user m (buffer + done_n) to_copy of (bs, remaining) \<Rightarrow>
           if remaining \<noteq> 0 then
             (if done_n = 0 \<and> (word_of_int remaining :: u32) = of_nat to_copy then (st, - errno_val EFAULT)
              else (st, uint (done_n + (of_nat to_copy - word_of_int remaining))))
           else
             (case vfs_write (Some (Some ops)) bs st of (st', ret) \<Rightarrow>
                if ret < 0 then (st', ret)
                else if ret = 0 then (st', uint done_n)
                else if ret \<noteq> int to_copy then (st', uint (done_n + of_nat to_copy))
                else sys_write_loop ops m buffer (left - to_copy) (done_n + of_nat to_copy) st')))"
  by pat_completeness auto
termination
  by (relation "measure (\<lambda>(ops, m, buffer, left, done_n, st). left)") (auto simp: RW_CHUNK_def)

declare sys_write_loop.simps [simp del]

definition sys_write :: "'st rw_ops option option list \<Rightarrow> int \<Rightarrow> umem \<Rightarrow> addr \<Rightarrow> u32 \<Rightarrow> 'st \<Rightarrow> ('st \<times> int) option" where
  "sys_write tab fd m buffer count st =
     (case get_proc_file fd tab of
        None \<Rightarrow> None
      | Some (Inl e) \<Rightarrow> Some (st, - errno_val e)
      | Some (Inr fop) \<Rightarrow>
          if USER_SPACE_END < buffer + count then Some (st, - errno_val EFAULT)
          else (case fop of
              None \<Rightarrow> None
            | Some ops \<Rightarrow>
                if rw_write ops = None then Some (st, - errno_val ENOSYS)
                else Some (sys_write_loop ops m buffer (unat count) 0 st)))"

function sys_read_loop :: "'st rw_ops \<Rightarrow> addr \<Rightarrow> nat \<Rightarrow> u32 \<Rightarrow> umem \<Rightarrow> 'st \<Rightarrow> umem \<times> 'st \<times> int" where
  "sys_read_loop ops buffer left done_n m st =
     (if left = 0 then (m, st, uint done_n)
      else
        (let to_read = min left RW_CHUNK in
         case vfs_read (Some (Some ops)) to_read st of (st', bs, readed) \<Rightarrow>
           if readed < 0 then (m, st', readed)
           else if readed = 0 then (m, st', uint done_n)
           else
             (case copy_to_user m (buffer + done_n) (take (nat readed) bs) of (m', remaining) \<Rightarrow>
                if remaining \<noteq> 0 then
                  (if done_n = 0 \<and> remaining = readed then (m', st', - errno_val EFAULT)
                   else (m', st', uint (done_n + word_of_int (readed - remaining))))
                else if readed \<noteq> int to_read then (m', st', uint (done_n + word_of_int readed))
                else sys_read_loop ops buffer (left - to_read) (done_n + of_nat to_read) m' st')))"
  by pat_completeness auto
termination
  by (relation "measure (\<lambda>(ops, buffer, left, done_n, m, st). left)") (auto simp: RW_CHUNK_def)

declare sys_read_loop.simps [simp del]

definition sys_read :: "'st rw_ops option option list \<Rightarrow> int \<Rightarrow> addr \<Rightarrow> u32 \<Rightarrow> umem \<Rightarrow> 'st \<Rightarrow> (umem \<times> 'st \<times> int) option" where
  "sys_read tab fd buffer count m st =
     (case get_proc_file fd tab of
        None \<Rightarrow> None
      | Some (Inl e) \<Rightarrow> Some (m, st, - errno_val e)
      | Some (Inr fop) \<Rightarrow>
          if buffer = 0 \<or> USER_SPACE_END < buffer + count then Some (m, st, - errno_val EFAULT)
          else (case fop of
              None \<Rightarrow> None
            | Some ops \<Rightarrow>
                if rw_read ops = None then Some (m, st, - errno_val ENOSYS)
                else Some (sys_read_loop ops buffer (unat count) 0 m st)))"

subsection \<open>Writing\<close>

lemma user_bytes_all: "(\<And>k. k < n \<Longrightarrow> m (a + of_nat k) \<noteq> None) \<Longrightarrow> length (user_bytes m a n) = n"
proof (induction n arbitrary: a)
  case (Suc n)
  have "m a \<noteq> None" using Suc.prems [of 0] by simp
  moreover have "length (user_bytes m (a + 1) n) = n"
    using Suc.prems [of "Suc k" for k] by (intro Suc.IH) (simp add: add.assoc)
  ultimately show ?case by auto
qed simp

lemma user_bytes_append: "(\<And>k. k < n \<Longrightarrow> m (a + of_nat k) \<noteq> None) \<Longrightarrow>
    user_bytes m a (n + k) = user_bytes m a n @ user_bytes m (a + of_nat n) k"
proof (induction n arbitrary: a)
  case (Suc n)
  have "m a \<noteq> None" using Suc.prems [of 0] by simp
  moreover have "user_bytes m (a + 1) (n + k) = user_bytes m (a + 1) n @ user_bytes m (a + 1 + of_nat n) k"
    using Suc.prems [of "Suc j" for j] by (intro Suc.IH) (simp add: add.assoc)
  ultimately show ?case by (auto simp: add.assoc)
qed simp

function chunks :: "'a list \<Rightarrow> 'a list list" where
  "chunks bs = (if bs = [] then [] else take RW_CHUNK bs # chunks (drop RW_CHUNK bs))"
  by pat_completeness auto
termination
  by (relation "measure length") (auto simp: RW_CHUNK_def)

declare chunks.simps [simp del]

text \<open>A driver that takes whatever it is given receives the user's bytes in order, in pieces of 512.\<close>

lemma sys_write_loop_complete:
  assumes "\<And>st bs. put st bs = (app bs st, int (length bs))" and "rw_write ops = Some put"
    and "\<And>k. k < left \<Longrightarrow> m (buffer + done_n + of_nat k) \<noteq> None \<and> buffer + done_n + of_nat k \<noteq> 0"
    and "unat done_n + left < 2 ^ 32"
  shows "sys_write_loop ops m buffer left done_n st = (fold app (chunks (user_bytes m (buffer + done_n) left)) st, uint done_n + int left)"
  using assms(3,4)
proof (induction left arbitrary: done_n st rule: less_induct)
  case (less left)
  show ?case
  proof (cases "left = 0")
    case True
    then show ?thesis by (subst sys_write_loop.simps, subst chunks.simps) simp
  next
    case False
    let ?n = "min left RW_CHUNK"
    let ?b = "user_bytes m (buffer + done_n) ?n"
    have n: "0 < ?n" "?n \<le> left" using False by (auto simp: RW_CHUNK_def)
    have lb: "length ?b = ?n" using less.prems(1) by (intro user_bytes_all) auto
    have nz: "buffer + done_n \<noteq> 0" using less.prems(1) [of 0] False by simp
    have c: "copy_from_user m (buffer + done_n) ?n = (?b, 0)" using lb nz by (simp add: copy_from_user_def)
    have t: "unat (done_n + of_nat ?n) = unat done_n + ?n"
      using less.prems(2) n(2) by (subst unat_add_no_wrap) (auto simp: unat_of_nat)
    have tu: "uint (done_n + of_nat ?n) = uint done_n + int ?n" using t by (simp only: uint_nat of_nat_add)
    have all: "user_bytes m (buffer + done_n) left = ?b @ user_bytes m (buffer + (done_n + of_nat ?n)) (left - ?n)"
      using user_bytes_append [of ?n m "buffer + done_n" "left - ?n"] less.prems(1) n(2) by (auto simp: add.assoc)
    have ch: "chunks (?b @ user_bytes m (buffer + (done_n + of_nat ?n)) (left - ?n))
        = ?b # chunks (user_bytes m (buffer + (done_n + of_nat ?n)) (left - ?n))"
      using lb n(1) by (subst chunks.simps) (auto simp: min_def split: if_splits)
    have "sys_write_loop ops m buffer (left - ?n) (done_n + of_nat ?n) (app ?b st) =
        (fold app (chunks (user_bytes m (buffer + (done_n + of_nat ?n)) (left - ?n))) (app ?b st), uint (done_n + of_nat ?n) + int (left - ?n))"
    proof (rule less.IH)
      show "left - ?n < left" using n by simp
      show "unat (done_n + of_nat ?n) + (left - ?n) < 2 ^ 32" using t n(2) less.prems(2) by simp
      fix k assume "k < left - ?n"
      then show "m (buffer + (done_n + of_nat ?n) + of_nat k) \<noteq> None \<and> buffer + (done_n + of_nat ?n) + of_nat k \<noteq> 0"
        using less.prems(1) [of "?n + k"] by (simp add: add.assoc)
    qed
    then show ?thesis
      unfolding all ch using False n c lb tu assms(1,2) by (subst sys_write_loop.simps) (simp add: vfs_write_def Let_def)
  qed
qed



text \<open>
  \<open>write\<close> from a null pointer: the copy fails with -22, which the loop takes for a count, and the
  call returns 22 more than the number of bytes asked for although nothing was written.
\<close>

theorem sys_write_null_buffer:
  assumes "get_proc_file fd tab = Some (Inr (Some ops))" and "rw_write ops \<noteq> None" and "0 < count" and "count \<le> 512"
  shows "sys_write tab fd m 0 count st = Some (st, uint count + 22)"
proof -
  have c: "unat count \<le> 512" "unat count \<noteq> 0" using assms(3,4) by (auto simp: word_le_nat_alt unat_gt_0)
  have "min (unat count) RW_CHUNK = unat count" using c by (simp add: RW_CHUNK_def)
  moreover have "(word_of_int (- 22) :: u32) \<noteq> count" using c(1) by auto
  moreover have "unat (count + 22) = unat count + 22" using c(1) by (subst unat_add_no_wrap) simp_all
  then have "uint (count + 22) = uint count + 22" by (simp only: uint_nat)
  ultimately have "sys_write_loop ops m 0 (unat count) 0 st = (st, uint count + 22)"
    using c by (subst sys_write_loop.simps) (simp add: copy_from_user_def Let_def)
  moreover have "\<not> USER_SPACE_END < 0 + count" using c(1) by (simp add: config_defs word_less_nat_alt)
  ultimately show ?thesis using assms(1,2) by (auto simp: sys_write_def)
qed

subsection \<open>Concrete calls\<close>

definition log_ops :: "u8 list rw_ops" where
  "log_ops = \<lparr>rw_read = Some (\<lambda>st n. (st, replicate n 65, int n)), rw_write = Some (\<lambda>st bs. (st @ bs, int (length bs)))\<rparr>"

definition short_ops :: "u8 list rw_ops" where
  "short_ops = \<lparr>rw_read = None, rw_write = Some (\<lambda>st bs. (st @ take 1 bs, 1))\<rparr>"

definition user_mem :: umem where
  "user_mem a = Some (ucast a)"



theorem sys_write_null_buffer_witness:
  "sys_write [Some (Some log_ops)] 0 user_mem 0 10 [] = Some ([], 32)"
  using sys_write_null_buffer [of 0 "[Some (Some log_ops)]" log_ops 10 user_mem "[]"]
  by (simp add: log_ops_def get_proc_file_def config_defs)

text \<open>
  The check of the buffer of \<open>read\<close> wraps: a buffer at the end of the address space, above
  \<open>USER_SPACE_END\<close>, with a count that reaches past address 0 is accepted, and the bytes of the file
  are stored at a kernel address.
\<close>

theorem sys_read_check_wraps:
  "\<exists>buffer count. USER_SPACE_END < buffer \<and> \<not> USER_SPACE_END < buffer + count \<and>
     (\<exists>m' st r. sys_read [Some (Some log_ops)] 0 buffer count user_mem [] = Some (m', st, r) \<and> user_mem buffer \<noteq> Some 65 \<and> m' buffer = Some 65)"
proof -
  let ?tab = "[Some (Some log_ops)]"
  have stop: "sys_read_loop log_ops 0xFFFFFFFF 0 1 m st = (m, st, 1)" for m and st by (subst sys_read_loop.simps) simp
  have "sys_read_loop log_ops 0xFFFFFFFF 1 0 user_mem [] = (user_mem(0xFFFFFFFF := Some 65), [], 1)"
    by (subst sys_read_loop.simps)
      (simp add: vfs_read_def log_ops_def copy_to_user_def user_mem_def RW_CHUNK_def stop [unfolded log_ops_def])
  then have "sys_read ?tab 0 0xFFFFFFFF 1 user_mem [] = Some (user_mem(0xFFFFFFFF := Some 65), [], 1)"
    by (simp add: sys_read_def get_proc_file_def config_defs log_ops_def)
  then show ?thesis by (intro exI [of _ "0xFFFFFFFF"] exI [of _ "1"]) (simp add: config_defs user_mem_def)
qed

end
