(* ===== verification/Wey_Ramfs.thy ===== *)
theory Wey_Ramfs
  imports Wey_Vfs
begin

text \<open>
  The memory file system (\<open>fs/ramfs/\<close>). The private data of an inode (\<open>struct ramfs_inode\<close>) has
  the number of the inode; a page of a file is the list of its bytes, a hole \<open>None\<close>, and the
  length of the array of pages is \<open>page_capacity\<close>. \<open>rf_mem\<close> holds the answers of the heap and the
  page allocator to the requests to come, in order, a number being the object handed out.
  An access outside the array of pages is the value \<open>None\<close>.
\<close>

unbundle bit_operations_syntax

subsection \<open>Data\<close>

record ramfs_node =
  r_name :: string
  r_pages :: "u8 list option list"
  r_parent :: "nat option"
  r_children :: "nat list"

record ramfs =
  rf_node :: "nat \<Rightarrow> ramfs_node"
  rf_next_ino :: "nat \<Rightarrow> u32"
  rf_mem :: "nat option list"

type_synonym rvfs = "ramfs vfs"

abbreviation node :: "rvfs \<Rightarrow> nat \<Rightarrow> ramfs_node" where
  "node s i \<equiv> rf_node (vf_fs s) i"

abbreviation upd_node :: "nat \<Rightarrow> (ramfs_node \<Rightarrow> ramfs_node) \<Rightarrow> rvfs \<Rightarrow> rvfs" where
  "upd_node i f s \<equiv> s\<lparr>vf_fs := vf_fs s\<lparr>rf_node := (rf_node (vf_fs s))(i := f (rf_node (vf_fs s) i))\<rparr>\<rparr>"

definition zero_inode :: inode where
  "zero_inode = \<lparr>i_ino = 0, i_fop = None, i_mode = 0, i_dev = 0, i_size = 0, i_ref = 0, i_mounted = None, i_sb = 0,
                 i_atime = 0, i_mtime = 0, i_ctime = 0\<rparr>"

definition new_node :: ramfs_node where
  "new_node = \<lparr>r_name = [], r_pages = [], r_parent = None, r_children = []\<rparr>"

text \<open>The next answer of the allocators.\<close>

definition mem_take :: "rvfs \<Rightarrow> rvfs \<times> nat option" where
  "mem_take s = (case rf_mem (vf_fs s) of [] \<Rightarrow> (s, None) | a # as \<Rightarrow> (s\<lparr>vf_fs := vf_fs s\<lparr>rf_mem := as\<rparr>\<rparr>, a))"

subsection \<open>Inodes\<close>

definition ramfs_alloc_inode :: "nat \<Rightarrow> rvfs \<Rightarrow> rvfs \<times> nat option" where
  "ramfs_alloc_inode sb s =
     (case mem_take s of
        (s1, None) \<Rightarrow> (s1, None)
      | (s1, Some i) \<Rightarrow>
          (case mem_take s1 of
             (s2, None) \<Rightarrow> (s2, None)
           | (s2, Some _) \<Rightarrow>
               (let n = rf_next_ino (vf_fs s2) sb;
                    s3 = upd_node i (\<lambda>_. new_node) s2;
                    s4 = s3\<lparr>vf_fs := vf_fs s3\<lparr>rf_next_ino := (rf_next_ino (vf_fs s3))(sb := n + 1)\<rparr>\<rparr>
                in (upd_ino i (\<lambda>_. zero_inode\<lparr>i_ino := ucast n, i_sb := sb\<rparr>) s4, Some i))))"

definition ramfs_destroy_inode :: "nat \<Rightarrow> rvfs \<Rightarrow> rvfs" where
  "ramfs_destroy_inode i = upd_node i (\<lambda>r. r\<lparr>r_name := [], r_pages := []\<rparr>)"

definition ramfs_mount :: "nat \<Rightarrow> string \<Rightarrow> rvfs \<Rightarrow> rvfs \<times> (errno + nat option)" where
  "ramfs_mount sb dev_name s =
     (case mem_take s of
        (s1, None) \<Rightarrow> (s1, Inl ENOMEM)
      | (s1, Some _) \<Rightarrow>
          (case mem_take (s1\<lparr>vf_sb := (vf_sb s1)(sb := [])\<rparr>) of
             (s2, None) \<Rightarrow> (s2, Inl ENOMEM)
           | (s2, Some _) \<Rightarrow>
               (case inode_new ramfs_alloc_inode sb (s2\<lparr>vf_fs := vf_fs s2\<lparr>rf_next_ino := (rf_next_ino (vf_fs s2))(sb := 1)\<rparr>\<rparr>) of
                  (s3, None) \<Rightarrow> (s3, Inl ENOMEM)
                | (s3, Some root) \<Rightarrow>
                    (upd_ino root (\<lambda>n. n\<lparr>i_mode := S_IFDIR, i_fop := Some Ramfs_fops\<rparr>) s3, Inr (Some root)))))"

subsection \<open>Directories\<close>

definition ramfs_lookup :: "nat \<Rightarrow> string \<Rightarrow> rvfs \<Rightarrow> rvfs \<times> (errno + nat option)" where
  "ramfs_lookup dir name s =
     (case List.find (\<lambda>c. r_name (node s c) = name) (r_children (node s dir)) of
        None \<Rightarrow> (s, Inr None)
      | Some c \<Rightarrow> (inode_get c s, Inr (Some c)))"

definition ramfs_create_common :: "nat \<Rightarrow> string \<Rightarrow> u16 \<Rightarrow> u32 \<Rightarrow> rvfs \<Rightarrow> rvfs \<times> (errno + unit)" where
  "ramfs_create_common dir name mode dev s =
     (case ramfs_lookup dir name s of
        (s1, Inr (Some c)) \<Rightarrow> (inode_put ramfs_destroy_inode c s1, Inl EEXIST)
      | (s1, _) \<Rightarrow>
          (case mem_take s1 of
             (s2, None) \<Rightarrow> (s2, Inl ENOMEM)
           | (s2, Some _) \<Rightarrow>
               (case inode_new ramfs_alloc_inode (i_sb (vf_ino s2 dir)) s2 of
                  (s3, None) \<Rightarrow> (s3, Inl ENOMEM)
                | (s3, Some i) \<Rightarrow>
                    (let s4 = upd_node i (\<lambda>r. r\<lparr>r_name := name, r_parent := Some dir\<rparr>) s3;
                         s5 = upd_ino i (\<lambda>n. n\<lparr>i_mode := mode, i_dev := dev\<rparr>) s4;
                         s6 = (if S_ISREG mode \<or> S_ISDIR mode then upd_ino i (\<lambda>n. n\<lparr>i_fop := Some Ramfs_fops\<rparr>) s5
                               else inode_init_special i mode dev s5)
                     in (upd_node dir (\<lambda>r. r\<lparr>r_children := i # r_children r\<rparr>) s6, Inr ())))))"

definition ramfs_remove_common :: "nat \<Rightarrow> string \<Rightarrow> bool \<Rightarrow> rvfs \<Rightarrow> rvfs \<times> (errno + unit)" where
  "ramfs_remove_common dir name isFile s =
     (case List.find (\<lambda>c. r_name (node s c) = name) (r_children (node s dir)) of
        None \<Rightarrow> (s, Inl ENOENT)
      | Some c \<Rightarrow>
          if S_ISDIR (i_mode (vf_ino s c)) \<and> isFile then (s, Inl EINVAL)
          else if S_ISDIR (i_mode (vf_ino s c)) \<and> r_children (node s c) \<noteq> [] then (s, Inl ENOTEMPTY)
          else (inode_put ramfs_destroy_inode c (upd_node dir (\<lambda>r. r\<lparr>r_children := remove1 c (r_children r)\<rparr>) s), Inr ()))"

definition ramfs_mknod :: "nat \<Rightarrow> string \<Rightarrow> u16 \<Rightarrow> u32 \<Rightarrow> rvfs \<Rightarrow> rvfs \<times> (errno + unit)" where
  "ramfs_mknod dir name mode dev = ramfs_create_common dir name mode dev"

definition ramfs_create :: "nat \<Rightarrow> string \<Rightarrow> u16 \<Rightarrow> rvfs \<Rightarrow> rvfs \<times> (errno + unit)" where
  "ramfs_create dir name mode s =
     (if S_ISDIR mode then (s, Inl EINVAL) else ramfs_create_common dir name (mode OR S_IFREG) 0 s)"

definition ramfs_mkdir :: "nat \<Rightarrow> string \<Rightarrow> rvfs \<Rightarrow> rvfs \<times> (errno + unit)" where
  "ramfs_mkdir dir name = ramfs_create_common dir name (S_IFDIR OR 0x1FF) 0"

definition ramfs_unlink :: "nat \<Rightarrow> string \<Rightarrow> rvfs \<Rightarrow> rvfs \<times> (errno + unit)" where
  "ramfs_unlink dir name = ramfs_remove_common dir name True"

definition ramfs_rmdir :: "nat \<Rightarrow> string \<Rightarrow> rvfs \<Rightarrow> rvfs \<times> (errno + unit)" where
  "ramfs_rmdir dir name = ramfs_remove_common dir name False"

definition ramfs_getattr :: "nat \<Rightarrow> rvfs \<Rightarrow> errno + kstat" where
  "ramfs_getattr i s =
     (let n = vf_ino s i
      in Inr \<lparr>st_ino = i_ino n, st_mode = i_mode n, st_dev = i_dev n, st_size = i_size n,
              st_atime = i_atime n, st_mtime = i_mtime n, st_ctime = i_ctime n\<rparr>)"

subsection \<open>File contents\<close>

text \<open>\<open>ramfs_grow_pages_arr\<close>, on the answers and the array of pages.\<close>

definition ramfs_grow_pages_arr :: "u32 \<Rightarrow> nat option list \<Rightarrow> u8 list option list
    \<Rightarrow> (nat option list \<times> u8 list option list \<times> bool) option" where
  "ramfs_grow_pages_arr new_cap mem pages =
     (case mem of
        Some _ # mem' \<Rightarrow>
          if unat new_cap < length pages then None
          else Some (mem', pages @ replicate (unat new_cap - length pages) None, True)
      | _ \<Rightarrow> Some (tl mem, pages, False))"

definition next_cap :: "u8 list option list \<Rightarrow> u32" where
  "next_cap pages = (if pages = [] then 4 else of_nat (length pages) * 2)"

partial_function (option) grow_cap :: "u32 \<Rightarrow> u32 \<Rightarrow> u32 option" where
  "grow_cap new_cap new_page_count =
     (if new_cap < new_page_count then grow_cap (new_cap * 2) new_page_count else Some new_cap)"

definition truncate_pages :: "u32 \<Rightarrow> u32 \<Rightarrow> u8 list option list \<Rightarrow> u8 list option list option" where
  "truncate_pages old_size new_size pages =
     (let old_pc = unat ((old_size + 4096 - 1) div 4096); new_pc = unat ((new_size + 4096 - 1) div 4096);
          off = unat (new_size mod 4096)
      in case (if new_pc < old_pc \<and> new_pc \<le> length pages
               then (if old_pc \<le> length pages then Some (map (\<lambda>i. if new_pc \<le> i \<and> i < old_pc then None else pages ! i) [0..<length pages])
                     else None)
               else Some pages) of
           None \<Rightarrow> None
         | Some ps \<Rightarrow>
             if off \<noteq> 0 \<and> 0 < new_pc
             then (if new_pc - 1 < length ps
                   then Some (ps[new_pc - 1 := map_option (\<lambda>b. take off b @ replicate (4096 - off) 0) (ps ! (new_pc - 1))])
                   else None)
             else Some ps)"

definition ramfs_do_truncate :: "nat \<Rightarrow> u32 \<Rightarrow> rvfs \<Rightarrow> (rvfs \<times> (errno + unit)) option" where
  "ramfs_do_truncate i new_size s =
     (let old_size = i_size (vf_ino s i); pages = r_pages (node s i);
          new_pc = (new_size + 4096 - 1) div 4096
      in if new_size = old_size then Some (s, Inr ())
         else if new_size < old_size then
           (case truncate_pages old_size new_size pages of
              None \<Rightarrow> None
            | Some ps \<Rightarrow> Some (upd_ino i (\<lambda>n. n\<lparr>i_size := new_size\<rparr>) (upd_node i (\<lambda>r. r\<lparr>r_pages := ps\<rparr>) s), Inr ()))
         else if length pages < unat new_pc then
           (case grow_cap (next_cap pages) new_pc of
              None \<Rightarrow> None
            | Some cap \<Rightarrow>
                (case ramfs_grow_pages_arr cap (rf_mem (vf_fs s)) pages of
                   None \<Rightarrow> None
                 | Some (mem, ps, ok) \<Rightarrow>
                     (let s' = upd_node i (\<lambda>r. r\<lparr>r_pages := ps\<rparr>) (s\<lparr>vf_fs := vf_fs s\<lparr>rf_mem := mem\<rparr>\<rparr>)
                      in Some (if ok then (upd_ino i (\<lambda>n. n\<lparr>i_size := new_size\<rparr>) s', Inr ()) else (s', Inl ENOMEM)))))
         else Some (upd_ino i (\<lambda>n. n\<lparr>i_size := new_size\<rparr>) s, Inr ()))"

definition ramfs_setarrt :: "nat \<Rightarrow> iattr \<Rightarrow> rvfs \<Rightarrow> (rvfs \<times> (errno + unit)) option" where
  "ramfs_setarrt i attr s =
     (let st = ia_stat attr; set = (\<lambda>bit. ia_valid attr AND bit \<noteq> 0);
          s1 = (if set ATTR_MODE then upd_ino i (\<lambda>n. n\<lparr>i_mode := st_mode st\<rparr>) s else s)
      in case (if set ATTR_SIZE then map_option fst (ramfs_do_truncate i (st_size st) s1) else Some s1) of
           None \<Rightarrow> None
         | Some s2 \<Rightarrow>
             (let s3 = (if set ATTR_DEV then upd_ino i (\<lambda>n. n\<lparr>i_dev := st_dev st\<rparr>) s2 else s2);
                  s4 = (if set ATTR_ATIME then upd_ino i (\<lambda>n. n\<lparr>i_mtime := st_mtime st\<rparr>) s3 else s3);
                  s5 = (if set ATTR_MTIME then upd_ino i (\<lambda>n. n\<lparr>i_atime := st_atime st\<rparr>) s4 else s4)
              in Some (if set ATTR_CTIME then upd_ino i (\<lambda>n. n\<lparr>i_ctime := st_ctime st\<rparr>) s5 else s5, Inr ())))"

function ramfs_read_loop :: "u8 list option list \<Rightarrow> nat \<Rightarrow> nat \<Rightarrow> nat \<Rightarrow> u8 list option" where
  "ramfs_read_loop pages idx off remaining =
     (if remaining = 0 then Some []
      else if length pages \<le> idx then None
      else
        (let to_read = min remaining (4096 - off mod 4096);
             chunk = (case pages ! idx of None \<Rightarrow> replicate to_read 0 | Some b \<Rightarrow> take to_read (drop off b))
         in map_option (append chunk) (ramfs_read_loop pages (Suc idx) 0 (remaining - to_read))))"
  by pat_completeness auto
termination
  by (relation "measure (\<lambda>(pages, idx, off, remaining). remaining)") auto

declare ramfs_read_loop.simps [simp del]

definition ramfs_read :: "vfile \<Rightarrow> u32 \<Rightarrow> rvfs \<Rightarrow> (vfile \<times> u8 list) option" where
  "ramfs_read f count s =
     (let sz = i_size (vf_ino s (f_inode f)) in
      if uint sz \<le> f_pos f then Some (f, [])
      else
        (let cursor = unat (word_of_int (f_pos f) :: u32); available = word_of_int (uint sz - f_pos f) :: u32;
             count = (if available < count then available else count)
         in map_option (\<lambda>bs. (f\<lparr>f_pos := f_pos f + int (length bs)\<rparr>, bs))
              (ramfs_read_loop (r_pages (node s (f_inode f))) (cursor div 4096) (cursor mod 4096) (unat count))))"

text \<open>
  The loop of \<open>ramfs_write\<close> on the answers, the pages and what remains of the buffer; the result
  carries the bytes written and whether the loop ran to its end.
\<close>

function ramfs_write_loop :: "nat option list \<Rightarrow> u8 list option list \<Rightarrow> nat \<Rightarrow> nat \<Rightarrow> u8 list \<Rightarrow> nat
    \<Rightarrow> (nat option list \<times> u8 list option list \<times> nat \<times> bool) option" where
  "ramfs_write_loop mem pages idx off data written =
     (if data = [] then Some (mem, pages, written, True)
      else
        case (if length pages \<le> idx then ramfs_grow_pages_arr (next_cap pages) mem pages else Some (mem, pages, True)) of
          None \<Rightarrow> None
        | Some (mem1, pages1, ok) \<Rightarrow>
            if \<not> ok then Some (mem1, pages1, written, False)
            else if length pages1 \<le> idx then None
            else
              (case (case pages1 ! idx of
                       Some b \<Rightarrow> Some (mem1, b)
                     | None \<Rightarrow> (case mem1 of Some _ # mem2 \<Rightarrow> Some (mem2, replicate 4096 0) | _ \<Rightarrow> None)) of
                 None \<Rightarrow> Some (tl mem1, pages1, written, False)
               | Some (mem2, b) \<Rightarrow>
                   (let n = min (length data) (4096 - off mod 4096);
                        b' = take off b @ take n data @ drop (off + n) b
                    in ramfs_write_loop mem2 (pages1[idx := Some b']) (Suc idx) 0 (drop n data) (written + n))))"
  by pat_completeness auto
termination
  by (relation "measure (\<lambda>(mem, pages, idx, off, data, written). length data)") auto

declare ramfs_write_loop.simps [simp del]

text \<open>The \<open>int\<close> the function returns is read as a count, so a count is below \<open>2 ^ 31\<close>.\<close>

definition ramfs_write :: "vfile \<Rightarrow> u8 list \<Rightarrow> rvfs \<Rightarrow> (rvfs \<times> vfile \<times> (errno + nat)) option" where
  "ramfs_write f data s =
     (if data = [] then Some (s, f, Inr 0)
      else
        (let i = f_inode f; cursor = unat (word_of_int (f_pos f) :: u32) in
         case ramfs_write_loop (rf_mem (vf_fs s)) (r_pages (node s i)) (cursor div 4096) (cursor mod 4096) data 0 of
           None \<Rightarrow> None
         | Some (mem, pages, written, complete) \<Rightarrow>
             (let s' = upd_node i (\<lambda>r. r\<lparr>r_pages := pages\<rparr>) (s\<lparr>vf_fs := vf_fs s\<lparr>rf_mem := mem\<rparr>\<rparr>) in
              if \<not> complete then Some (s', f, if written \<noteq> 0 then Inr written else Inl ENOMEM)
              else
                (let pos = f_pos f + int written;
                     s'' = (if uint (i_size (vf_ino s' i)) < pos then upd_ino i (\<lambda>n. n\<lparr>i_size := word_of_int pos\<rparr>) s' else s')
                 in Some (s'', f\<lparr>f_pos := pos\<rparr>, Inr written)))))"

text \<open>\<open>whence\<close> is 0, 1 or 2 for \<open>SEEK_SET\<close>, \<open>SEEK_CUR\<close> and \<open>SEEK_END\<close>; a sum beyond \<open>off_t\<close> is undefined.\<close>

definition ramfs_lseek :: "vfile \<Rightarrow> int \<Rightarrow> int \<Rightarrow> rvfs \<Rightarrow> (rvfs \<times> vfile \<times> (errno + int)) option" where
  "ramfs_lseek f offset whence s =
     (let filesize = uint (i_size (vf_ino s (f_inode f))) in
      if whence \<noteq> 0 \<and> whence \<noteq> 1 \<and> whence \<noteq> 2 then Some (s, f, Inl EINVAL)
      else
        (let target = (if whence = 0 then offset else if whence = 1 then f_pos f + offset else filesize + offset) in
         if target < - (2 ^ 63) \<or> 2 ^ 63 \<le> target then None
         else if target < 0 then Some (s, f, Inl EINVAL)
         else if filesize < target then
           (case ramfs_do_truncate (f_inode f) (word_of_int target) s of
              None \<Rightarrow> None
            | Some (s', Inl e) \<Rightarrow> Some (s', f, Inl e)
            | Some (s', Inr ()) \<Rightarrow> Some (s', f\<lparr>f_pos := uint (word_of_int target :: u32)\<rparr>, Inr target))
         else Some (s, f\<lparr>f_pos := uint (word_of_int target :: u32)\<rparr>, Inr target)))"

subsection \<open>The operation tables\<close>

definition ramfs_iops :: "ramfs inode_ops" where
  "ramfs_iops = \<lparr>op_lookup = Some ramfs_lookup, op_create = Some ramfs_create, op_mknod = Some ramfs_mknod,
     op_unlink = Some ramfs_unlink, op_mkdir = Some ramfs_mkdir, op_rmdir = Some ramfs_rmdir,
     op_getattr = Some ramfs_getattr, op_setarrt = Some ramfs_setarrt\<rparr>"

definition ram_env :: "ramfs fs_env" where
  "ram_env = \<lparr>e_iop = \<lambda>_. Some ramfs_iops, e_destroy = ramfs_destroy_inode\<rparr>"

end
