(* ===== verification/Wey_Ramtree.thy ===== *)
theory Wey_Ramtree
  imports Wey_Ramfs
begin

text \<open>
  The directory tree of the memory file system: the invariant of the tree, the interpretation of
  the interface a walk relies on, and the effect of creating and removing names.
\<close>

unbundle bit_operations_syntax

subsection \<open>The directory tree\<close>

definition ram_look :: "nat \<Rightarrow> string \<Rightarrow> rvfs \<Rightarrow> errno + nat" where
  "ram_look d n s = (case List.find (\<lambda>c. r_name (node s c) = n) (r_children (node s d)) of None \<Rightarrow> Inl ENOENT | Some c \<Rightarrow> Inr c)"

definition is_root :: "rvfs \<Rightarrow> nat \<Rightarrow> bool" where
  "is_root s i \<longleftrightarrow> (\<exists>c m. i_mounted (vf_ino s c) = Some m \<and> mnt_root (vf_mnt s m) = i)
     \<or> (\<exists>m. vf_root_mount s = Some m \<and> mnt_root (vf_mnt s m) = i)"

definition known :: "rvfs \<Rightarrow> nat \<Rightarrow> bool" where
  "known s i \<longleftrightarrow> (\<exists>d. i \<in> set (r_children (node s d))) \<or> is_root s i"

text \<open>
  The invariant: names are unique in a directory, a node is in the list of its parent only, what
  can be reached is referenced, and the objects the heap will hand out are not in use.
\<close>

definition ram_ok :: "rvfs \<Rightarrow> bool" where
  "ram_ok s \<longleftrightarrow>
     (\<forall>d. distinct (map (\<lambda>c. r_name (node s c)) (r_children (node s d)))) \<and>
     (\<forall>d. \<forall>c \<in> set (r_children (node s d)). r_parent (node s c) = Some d) \<and>
     (\<forall>i. is_root s i \<longrightarrow> r_parent (node s i) = None) \<and>
     (\<forall>i. known s i \<longrightarrow> ref_ok s i) \<and>
     (\<forall>a. Some a \<in> set (rf_mem (vf_fs s)) \<longrightarrow> \<not> known s a) \<and>
     distinct (filter (\<lambda>x. x \<noteq> None) (rf_mem (vf_fs s)))"

lemma ram_okD:
  assumes "ram_ok s"
  shows "distinct (map (\<lambda>c. r_name (node s c)) (r_children (node s d)))"
    and "c \<in> set (r_children (node s d)) \<Longrightarrow> r_parent (node s c) = Some d"
    and "is_root s i \<Longrightarrow> r_parent (node s i) = None"
    and "known s i \<Longrightarrow> ref_ok s i"
    and "Some a \<in> set (rf_mem (vf_fs s)) \<Longrightarrow> \<not> known s a"
    and "distinct (filter (\<lambda>x. x \<noteq> None) (rf_mem (vf_fs s)))"
  using assms by (simp_all add: ram_ok_def)

lemma find_child: "List.find (\<lambda>c. r_name (g c) = n) cs = Some c \<Longrightarrow> c \<in> set cs \<and> r_name (g c) = n"
  by (auto simp: find_Some_iff)

lemma ram_look_known: "ram_look d n s = Inr c \<Longrightarrow> c \<in> set (r_children (node s d)) \<and> r_name (node s c) = n"
  by (auto simp: ram_look_def find_Some_iff split: option.splits)

lemma ram_look_member:
  assumes "ram_ok s" and "c \<in> set (r_children (node s d))"
  shows "ram_look d (r_name (node s c)) s = Inr c"
proof -
  have "List.find (\<lambda>x. r_name (node s x) = r_name (node s c)) cs = Some c"
    if "distinct (map (\<lambda>c. r_name (node s c)) cs)" "c \<in> set cs" for cs
    using that by (induction cs) auto
  then show ?thesis using ram_okD(1) [OF assms(1)] assms(2) by (simp add: ram_look_def)
qed

lemma ram_look_iff:
  "ram_ok s \<Longrightarrow> ram_look d n s = Inr c \<longleftrightarrow> c \<in> set (r_children (node s d)) \<and> r_name (node s c) = n"
  using ram_look_known [of d n s c] ram_look_member [of s c d] by auto

lemma ram_look_eqI: "(\<And>x. ram_look d n s = Inr x \<longleftrightarrow> ram_look d' n' s' = Inr x) \<Longrightarrow> ram_look d n s = ram_look d' n' s'"
  by (cases "ram_look d n s"; cases "ram_look d' n' s'") (auto simp: ram_look_def split: option.splits)

lemma ram_look_none: "ram_look d n s = Inl e \<longleftrightarrow> e = ENOENT \<and> n \<notin> (\<lambda>c. r_name (node s c)) ` set (r_children (node s d))"
  by (auto simp: ram_look_def find_None_iff find_Some_iff split: option.splits)

interpretation rfs: fs_iface ram_env ram_look ram_ok
proof (unfold_locales, goal_cases)
  case (1 s d n)
  then show ?case
    by (auto simp: vfs_lookup_path_def ram_env_def ramfs_iops_def ramfs_lookup_def ram_look_def split: option.splits)
next
  case (2 s d n c)
  then show ?case using ram_look_known [of d n s c] ram_okD(4) [of s c] by (auto simp: known_def)
next
  case (3 s c m)
  then show ?case using ram_okD(4) [of s "mnt_root (vf_mnt s m)"] by (auto simp: known_def is_root_def)
next
  case (4 s m)
  then show ?case using ram_okD(4) [of s "mnt_root (vf_mnt s m)"] by (auto simp: known_def is_root_def)
qed

text \<open>What a successful creation does to the state.\<close>

definition added :: "nat \<Rightarrow> string \<Rightarrow> u16 \<Rightarrow> nat \<Rightarrow> nat option list \<Rightarrow> rvfs \<Rightarrow> rvfs \<Rightarrow> bool" where
  "added d n mode i mem s s' \<longleftrightarrow>
     vf_mnt s' = vf_mnt s \<and> vf_root_mount s' = vf_root_mount s \<and> rf_mem (vf_fs s') = mem \<and>
     (\<exists>X. vf_ino s' = (vf_ino s)(i := X) \<and> i_mounted X = None \<and> i_ref X = 1 \<and> i_mode X = mode \<and> i_size X = 0) \<and>
     rf_node (vf_fs s') = (rf_node (vf_fs s))(i := \<lparr>r_name = n, r_pages = [], r_parent = Some d, r_children = []\<rparr>,
       d := (node s d)\<lparr>r_children := i # r_children (node s d)\<rparr>)"

lemma create_common_added:
  assumes "ram_look d n s = Inl ENOENT" and "rf_mem (vf_fs s) = Some x # Some i # Some y # mem" and "d \<noteq> i"
  obtains s' where "ramfs_create_common d n mode dev s = (s', Inr ())" and "added d n mode i mem s s'"
    and "ramfs_create_common d n mode dev (inode_get d s) = (inode_get d s', Inr ())"
proof -
  have f: "List.find (\<lambda>c. r_name (node s c) = n) (r_children (node s d)) = None"
    using assms(1) by (simp add: ram_look_def split: option.splits)
  let ?s' = "fst (ramfs_create_common d n mode dev s)"
  have "ramfs_create_common d n mode dev s = (?s', Inr ())"
    using assms(2) by (simp add: ramfs_create_common_def ramfs_lookup_def f mem_take_def inode_new_def ramfs_alloc_inode_def Let_def)
  moreover have "added d n mode i mem s ?s'"
    using assms(2,3)
    by (simp add: added_def ramfs_create_common_def ramfs_lookup_def f mem_take_def inode_new_def ramfs_alloc_inode_def Let_def
        inode_init_special_def zero_inode_def new_node_def fun_eq_iff)
  moreover have "ramfs_create_common d n mode dev (inode_get d s) = (inode_get d ?s', Inr ())"
    using assms(2,3)
    by (simp add: ramfs_create_common_def ramfs_lookup_def f mem_take_def inode_new_def ramfs_alloc_inode_def Let_def
        inode_init_special_def zero_inode_def new_node_def inode_get_def fun_upd_twist)
  ultimately show ?thesis using that by blast
qed

lemma added_look:
  assumes "added d n mode i mem s s'" and "ram_ok s" and "d \<noteq> i" and "\<not> known s i"
  shows "ram_look d n s' = Inr i" and "d' \<noteq> i \<Longrightarrow> (d', n') \<noteq> (d, n) \<Longrightarrow> ram_look d' n' s' = ram_look d' n' s"
proof -
  have nd: "rf_node (vf_fs s') = (rf_node (vf_fs s))(i := \<lparr>r_name = n, r_pages = [], r_parent = Some d, r_children = []\<rparr>,
       d := (node s d)\<lparr>r_children := i # r_children (node s d)\<rparr>)"
    using assms(1) by (simp add: added_def)
  show "ram_look d n s' = Inr i" using nd assms(3) by (simp add: ram_look_def)
  have same: "r_name (node s' c) = r_name (node s c)" if "c \<in> set (r_children (node s d'))" for c d'
    using nd assms(4) that by (auto simp: known_def)
  have "List.find (\<lambda>c. r_name (node s' c) = n') (r_children (node s d')) =
      List.find (\<lambda>c. r_name (node s c) = n') (r_children (node s d'))"
    using same [of _ d'] by (intro find_cong) auto
  moreover have "r_children (node s' d') = (if d' = d then i # r_children (node s d) else r_children (node s d'))" if "d' \<noteq> i"
    using nd that by simp
  moreover have "r_name (node s' i) = n" using nd assms(3) by simp
  ultimately show "ram_look d' n' s' = ram_look d' n' s" if "d' \<noteq> i" "(d', n') \<noteq> (d, n)"
    using that assms(3) by (auto simp: ram_look_def)
qed

lemma added_ok:
  assumes a: "added d n mode i mem s s'" and "ram_ok s" and "d \<noteq> i" and "\<not> known s i"
    and "ram_look d n s = Inl ENOENT" and "rf_mem (vf_fs s) = Some x # Some i # Some y # mem"
  shows "ram_ok s'"
proof -
  let ?nn = "\<lparr>r_name = n, r_pages = [], r_parent = Some d, r_children = []\<rparr>"
  obtain X where X: "vf_ino s' = (vf_ino s)(i := X)" "i_mounted X = None" "i_ref X = 1"
    using a by (auto simp: added_def)
  have m: "vf_mnt s' = vf_mnt s" "vf_root_mount s' = vf_root_mount s" "rf_mem (vf_fs s') = mem"
    using a by (simp_all add: added_def)
  have nd: "rf_node (vf_fs s') = (rf_node (vf_fs s))(i := ?nn, d := (node s d)\<lparr>r_children := i # r_children (node s d)\<rparr>)"
    using a by (simp add: added_def)
  have ch: "r_children (node s' e) = (if e = d then i # r_children (node s d) else if e = i then [] else r_children (node s e))" for e
    using nd assms(3) by simp
  have nm: "r_name (node s' c) = (if c = i then n else r_name (node s c))"
    and pa: "r_parent (node s' c) = (if c = i then Some d else r_parent (node s c))" for c using nd assms(3) by simp_all
  have ni: "i \<notin> set (r_children (node s e))" for e using assms(4) by (auto simp: known_def)
  have root: "is_root s' j \<Longrightarrow> is_root s j" for j using X m by (auto simp: is_root_def split: if_splits)
  have kn: "known s' j \<Longrightarrow> known s j \<or> j = i" for j using root [of j] by (auto simp: known_def ch split: if_splits)
  show ?thesis
    unfolding ram_ok_def
  proof (intro conjI allI impI ballI)
    fix e
    have q: "map (\<lambda>c. r_name (node s' c)) (r_children (node s e)) = map (\<lambda>c. r_name (node s c)) (r_children (node s e))"
      using ni [of e] by (auto simp: nm)
    have "n \<notin> set (map (\<lambda>c. r_name (node s c)) (r_children (node s d)))" using assms(5) by (simp add: ram_look_none)
    then have "distinct (n # map (\<lambda>c. r_name (node s' c)) (r_children (node s e)))" if "e = d"
      using ram_okD(1) [OF assms(2), of e] that unfolding q by simp
    moreover have "distinct (map (\<lambda>c. r_name (node s' c)) (r_children (node s e)))"
      unfolding q by (rule ram_okD(1) [OF assms(2)])
    ultimately show "distinct (map (\<lambda>c. r_name (node s' c)) (r_children (node s' e)))"
      using nm [of i] by (cases "e = d") (simp_all add: ch)
  next
    fix e c assume "c \<in> set (r_children (node s' e))"
    then show "r_parent (node s' c) = Some e"
      using ram_okD(2) [OF assms(2), of c] ni [of e] by (auto simp: ch pa split: if_splits)
  next
    fix j assume "is_root s' j"
    then have "is_root s j" by (rule root)
    then show "r_parent (node s' j) = None"
      using ram_okD(3) [OF assms(2), of j] assms(4) by (auto simp: pa known_def)
  next
    fix j assume "known s' j"
    then show "ref_ok s' j"
      using kn [of j] ram_okD(4) [OF assms(2), of j] X by (auto simp: ref_ok_def)
  next
    fix b assume "Some b \<in> set (rf_mem (vf_fs s'))"
    then show "\<not> known s' b"
      using kn [of b] ram_okD(5) [OF assms(2), of b] ram_okD(6) [OF assms(2)] assms(6) by (auto simp: m)
  next
    show "distinct (filter (\<lambda>x. x \<noteq> None) (rf_mem (vf_fs s')))"
      using ram_okD(6) [OF assms(2)] assms(6) by (simp add: m)
  qed
qed

lemma look_cross_known: "ram_look d n s = Inr c \<Longrightarrow> known s (snd (cross s k c))"
  using ram_look_known [of d n s c] by (auto simp: cross_def known_def is_root_def split: option.splits)

lemma resolve_mono:
  assumes "resolve ram_look s ns mc = Inr mi" and "known s (snd mc)"
    and "\<And>d n c. known s d \<Longrightarrow> ram_look d n s = Inr c \<Longrightarrow>
      ram_look d n s' = Inr c \<and> i_mounted (vf_ino s' c) = i_mounted (vf_ino s c)"
    and "vf_mnt s' = vf_mnt s"
  shows "resolve ram_look s' ns mc = Inr mi"
  using assms(1,2)
proof (induction ns arbitrary: mc)
  case (Cons n ns)
  then obtain c where c: "ram_look (snd mc) n s = Inr c" by (cases "ram_look (snd mc) n s") auto
  have "resolve ram_look s' ns (cross s (fst mc) c) = Inr mi"
    using Cons.prems c look_cross_known [OF c] by (intro Cons.IH) simp_all
  moreover have "cross s' (fst mc) c = cross s (fst mc) c"
    using assms(3) [OF Cons.prems(2) c] assms(4) by (simp add: cross_def split: option.splits)
  ultimately show ?case using assms(3) [OF Cons.prems(2) c] by simp
qed simp

lemma resolve_append:
  "resolve look s (ns @ ms) mc = (case resolve look s ns mc of Inl e \<Rightarrow> Inl e | Inr mi \<Rightarrow> resolve look s ms mi)"
  by (induction ns arbitrary: mc) (simp_all split: sum.splits)

lemma resolve_known:
  assumes "resolve ram_look s ns mc = Inr mi" and "known s (snd mc)"
  shows "known s (snd mi)"
  using assms
proof (induction ns arbitrary: mc)
  case (Cons n ns)
  then obtain c where c: "ram_look (snd mc) n s = Inr c" by (cases "ram_look (snd mc) n s") auto
  then show ?case using Cons look_cross_known [OF c] by simp
qed simp

lemma resolve_fst: "map_sum id snd (resolve look s ns (k, i)) = Inr d \<Longrightarrow> \<exists>m. resolve look s ns (k, i) = Inr (m, d)"
  by (cases "resolve look s ns (k, i)") auto

text \<open>
  C30. Creating a file by its path: when the directory exists, the name is free and memory is
  available, the file is created with the given mode and size 0, every other name of every other
  directory finds what it found before, walking the path now finds the new file with one reference
  taken, and the invariant of the tree holds again.
\<close>

theorem vfs_create_correct:
  assumes "ram_ok s" and "vf_root_mount s = Some m" and "components path \<noteq> []"
    and "resolve ram_look s (butlast (components path)) (m, mnt_root (vf_mnt s m)) = Inr (k, d)"
    and "ram_look d (last (components path)) s = Inl ENOENT"
    and "rf_mem (vf_fs s) = Some x # Some i # Some y # mem" and "\<not> S_ISDIR mode"
  shows "\<exists>s'. vfs_create ram_env path mode s = (s', Inr ()) \<and> ram_ok s' \<and>
    i_mode (vf_ino s' i) = mode OR S_IFREG \<and> i_size (vf_ino s' i) = 0 \<and>
    (\<forall>d' n'. d' \<noteq> i \<and> (d', n') \<noteq> (d, last (components path)) \<longrightarrow> ram_look d' n' s' = ram_look d' n' s) \<and>
    vfs_walk_path ram_env path s' = (inode_get i s', Inr (k, i))"
proof -
  let ?n = "last (components path)"
  have km: "known s (snd (m, mnt_root (vf_mnt s m)))" using assms(2) by (auto simp: known_def is_root_def)
  have kd: "known s d" using resolve_known [OF assms(4) km] by simp
  have ki: "\<not> known s i" using ram_okD(5) [OF assms(1), of i] assms(6) by simp
  have di: "d \<noteq> i" using kd ki by auto
  obtain s' where c: "ramfs_create_common d ?n (mode OR S_IFREG) 0 s = (s', Inr ())"
    and a: "added d ?n (mode OR S_IFREG) i mem s s'"
    and g: "ramfs_create_common d ?n (mode OR S_IFREG) 0 (inode_get d s) = (inode_get d s', Inr ())"
    using create_common_added [OF assms(5,6) di] by blast
  have ok: "ram_ok s'" by (rule added_ok [OF a assms(1) di ki assms(5,6)])
  have ino: "vf_ino s' j = vf_ino s j" if "j \<noteq> i" for j using a that by (auto simp: added_def)
  have r: "vf_mnt s' = vf_mnt s" "vf_root_mount s' = Some m" using a assms(2) by (auto simp: added_def)
  have rd: "ref_ok s' d" using ram_okD(4) [OF assms(1) kd] ino [OF di] by (simp add: ref_ok_def)
  have res0: "map_sum id snd (resolve ram_look s (butlast (components path)) (0, mnt_root (vf_mnt s m))) = Inr d"
    using rfs.resolve_mount [of s "butlast (components path)" 0 "mnt_root (vf_mnt s m)" m] assms(4) by simp
  have "vfs_create ram_env path mode s = (s', Inr ())"
    unfolding vfs_create_def rfs.name_op_resolve [OF assms(1-3)] res0
    using assms(7) g put_get [OF rd] by (simp add: ram_env_def ramfs_iops_def ramfs_create_def)
  moreover have "resolve ram_look s' (components path) (m, mnt_root (vf_mnt s' m)) = Inr (k, i)"
  proof -
    have "resolve ram_look s' (butlast (components path)) (m, mnt_root (vf_mnt s m)) = Inr (k, d)"
    proof (rule resolve_mono [OF assms(4) km _ r(1)])
      fix e n c assume e: "known s e" "ram_look e n s = Inr c"
      have "known s c" using ram_look_known [OF e(2)] by (auto simp: known_def)
      then show "ram_look e n s' = Inr c \<and> i_mounted (vf_ino s' c) = i_mounted (vf_ino s c)"
        using e ki assms(5) ino [of c] added_look(2) [OF a assms(1) di ki, of e n] by fastforce
    qed
    moreover have "cross s' k i = (k, i)" using a by (auto simp: cross_def added_def)
    ultimately show ?thesis
      using added_look(1) [OF a assms(1) di ki] r(1)
        resolve_append [of ram_look s' "butlast (components path)" "[?n]" "(m, mnt_root (vf_mnt s m))"]
      by (simp add: assms(3))
  qed
  then have "vfs_walk_path ram_env path s' = (inode_get i s', Inr (k, i))"
    by (simp add: rfs.walk_path_resolve [OF ok r(2)])
  ultimately show ?thesis using ok a added_look(2) [OF a assms(1) di ki] by (auto simp: added_def)
qed

subsection \<open>Removing a name\<close>

definition removed :: "nat \<Rightarrow> nat \<Rightarrow> rvfs \<Rightarrow> rvfs \<Rightarrow> bool" where
  "removed d c s s' \<longleftrightarrow>
     vf_mnt s' = vf_mnt s \<and> vf_root_mount s' = vf_root_mount s \<and> rf_mem (vf_fs s') = rf_mem (vf_fs s) \<and>
     vf_ino s' = (vf_ino s)(c := (vf_ino s c)\<lparr>i_ref := i_ref (vf_ino s c) - 1\<rparr>) \<and>
     (\<forall>e. r_children (node s' e) = (if e = d then remove1 c (r_children (node s d)) else r_children (node s e))) \<and>
     (\<forall>e. r_parent (node s' e) = r_parent (node s e)) \<and>
     (\<forall>e. e \<noteq> c \<longrightarrow> r_name (node s' e) = r_name (node s e) \<and> r_pages (node s' e) = r_pages (node s e))"

lemma remove_common_removed:
  assumes "ram_look d n s = Inr c" and "S_ISDIR (i_mode (vf_ino s c)) \<Longrightarrow> \<not> isFile \<and> r_children (node s c) = []"
  obtains s' where "ramfs_remove_common d n isFile s = (s', Inr ())" and "removed d c s s'"
proof -
  have f: "List.find (\<lambda>c. r_name (node s c) = n) (r_children (node s d)) = Some c"
    using assms(1) by (simp add: ram_look_def split: option.splits)
  let ?s' = "fst (ramfs_remove_common d n isFile s)"
  have "ramfs_remove_common d n isFile s = (?s', Inr ())" using assms(2) by (auto simp: ramfs_remove_common_def f)
  moreover have "removed d c s ?s'"
    using assms(2)
    by (auto simp: removed_def ramfs_remove_common_def f inode_put_def inode_destroy_def ramfs_destroy_inode_def Let_def)
  ultimately show ?thesis using that by blast
qed

lemma removed_ok:
  assumes r: "removed d c s s'" and "ram_ok s" and "c \<in> set (r_children (node s d))"
  shows "ram_ok s'" and "ram_look d (r_name (node s c)) s' = Inl ENOENT"
    and "(e, n) \<noteq> (d, r_name (node s c)) \<Longrightarrow> ram_look e n s' = ram_look e n s"
proof -
  have ch: "r_children (node s' e) = (if e = d then remove1 c (r_children (node s d)) else r_children (node s e))"
    and pa: "r_parent (node s' e) = r_parent (node s e)" and nm: "e \<noteq> c \<Longrightarrow> r_name (node s' e) = r_name (node s e)"
    and ino: "vf_ino s' = (vf_ino s)(c := (vf_ino s c)\<lparr>i_ref := i_ref (vf_ino s c) - 1\<rparr>)"
    and m: "vf_mnt s' = vf_mnt s" "vf_root_mount s' = vf_root_mount s" "rf_mem (vf_fs s') = rf_mem (vf_fs s)" for e
    using r by (simp_all add: removed_def)
  have dn: "distinct (map (\<lambda>c. r_name (node s c)) (r_children (node s e)))" for e by (rule ram_okD(1) [OF assms(2)])
  then have di: "distinct (r_children (node s e))" for e by (auto simp: distinct_map)
  have nc: "c \<notin> set (r_children (node s' e))" for e
    using ram_okD(2) [OF assms(2) assms(3)] ram_okD(2) [OF assms(2), of c e] di [of d] by (auto simp: ch)
  have sub: "set (r_children (node s' e)) \<subseteq> set (r_children (node s e))" for e
    using set_remove1_subset [of c "r_children (node s d)"] by (simp add: ch)
  have root: "is_root s' j \<longleftrightarrow> is_root s j" for j using ino m by (auto simp: is_root_def)
  have cr: "\<not> is_root s c" using ram_okD(2,3) [OF assms(2)] assms(3) by force
  have kn: "known s' j \<Longrightarrow> known s j \<and> j \<noteq> c" for j using root sub nc cr by (auto simp: known_def)
  have names: "map (\<lambda>c. r_name (node s' c)) (r_children (node s' e)) = map (\<lambda>c. r_name (node s c)) (r_children (node s' e))" for e
    using nc [of e] by (auto intro!: nm)
  show ok: "ram_ok s'"
    unfolding ram_ok_def names
  proof (intro conjI allI impI ballI)
    fix e show "distinct (map (\<lambda>c. r_name (node s c)) (r_children (node s' e)))"
      using dn [of e] by (auto simp: ch distinct_map intro: inj_on_subset dest: set_remove1_subset [THEN subsetD])
  next
    fix e x assume "x \<in> set (r_children (node s' e))"
    then show "r_parent (node s' x) = Some e" using sub [of e] ram_okD(2) [OF assms(2), of x e] by (auto simp: pa)
  next
    fix j assume "is_root s' j"
    then show "r_parent (node s' j) = None" using root ram_okD(3) [OF assms(2), of j] by (simp add: pa)
  next
    fix j assume "known s' j"
    then show "ref_ok s' j" using kn [of j] ram_okD(4) [OF assms(2), of j] by (auto simp: ref_ok_def ino)
  next
    fix b assume "Some b \<in> set (rf_mem (vf_fs s'))"
    then show "\<not> known s' b" using kn [of b] ram_okD(5) [OF assms(2), of b] by (auto simp: m)
  next
    show "distinct (filter (\<lambda>x. x \<noteq> None) (rf_mem (vf_fs s')))" using ram_okD(6) [OF assms(2)] by (simp add: m)
  qed
  have inj: "x \<in> set (r_children (node s d)) \<Longrightarrow> r_name (node s x) = r_name (node s c) \<Longrightarrow> x = c" for x
    using dn [of d] assms(3) by (auto simp: distinct_map dest: inj_onD)
  have in': "x \<in> set (r_children (node s' e)) \<longleftrightarrow> x \<in> set (r_children (node s e)) \<and> (e \<noteq> d \<or> x \<noteq> c)" for e x
    using di [of d] by (auto simp: ch)
  show "ram_look d (r_name (node s c)) s' = Inl ENOENT"
    using inj nm by (auto simp: ram_look_none in')
  show "ram_look e n s' = ram_look e n s" if "(e, n) \<noteq> (d, r_name (node s c))"
  proof (rule ram_look_eqI)
    fix x show "ram_look e n s' = Inr x \<longleftrightarrow> ram_look e n s = Inr x"
      using that nc [of e] nm [of x] unfolding ram_look_iff [OF ok] ram_look_iff [OF assms(2)] by (cases "x = c") (auto simp: in')
  qed
qed

text \<open>
  C31. \<open>unlink\<close> removes exactly the name it is given, drops one reference of the file and keeps the
  invariant; \<open>unlink\<close> of a directory and \<open>rmdir\<close> of one that is not empty change nothing.
\<close>

theorem ramfs_remove_correct:
  assumes "ram_ok s"
  shows "(case ram_look d n s of
      Inl e \<Rightarrow> ramfs_remove_common d n isFile s = (s, Inl e)
    | Inr c \<Rightarrow>
        if S_ISDIR (i_mode (vf_ino s c)) \<and> isFile then ramfs_remove_common d n isFile s = (s, Inl EINVAL)
        else if S_ISDIR (i_mode (vf_ino s c)) \<and> r_children (node s c) \<noteq> []
        then ramfs_remove_common d n isFile s = (s, Inl ENOTEMPTY)
        else \<exists>s'. ramfs_remove_common d n isFile s = (s', Inr ()) \<and> ram_ok s' \<and> ram_look d n s' = Inl ENOENT \<and>
          i_ref (vf_ino s' c) = i_ref (vf_ino s c) - 1 \<and>
          (\<forall>d' n'. (d', n') \<noteq> (d, n) \<longrightarrow> ram_look d' n' s' = ram_look d' n' s))"
proof (cases "ram_look d n s")
  case (Inl e)
  then show ?thesis by (auto simp: ramfs_remove_common_def ram_look_def split: option.splits)
next
  case (Inr c)
  have f: "List.find (\<lambda>c. r_name (node s c) = n) (r_children (node s d)) = Some c"
    using Inr by (simp add: ram_look_def split: option.splits)
  have c: "c \<in> set (r_children (node s d))" "r_name (node s c) = n" using ram_look_known [OF Inr] by simp_all
  have "\<exists>s'. ramfs_remove_common d n isFile s = (s', Inr ()) \<and> ram_ok s' \<and> ram_look d n s' = Inl ENOENT \<and>
      i_ref (vf_ino s' c) = i_ref (vf_ino s c) - 1 \<and> (\<forall>d' n'. (d', n') \<noteq> (d, n) \<longrightarrow> ram_look d' n' s' = ram_look d' n' s)"
    if ok: "S_ISDIR (i_mode (vf_ino s c)) \<Longrightarrow> \<not> isFile \<and> r_children (node s c) = []"
  proof -
    obtain s' where s': "ramfs_remove_common d n isFile s = (s', Inr ())" "removed d c s s'"
      by (rule remove_common_removed [OF Inr ok])
    have "i_ref (vf_ino s' c) = i_ref (vf_ino s c) - 1" using s'(2) by (simp add: removed_def)
    then show ?thesis using s'(1) removed_ok [OF s'(2) assms c(1)] unfolding c(2) by blast
  qed
  then show ?thesis using Inr f by (simp add: ramfs_remove_common_def)
qed

subsection \<open>A concrete tree\<close>

text \<open>The root directory is inode 1; it holds one regular file, \<open>a\<close>, inode 2.\<close>

definition demo_tree :: rvfs where
  "demo_tree = \<lparr>vf_ino = \<lambda>i. zero_inode\<lparr>i_ref := 1, i_mode := if i = 1 then S_IFDIR else S_IFREG\<rparr>,
     vf_mnt = \<lambda>_. \<lparr>mnt_name = ''/'', mnt_root = 1, mnt_point = None, mnt_sb = 0, mnt_parent = None, mnt_children = []\<rparr>,
     vf_root_mount = Some 0, vf_sb = \<lambda>_. [1, 2],
     vf_fs = \<lparr>rf_node = (\<lambda>_. new_node)(1 := new_node\<lparr>r_children := [2]\<rparr>, 2 := new_node\<lparr>r_name := ''a'', r_parent := Some 1\<rparr>),
       rf_next_ino = \<lambda>_. 3, rf_mem = [Some 10, Some 11, Some 12]\<rparr>\<rparr>"

lemma demo_tree_ok: "ram_ok demo_tree"
  by (auto simp: ram_ok_def known_def is_root_def ref_ok_def demo_tree_def new_node_def zero_inode_def split: if_splits)

theorem vfs_create_correct_witness:
  "\<exists>s'. vfs_create ram_env ''/b'' 0 demo_tree = (s', Inr ()) \<and> ram_ok s' \<and>
     vfs_walk_path ram_env ''/b'' s' = (inode_get 11 s', Inr (0, 11))"
  using vfs_create_correct [OF demo_tree_ok, of 0 "''/b''" 0 1 10 11 12 "[]" 0]
  by (auto simp: demo_tree_def components_def ram_look_def new_node_def S_ISDIR_def S_IFDIR_def)

theorem ramfs_remove_correct_witness:
  "ram_ok demo_tree \<and> ram_look 1 ''a'' demo_tree = Inr 2 \<and>
   (\<exists>s'. ramfs_remove_common 1 ''a'' True demo_tree = (s', Inr ()) \<and> ram_look 1 ''a'' s' = Inl ENOENT)"
  using ramfs_remove_correct [OF demo_tree_ok, of 1 "''a''" True] demo_tree_ok
  by (auto simp: demo_tree_def ram_look_def new_node_def zero_inode_def S_ISDIR_def S_IFDIR_def S_IFREG_def S_IFMT_def)

end
