(* ===== verification/Wey_Ramdata.thy ===== *)
theory Wey_Ramdata
  imports Wey_Ramfs
begin

text \<open>
  The contents of the files of the memory file system: reading, writing and changing the size act
  on a sequence of bytes as they should, whatever the pages are.
\<close>

unbundle bit_operations_syntax

subsection \<open>The bytes of a file\<close>

definition pages_ok :: "u8 list option list \<Rightarrow> bool" where
  "pages_ok pages \<longleftrightarrow> (\<forall>b. Some b \<in> set pages \<longrightarrow> length b = 4096)"

definition pbyte :: "u8 list option list \<Rightarrow> nat \<Rightarrow> u8" where
  "pbyte pages k = (if k div 4096 < length pages then case pages ! (k div 4096) of None \<Rightarrow> 0 | Some b \<Rightarrow> b ! (k mod 4096) else 0)"

lemma pages_okD: "pages_ok pages \<Longrightarrow> i < length pages \<Longrightarrow> pages ! i = Some b \<Longrightarrow> length b = 4096"
  unfolding pages_ok_def by (metis nth_mem)

lemma pages_ok_update: "pages_ok pages \<Longrightarrow> length b = 4096 \<Longrightarrow> pages_ok (pages[i := Some b])"
  unfolding pages_ok_def using set_update_subset_insert [of pages i "Some b"] by blast

lemma page_position: "(off::nat) < 4096 \<Longrightarrow> (idx * 4096 + off) div 4096 = idx \<and> (idx * 4096 + off) mod 4096 = off"
  by simp

lemma read_loop_correct:
  assumes "pages_ok pages" and "off < 4096" and "idx * 4096 + off + n \<le> 4096 * length pages"
  shows "\<exists>bs. ramfs_read_loop pages idx off n = Some bs \<and> length bs = n \<and> (\<forall>k < n. bs ! k = pbyte pages (idx * 4096 + off + k))"
  using assms(2,3)
proof (induction n arbitrary: idx off rule: less_induct)
  case (less n)
  show ?case
  proof (cases "n = 0")
    case True
    then show ?thesis by (subst ramfs_read_loop.simps) simp
  next
    case False
    let ?t = "min n (4096 - off)"
    let ?c = "case pages ! idx of None \<Rightarrow> replicate ?t 0 | Some b \<Rightarrow> take ?t (drop off b)"
    have i: "idx < length pages" using less.prems False by linarith
    have lc: "length ?c = ?t" using pages_okD [OF assms(1) i] by (auto split: option.splits)
    have ck: "?c ! k = pbyte pages (idx * 4096 + off + k)" if "k < ?t" for k
    proof -
      have "(idx * 4096 + (off + k)) div 4096 = idx \<and> (idx * 4096 + (off + k)) mod 4096 = off + k"
        using that by (intro page_position) (simp add: less_diff_conv)
      then show ?thesis using i that pages_okD [OF assms(1) i] by (auto simp: pbyte_def add.assoc split: option.splits)
    qed
    have nn: "n - ?t < n" using False less.prems(1) by simp
    have "Suc idx * 4096 + 0 + (n - ?t) \<le> 4096 * length pages" using less.prems i by (auto simp: min_def)
    then obtain bs where bs: "ramfs_read_loop pages (Suc idx) 0 (n - ?t) = Some bs" "length bs = n - ?t"
        "\<And>k. k < n - ?t \<Longrightarrow> bs ! k = pbyte pages (Suc idx * 4096 + 0 + k)"
      using less.IH [OF nn, of 0 "Suc idx"] by auto
    have "ramfs_read_loop pages idx off n = Some (?c @ bs)"
      using False i bs(1) less.prems(1) by (subst ramfs_read_loop.simps) (simp add: Let_def)
    moreover have "(?c @ bs) ! k = pbyte pages (idx * 4096 + off + k)" if "k < n" for k
    proof (cases "k < ?t")
      case True
      then show ?thesis using ck lc by (simp add: nth_append)
    next
      case False
      then have "Suc idx * 4096 + 0 + (k - ?t) = idx * 4096 + off + k" using that less.prems(1) by (auto simp: min_def split: if_splits)
      moreover have "(?c @ bs) ! k = bs ! (k - ?t)" unfolding nth_append lc using False by (rule if_not_P)
      moreover have "k - ?t < n - ?t" using False that by linarith
      ultimately show ?thesis using bs(3) [of "k - ?t"] by (simp only:)
    qed
    ultimately show ?thesis using lc bs(2) by auto
  qed
qed

lemma unat_next_cap:
  assumes "length pages < 2 ^ 31"
  shows "unat (next_cap pages) = (if pages = [] then 4 else length pages * 2)"
proof -
  have "unat (of_nat (length pages * 2) :: u32) = length pages * 2" using assms by (subst unat_of_nat) simp
  then show ?thesis by (simp add: next_cap_def)
qed

lemma pbyte_append: "pbyte (pages @ replicate n None) k = pbyte pages k"
  by (simp add: pbyte_def nth_append)

lemma pages_ok_append: "pages_ok pages \<Longrightarrow> pages_ok (pages @ replicate n None)"
  by (auto simp: pages_ok_def)

text \<open>One page of the loop: the array grown if need be, and what it holds then.\<close>

lemma grow_step:
  assumes "pages_ok pages" and "idx < 2 ^ 31" and "idx \<le> length pages"
  obtains mem1 pages1 ok where
    "(if length pages \<le> idx then ramfs_grow_pages_arr (next_cap pages) mem pages else Some (mem, pages, True)) = Some (mem1, pages1, ok)"
    and "pages_ok pages1" and "length pages \<le> length pages1" and "ok \<longrightarrow> idx < length pages1" and "\<forall>k. pbyte pages1 k = pbyte pages k"
    and "mem \<noteq> [] \<and> None \<notin> set mem \<longrightarrow> ok \<and> set mem1 \<subseteq> set mem \<and> length mem \<le> Suc (length mem1)"
proof (cases "length pages \<le> idx")
  case False
  then show ?thesis using that [of mem pages True] assms by simp
next
  case True
  show ?thesis
  proof (cases "\<exists>x m. mem = Some x # m")
    case mem: True
    then obtain x m where m: "mem = Some x # m" by blast
    let ?p = "pages @ replicate (unat (next_cap pages) - length pages) None"
    have lt: "length pages < 2 ^ 31" using True assms(2) by linarith
    then have "idx < length ?p" using assms(3) unat_next_cap [OF lt] by (cases pages) auto
    then show ?thesis
      using that [of m ?p True] True m assms unat_next_cap [OF lt]
      by (auto simp: ramfs_grow_pages_arr_def pages_ok_append pbyte_append split: if_splits)
  next
    case mem: False
    then have "ramfs_grow_pages_arr (next_cap pages) mem pages = Some (tl mem, pages, False)"
      by (auto simp: ramfs_grow_pages_arr_def split: list.splits option.splits)
    moreover have "\<not> (mem \<noteq> [] \<and> None \<notin> set mem)" using mem by (cases mem; cases "hd mem") simp_all
    ultimately show ?thesis using True assms by (intro that [of "tl mem" pages False]) (simp, simp, simp, simp, simp, blast)
  qed
qed

text \<open>The bytes of the array after one page was changed.\<close>

lemma pbyte_write:
  assumes "i < length pages" and "length b = 4096" and "off + n \<le> 4096" and "n \<le> length data"
    and "\<And>j. j < 4096 \<Longrightarrow> b ! j = pbyte pages (i * 4096 + j)"
  shows "pbyte (pages[i := Some (take off b @ take n data @ drop (off + n) b)]) k =
    (if i * 4096 + off \<le> k \<and> k < i * 4096 + off + n then data ! (k - (i * 4096 + off)) else pbyte pages k)"
proof (cases "k div 4096 = i")
  case False
  then have out: "\<not> (i * 4096 + off \<le> k \<and> k < i * 4096 + off + n)" using assms(3) by auto
  show ?thesis unfolding if_not_P [OF out] using False by (simp add: pbyte_def)
next
  case True
  define j where "j = k mod 4096"
  have k: "k = i * 4096 + j" and j: "j < 4096" using True by (auto simp: j_def)
  have "pbyte (pages[i := Some (take off b @ take n data @ drop (off + n) b)]) k = (take off b @ take n data @ drop (off + n) b) ! j"
    using True assms(1) by (simp add: pbyte_def j_def)
  also have "\<dots> = (if off \<le> j \<and> j < off + n then data ! (j - off) else b ! j)"
    using assms(2-4) j by (auto simp: nth_append)
  finally show ?thesis using assms(5) [OF j] by (simp add: k)
qed

lemma sel_page:
  assumes "pages_ok pages1" and "idx < length pages1"
    and "(case pages1 ! idx of Some b \<Rightarrow> Some (mem1, b)
      | None \<Rightarrow> (case mem1 of Some _ # mem2 \<Rightarrow> Some (mem2, replicate 4096 (0::u8)) | _ \<Rightarrow> None)) = Some (mem2, b)"
  shows "length b = 4096 \<and> (\<forall>j < 4096. b ! j = pbyte pages1 (idx * 4096 + j)) \<and> set mem2 \<subseteq> set mem1 \<and> length mem1 \<le> Suc (length mem2)"
proof (cases "pages1 ! idx")
  case None
  then obtain a where "mem1 = Some a # mem2" "b = replicate 4096 0"
    using assms(3) by (auto split: option.splits list.splits)
  then show ?thesis using None by (auto simp: pbyte_def)
next
  case (Some c)
  then show ?thesis using assms(3) pages_okD [OF assms(1,2) Some] assms(2) by (simp add: pbyte_def)
qed

lemma sel_page_none:
  assumes "None \<notin> set mem1" and "mem1 \<noteq> []"
  shows "(case p of Some b \<Rightarrow> Some (mem1, b)
      | None \<Rightarrow> (case mem1 of Some _ # mem2 \<Rightarrow> Some (mem2, replicate 4096 (0::u8)) | _ \<Rightarrow> None)) \<noteq> None"
  using assms by (cases mem1; cases "hd mem1"; cases p) auto

text \<open>Two adjacent pieces written one after the other are one piece.\<close>

lemma write_join:
  assumes "n \<le> length data" and "off + n \<le> 4096" and "w \<le> length (drop n data)"
    and "n = length data \<or> off + n = 4096"
    and "x = (if Suc idx * 4096 + 0 \<le> k \<and> k < Suc idx * 4096 + 0 + w then drop n data ! (k - (Suc idx * 4096 + 0)) else y)"
    and "y = (if idx * 4096 + off \<le> k \<and> k < idx * 4096 + off + n then data ! (k - (idx * 4096 + off)) else z)"
  shows "x = (if idx * 4096 + off \<le> k \<and> k < idx * 4096 + off + (n + w) then data ! (k - (idx * 4096 + off)) else z)"
proof (cases "off + n = 4096")
  case True
  then have e: "Suc idx * 4096 + 0 = idx * 4096 + off + n" by simp
  have "drop n data ! (k - (idx * 4096 + off + n)) = data ! (k - (idx * 4096 + off))" if "idx * 4096 + off + n \<le> k"
    using that assms(1) by simp
  then show ?thesis using assms(5,6) unfolding e by auto
next
  case False
  then have "w = 0" using assms(1,3,4) by simp
  then have "x = y" using assms(5) by (auto simp: not_less)
  then show ?thesis using assms(6) \<open>w = 0\<close> by simp
qed

lemma write_fits:
  "Suc idx * 4096 + (l - n) \<le> p \<Longrightarrow> off + n = 4096 \<Longrightarrow> n \<le> l \<Longrightarrow> idx * 4096 + off + l \<le> (p::nat)"
  unfolding mult_Suc by linarith

lemma write_rest:
  fixes data :: "u8 list" and off :: nat
  defines "n \<equiv> min (length data) (4096 - off)"
  assumes "off < 4096" and "w \<le> length (drop n data)"
    and pk: "\<And>k. pbyte p k = (if idx * 4096 + off \<le> k \<and> k < idx * 4096 + off + n then data ! (k - (idx * 4096 + off)) else pbyte pages k)"
    and r4: "\<forall>k. pbyte pages' k = (if Suc idx * 4096 + 0 \<le> k \<and> k < Suc idx * 4096 + 0 + w
      then drop n data ! (k - (Suc idx * 4096 + 0)) else pbyte p k)"
    and r2: "ok \<longrightarrow> w = length (drop n data) \<and> (drop n data \<noteq> [] \<longrightarrow> Suc idx * 4096 + 0 + length (drop n data) \<le> 4096 * length pages')"
    and il: "idx < length p" and "length p \<le> length pages'"
  shows "pbyte pages' k = (if idx * 4096 + off \<le> k \<and> k < idx * 4096 + off + (n + w) then data ! (k - (idx * 4096 + off)) else pbyte pages k)"
    and "ok \<Longrightarrow> idx * 4096 + off + length data \<le> 4096 * length pages'"
proof -
  have n: "n \<le> length data" "off + n \<le> 4096" and full: "n = length data \<or> off + n = 4096"
    using assms(2) by (auto simp: n_def min_def)
  show "pbyte pages' k = (if idx * 4096 + off \<le> k \<and> k < idx * 4096 + off + (n + w) then data ! (k - (idx * 4096 + off)) else pbyte pages k)"
    using write_join [OF n assms(3) full, of "pbyte pages' k" idx k "pbyte p k" "pbyte pages k"] r4 pk by blast
  assume ok
  show "idx * 4096 + off + length data \<le> 4096 * length pages'"
  proof (cases "drop n data = []")
    case True
    then have "length data \<le> n" by simp
    moreover have "Suc idx \<le> length pages'" using assms(8) il by simp
    ultimately show ?thesis using n(2) by linarith
  next
    case False
    have "Suc idx * 4096 + (length data - n) \<le> 4096 * length pages'" using r2 \<open>ok\<close> False by simp
    moreover have "off + n = 4096" using full False by auto
    ultimately show ?thesis using n(1) by (rule write_fits)
  qed
qed

lemma next_page_bound:
  assumes "idx * 4096 + off + length data \<le> 2 ^ 32" and "0 < length data"
  shows "Suc idx * 4096 + 0 + (length data - min (length data) (4096 - off)) \<le> 2 ^ 32"
proof -
  have "idx * 4096 + off + length data \<le> 4294967296" using assms(1) by simp
  then have "idx * 4096 < 4294967296" using assms(2) by linarith
  then have "Suc idx * 4096 \<le> 2 ^ 32" by simp
  moreover have "Suc idx * 4096 + (length data - (4096 - off)) \<le> 2 ^ 32" if "4096 - off \<le> length data"
    using assms(1) that calculation by (cases "off \<le> 4096") simp_all
  ultimately show ?thesis by (auto simp: min_def)
qed

lemma write_loop_correct:
  assumes "pages_ok pages" and "off < 4096" and "idx \<le> length pages" and "idx * 4096 + off + length data \<le> 2 ^ 32"
  shows "\<exists>mem' pages' w ok. ramfs_write_loop mem pages idx off data written = Some (mem', pages', written + w, ok) \<and>
    pages_ok pages' \<and> length pages \<le> length pages' \<and> w \<le> length data \<and>
    (ok \<longrightarrow> w = length data \<and> (data \<noteq> [] \<longrightarrow> idx * 4096 + off + length data \<le> 4096 * length pages')) \<and>
    (None \<notin> set mem \<and> 2 * length data \<le> length mem \<longrightarrow> ok) \<and>
    (\<forall>k. pbyte pages' k = (if idx * 4096 + off \<le> k \<and> k < idx * 4096 + off + w
       then data ! (k - (idx * 4096 + off)) else pbyte pages k))"
  using assms
proof (induction "length data" arbitrary: data mem pages idx off written rule: less_induct)
  case less
  show ?case
  proof (cases "data = []")
    case True
    then have "ramfs_write_loop mem pages idx off data written = Some (mem, pages, written, True)"
      by (subst ramfs_write_loop.simps) simp
    then show ?thesis using less.prems(1) True
      by (intro exI [of _ mem], intro exI [of _ pages], intro exI [of _ 0], intro exI [of _ True]) (auto simp: not_less)
  next
    case False
    then have pos: "0 < length data" by simp
    have i31: "idx < 2 ^ 31" using less.prems(4) by simp
    obtain mem1 pages1 ok where g: "(if length pages \<le> idx then ramfs_grow_pages_arr (next_cap pages) mem pages
        else Some (mem, pages, True)) = Some (mem1, pages1, ok)"
      and g1: "pages_ok pages1" "length pages \<le> length pages1" "ok \<longrightarrow> idx < length pages1" "\<forall>k. pbyte pages1 k = pbyte pages k"
      and g2: "mem \<noteq> [] \<and> None \<notin> set mem \<longrightarrow> ok \<and> set mem1 \<subseteq> set mem \<and> length mem \<le> Suc (length mem1)"
      by (rule grow_step [OF less.prems(1) i31 less.prems(3), of mem])
    let ?sel = "case pages1 ! idx of Some b \<Rightarrow> Some (mem1, b)
      | None \<Rightarrow> (case mem1 of Some _ # mem2 \<Rightarrow> Some (mem2, replicate 4096 0) | _ \<Rightarrow> None)"
    show ?thesis
    proof (cases "ok \<and> ?sel \<noteq> None")
      case stop: False
      have eq: "\<exists>m. ramfs_write_loop mem pages idx off data written = Some (m, pages1, written, False)"
      proof (cases ok)
        case False
        then show ?thesis using \<open>data \<noteq> []\<close> g by (subst ramfs_write_loop.simps) simp
      next
        case True
        then have "?sel = None" using stop by blast
        then show ?thesis using \<open>data \<noteq> []\<close> True g1(3) g by (subst ramfs_write_loop.simps) simp
      qed
      have "None \<in> set mem \<or> length mem < 2 * length data"
      proof (rule ccontr)
        assume *: "\<not> ?thesis"
        then have "None \<notin> set mem" "\<not> length mem < 2 * length data" by blast+
        moreover from this have "2 \<le> length mem" using pos by linarith
        moreover from this have "mem \<noteq> []" by auto
        ultimately have "ok" "None \<notin> set mem1" "mem1 \<noteq> []" using g2 * by auto
        then show False using stop sel_page_none [of mem1 "pages1 ! idx"] by blast
      qed
      moreover obtain m where "ramfs_write_loop mem pages idx off data written = Some (m, pages1, written, False)"
        using eq by blast
      ultimately show ?thesis using g1
        by (intro exI [of _ m], intro exI [of _ pages1], intro exI [of _ 0], intro exI [of _ False]) (auto simp: not_less)
    next
      case go: True
      then obtain mem2 b where sel: "?sel = Some (mem2, b)" by auto
      have il: "idx < length pages1" using g1(3) go by blast
      note b = sel_page [OF g1(1) il sel]
      let ?n = "min (length data) (4096 - off)"
      let ?p = "pages1[idx := Some (take off b @ take ?n data @ drop (off + ?n) b)]"
      have eq: "ramfs_write_loop mem pages idx off data written = ramfs_write_loop mem2 ?p (Suc idx) 0 (drop ?n data) (written + ?n)"
        using False go g1(3) g sel less.prems(2) by (subst ramfs_write_loop.simps) (simp add: Let_def)
      have n: "?n \<le> length data" "off + ?n \<le> 4096" "0 < ?n" using less.prems(2) pos by simp_all
      have pk: "pbyte ?p k = (if idx * 4096 + off \<le> k \<and> k < idx * 4096 + off + ?n
          then data ! (k - (idx * 4096 + off)) else pbyte pages k)" for k
        using pbyte_write [OF il _ n(2,1), of b k] b g1(4) by simp
      have pok: "pages_ok ?p" using b n less.prems(2) by (intro pages_ok_update g1(1)) simp
      have bound: "Suc idx * 4096 + 0 + length (drop ?n data) \<le> 2 ^ 32" 
        unfolding length_drop by (rule next_page_bound [OF less.prems(4) pos])
      have shorter: "length (drop ?n data) < length data" using n(3) pos by simp
      obtain mem' pages' w ok' where r: "ramfs_write_loop mem2 ?p (Suc idx) 0 (drop ?n data) (written + ?n)
          = Some (mem', pages', written + ?n + w, ok')"
        and r1: "pages_ok pages'" "length ?p \<le> length pages'" "w \<le> length (drop ?n data)"
        and r2: "ok' \<longrightarrow> w = length (drop ?n data) \<and> (drop ?n data \<noteq> [] \<longrightarrow> Suc idx * 4096 + 0 + length (drop ?n data) \<le> 4096 * length pages')"
        and r3: "None \<notin> set mem2 \<and> 2 * length (drop ?n data) \<le> length mem2 \<longrightarrow> ok'"
        and r4: "\<forall>k. pbyte pages' k = (if Suc idx * 4096 + 0 \<le> k \<and> k < Suc idx * 4096 + 0 + w
            then drop ?n data ! (k - (Suc idx * 4096 + 0)) else pbyte ?p k)"
        using less.hyps [OF shorter pok _ _ bound, of mem2 "written + ?n"] il by auto
      have il': "idx < length ?p" using il by simp
      note rest = write_rest [OF less.prems(2) r1(3) pk r4 r2 il' r1(2)]
      have "None \<notin> set mem \<and> 2 * length data \<le> length mem \<longrightarrow> ok'"
        using g2 r3 b pos n(3) by (auto simp: min_def)
      then show ?thesis unfolding eq r
        using r1 r2 g1(2) n(1) rest
        by (intro exI [of _ mem'], intro exI [of _ pages'], intro exI [of _ "?n + w"], intro exI [of _ ok']) auto
    qed
  qed
qed

subsection \<open>Reading and writing through a file\<close>

definition file_ok :: "rvfs \<Rightarrow> nat \<Rightarrow> bool" where
  "file_ok s i \<longleftrightarrow> pages_ok (r_pages (node s i)) \<and> unat (i_size (vf_ino s i)) \<le> 4096 * length (r_pages (node s i))"

lemma cursor_nat: "0 \<le> p \<Longrightarrow> p < 2 ^ 32 \<Longrightarrow> unat (word_of_int p :: u32) = nat p"
  by (simp add: unat_eq_nat_uint uint_word_of_int)

lemma unat_le_nat: "uint w \<le> p \<Longrightarrow> unat w \<le> nat p"
  using nat_mono [of "uint w" p] by (simp add: nat_uint_eq)

lemma nat_le_unat: "p \<le> uint w \<Longrightarrow> nat p \<le> unat w"
  using nat_mono [of p "uint w"] by (simp add: nat_uint_eq)

text \<open>A read from a position inside the file returns the bytes from there to the end of the file at most.\<close>

lemma ramfs_read_bytes:
  assumes "file_ok s (f_inode f)" and "0 \<le> f_pos f" and "f_pos f \<le> uint (i_size (vf_ino s (f_inode f)))"
  shows "\<exists>bs. ramfs_read f count s = Some (f\<lparr>f_pos := f_pos f + int (length bs)\<rparr>, bs) \<and>
    length bs = min (unat count) (unat (i_size (vf_ino s (f_inode f))) - nat (f_pos f)) \<and>
    (\<forall>k < length bs. bs ! k = pbyte (r_pages (node s (f_inode f))) (nat (f_pos f) + k))"
proof (cases "uint (i_size (vf_ino s (f_inode f))) \<le> f_pos f")
  case True
  then have "unat (i_size (vf_ino s (f_inode f))) \<le> nat (f_pos f)" by (rule unat_le_nat)
  then show ?thesis using True by (simp add: ramfs_read_def)
next
  case False
  let ?sz = "i_size (vf_ino s (f_inode f))"
  let ?p = "nat (f_pos f)"
  have sz: "uint ?sz < 2 ^ 32" using uint_lt2p [of ?sz] by simp
  have c: "unat (word_of_int (f_pos f) :: u32) = ?p" using assms(2,3) sz by (intro cursor_nat) auto
  have av: "unat (word_of_int (uint ?sz - f_pos f) :: u32) = unat ?sz - ?p"
    using assms(2,3) sz by (subst cursor_nat) (auto simp: nat_diff_distrib nat_uint_eq)
  let ?n = "unat (if word_of_int (uint ?sz - f_pos f) < count then word_of_int (uint ?sz - f_pos f) else count)"
  have n: "?n = min (unat count) (unat ?sz - ?p)" using av by (auto simp: word_less_nat_alt)
  have ps: "?p \<le> unat ?sz" using assms(3) by (rule nat_le_unat)
  then have "?p + ?n \<le> unat ?sz" unfolding n by linarith
  then have fit: "?p div 4096 * 4096 + ?p mod 4096 + ?n \<le> 4096 * length (r_pages (node s (f_inode f)))"
    using assms(1) unfolding file_ok_def div_mult_mod_eq by linarith
  have pok: "pages_ok (r_pages (node s (f_inode f)))" using assms(1) by (simp add: file_ok_def)
  obtain bs where bs: "ramfs_read_loop (r_pages (node s (f_inode f))) (?p div 4096) (?p mod 4096) ?n = Some bs"
    "length bs = ?n" "\<forall>k < ?n. bs ! k = pbyte (r_pages (node s (f_inode f))) (?p + k)"
    using read_loop_correct [OF pok _ fit] by auto
  have "ramfs_read f count s = Some (f\<lparr>f_pos := f_pos f + int (length bs)\<rparr>, bs)"
    unfolding ramfs_read_def Let_def if_not_P [OF False] c bs(1) by simp
  then show ?thesis using bs(2,3) unfolding n by (intro exI [of _ bs]) simp
qed

text \<open>A write inside the file or at its end, with memory available, puts all its bytes.\<close>

lemma ramfs_write_bytes:
  assumes "file_ok s (f_inode f)" and "0 \<le> f_pos f" and "f_pos f \<le> uint (i_size (vf_ino s (f_inode f)))"
    and "f_pos f + int (length data) < 2 ^ 32" and "data \<noteq> []"
    and "None \<notin> set (rf_mem (vf_fs s))" and "2 * length data \<le> length (rf_mem (vf_fs s))"
  shows "\<exists>s'. ramfs_write f data s = Some (s', f\<lparr>f_pos := f_pos f + int (length data)\<rparr>, Inr (length data)) \<and>
    file_ok s' (f_inode f) \<and>
    uint (i_size (vf_ino s' (f_inode f))) = max (uint (i_size (vf_ino s (f_inode f)))) (f_pos f + int (length data)) \<and>
    (\<forall>k. pbyte (r_pages (node s' (f_inode f))) k = (if nat (f_pos f) \<le> k \<and> k < nat (f_pos f) + length data
       then data ! (k - nat (f_pos f)) else pbyte (r_pages (node s (f_inode f))) k))"
proof -
  let ?i = "f_inode f"
  let ?p = "nat (f_pos f)"
  let ?sz = "i_size (vf_ino s ?i)"
  have sz: "uint ?sz < 2 ^ 32" using uint_lt2p [of ?sz] by simp
  have c: "unat (word_of_int (f_pos f) :: u32) = ?p" using assms(2,3) sz by (intro cursor_nat) auto
  have ps: "?p \<le> unat ?sz" using assms(3) by (rule nat_le_unat)
  then have "?p div 4096 \<le> length (r_pages (node s ?i))" using assms(1) by (auto simp: file_ok_def)
  moreover have "?p div 4096 * 4096 + ?p mod 4096 + length data \<le> 2 ^ 32" using assms(2,4) by simp
  ultimately obtain mem' pages' where w:
      "ramfs_write_loop (rf_mem (vf_fs s)) (r_pages (node s ?i)) (?p div 4096) (?p mod 4096) data 0 = Some (mem', pages', length data, True)"
      "pages_ok pages'" "length (r_pages (node s ?i)) \<le> length pages'" "?p + length data \<le> 4096 * length pages'"
      "\<forall>k. pbyte pages' k = (if ?p \<le> k \<and> k < ?p + length data then data ! (k - ?p) else pbyte (r_pages (node s ?i)) k)"
    using write_loop_correct [of "r_pages (node s ?i)" "?p mod 4096" "?p div 4096" data "rf_mem (vf_fs s)" 0] assms by (auto simp: file_ok_def)
  define q where "q = f_pos f + int (length data)"
  have q: "0 \<le> q" "q < 2 ^ 32" "nat q = ?p + length data" using assms(2,4) by (auto simp: q_def nat_add_distrib)
  have un: "unat (word_of_int q :: u32) = ?p + length data" using cursor_nat [OF q(1,2)] q(3) by simp
  have np: "uint (word_of_int q :: u32) = q" using q by (simp add: uint_word_of_int)
  have "length (r_pages (node s ?i)) * 4096 \<le> length pages' * 4096" using w(3) by simp
  then have szp: "unat ?sz \<le> 4096 * length pages'" using assms(1) by (simp add: file_ok_def)
  have eq: "ramfs_write f data s = Some ((let s1 = upd_node ?i (\<lambda>r. r\<lparr>r_pages := pages'\<rparr>) (s\<lparr>vf_fs := vf_fs s\<lparr>rf_mem := mem'\<rparr>\<rparr>)
      in if uint ?sz < q then upd_ino ?i (\<lambda>n. n\<lparr>i_size := word_of_int q\<rparr>) s1 else s1), f\<lparr>f_pos := q\<rparr>, Inr (length data))"
    using assms(5) w(1) by (simp add: ramfs_write_def Let_def c q_def)
  show ?thesis
    unfolding q_def [symmetric] eq using w(2,4,5) szp un np by (simp add: Let_def file_ok_def max_def)
qed

text \<open>
  C32. What is written to a file is read back: after a write of some bytes inside a file or at its
  end, with memory available, a read of as many bytes from the same position returns exactly them,
  the file has grown to the end of what was written if it was shorter, and every byte outside is
  unchanged.
\<close>

theorem ramfs_write_read:
  assumes "file_ok s (f_inode f)" and "0 \<le> f_pos f" and "f_pos f \<le> uint (i_size (vf_ino s (f_inode f)))"
    and "f_pos f + int (length data) < 2 ^ 32" and "data \<noteq> []"
    and "None \<notin> set (rf_mem (vf_fs s))" and "2 * length data \<le> length (rf_mem (vf_fs s))"
  shows "\<exists>s'. ramfs_write f data s = Some (s', f\<lparr>f_pos := f_pos f + int (length data)\<rparr>, Inr (length data)) \<and>
    file_ok s' (f_inode f) \<and>
    uint (i_size (vf_ino s' (f_inode f))) = max (uint (i_size (vf_ino s (f_inode f)))) (f_pos f + int (length data)) \<and>
    ramfs_read f (of_nat (length data)) s' = Some (f\<lparr>f_pos := f_pos f + int (length data)\<rparr>, data) \<and>
    (\<forall>k. k < nat (f_pos f) \<or> nat (f_pos f) + length data \<le> k \<longrightarrow>
       pbyte (r_pages (node s' (f_inode f))) k = pbyte (r_pages (node s (f_inode f))) k)"
proof -
  obtain s' where w: "ramfs_write f data s = Some (s', f\<lparr>f_pos := f_pos f + int (length data)\<rparr>, Inr (length data))"
    and ok: "file_ok s' (f_inode f)"
    and sz: "uint (i_size (vf_ino s' (f_inode f))) = max (uint (i_size (vf_ino s (f_inode f)))) (f_pos f + int (length data))"
    and bytes: "\<forall>k. pbyte (r_pages (node s' (f_inode f))) k = (if nat (f_pos f) \<le> k \<and> k < nat (f_pos f) + length data
       then data ! (k - nat (f_pos f)) else pbyte (r_pages (node s (f_inode f))) k)"
    using ramfs_write_bytes [OF assms] by blast
  have "unat (of_nat (length data) :: u32) = length data" using assms(2,4) by (subst unat_of_nat) simp
  moreover have "nat (f_pos f) + length data \<le> unat (i_size (vf_ino s' (f_inode f)))"
    using nat_le_unat [of "f_pos f + int (length data)" "i_size (vf_ino s' (f_inode f))"] sz assms(2) by (simp add: nat_add_distrib)
  moreover have "f_pos f \<le> uint (i_size (vf_ino s' (f_inode f)))" using sz assms(3) by simp
  ultimately obtain bs where r: "ramfs_read f (of_nat (length data)) s' = Some (f\<lparr>f_pos := f_pos f + int (length bs)\<rparr>, bs)"
    "length bs = length data" "\<forall>k < length bs. bs ! k = data ! k"
    using ramfs_read_bytes [OF ok assms(2), of "of_nat (length data)"] bytes by auto
  then have "bs = data" by (intro nth_equalityI) auto
  then show ?thesis using w ok sz r(1) bytes by (intro exI [of _ s']) simp
qed

definition empty_file_sys :: "nat option list \<Rightarrow> rvfs" where
  "empty_file_sys mem = \<lparr>vf_ino = \<lambda>_. zero_inode\<lparr>i_ref := 1\<rparr>, vf_mnt = \<lambda>_. undefined, vf_root_mount = None, vf_sb = \<lambda>_. [],
     vf_fs = \<lparr>rf_node = \<lambda>_. new_node, rf_next_ino = \<lambda>_. 1, rf_mem = mem\<rparr>\<rparr>"

definition first_file :: vfile where
  "first_file = \<lparr>f_inode = 1, f_pos = 0, f_flags = 0, f_op = Some Ramfs_fops\<rparr>"

theorem ramfs_write_read_witness:
  "\<exists>s'. ramfs_write first_file [7, 8] (empty_file_sys [Some 1, Some 2, Some 3, Some 4]) = Some (s', first_file\<lparr>f_pos := 2\<rparr>, Inr 2) \<and>
     ramfs_read first_file 2 s' = Some (first_file\<lparr>f_pos := 2\<rparr>, [7, 8])"
  using ramfs_write_read [of "empty_file_sys [Some 1, Some 2, Some 3, Some 4]" first_file "[7, 8]"]
  by (auto simp: empty_file_sys_def first_file_def file_ok_def pages_ok_def new_node_def zero_inode_def)

subsection \<open>Seeking\<close>

text \<open>The loop that doubles the capacity ends for every capacity but 0.\<close>

lemma grow_cap_ends:
  assumes "unat need \<le> 2 ^ 20" and "0 < c"
  shows "\<exists>r. grow_cap c need = Some r \<and> need \<le> r \<and> c \<le> r"
  using assms(2)
proof (induction "unat need - unat c" arbitrary: c rule: less_induct)
  case less
  show ?case
  proof (cases "c < need")
    case False
    then show ?thesis by (subst grow_cap.simps) (auto simp: not_less)
  next
    case True
    then have lt: "unat c < unat need" by (simp add: word_less_nat_alt)
    have c0: "0 < unat c" using less.prems by (simp add: word_less_nat_alt)
    have "unat (c * 2) = unat c * 2" using lt assms(1) by (subst unat_word_ariths) simp
    then have "unat need - unat (c * 2) < unat need - unat c" "0 < c * 2" "c \<le> c * 2"
      using lt c0 by (simp_all add: word_less_nat_alt word_le_nat_alt)
    then show ?thesis using less.hyps [of "c * 2"] True order_trans by (subst grow_cap.simps) fastforce
  qed
qed

lemma page_count_wraps:
  fixes t :: u32
  assumes "2 ^ 32 - 4096 < unat t"
  shows "(t + 4096 - 1) div 4096 = 0"
proof -
  have lt: "unat t < 4294967296" by (rule unat_32_bound)
  have "t + 4096 - 1 = t + 4095" by simp
  moreover have "unat (t + 4095) = (unat t + 4095) mod 4294967296" by (simp add: unat_word_ariths)
  moreover define r where "r = unat t + 4095 - 4294967296"
  have b: "4294963200 < unat t" using assms by simp
  have r: "unat t + 4095 = 4294967296 + r" "r < 4096" using b lt unfolding r_def by linarith+
  moreover have "(4294967296 + r) mod 4294967296 = r" using r(2) by simp
  ultimately have "unat (t + 4096 - 1) < 4096" by (simp only:)
  then have "unat ((t + 4096 - 1) div 4096) = 0" by (simp add: unat_div)
  then show ?thesis by (simp add: unat_eq_zero)
qed

text \<open>
  Seeking within the last page of the 32-bit range sets the size of the file without the pages
  for it: the number of pages wraps to 0. A read there leaves the array of pages.
\<close>

theorem ramfs_lseek_wraps:
  assumes "r_pages (node s (f_inode f)) = []" and "i_size (vf_ino s (f_inode f)) = 0"
    and "2 ^ 32 - 4096 < target" and "target < 2 ^ 32" and "0 < count"
  shows "\<exists>s' f'. ramfs_lseek f target 0 s = Some (s', f', Inr target) \<and>
    uint (i_size (vf_ino s' (f_inode f))) = target \<and> r_pages (node s' (f_inode f)) = [] \<and>
    ramfs_read (f'\<lparr>f_pos := 0\<rparr>) count s' = None"
proof -
  let ?t = "word_of_int target :: u32"
  have ut: "uint ?t = target" using assms(3,4) by (simp add: uint_word_of_int)
  have un: "unat ?t = nat target" using assms(3,4) by (intro cursor_nat) auto
  have pc: "(?t + 4096 - 1) div 4096 = 0" using assms(3) un by (intro page_count_wraps) simp
  have t0: "?t \<noteq> 0" using ut assms(3) by auto
  define s' where "s' = upd_ino (f_inode f) (\<lambda>n. n\<lparr>i_size := ?t\<rparr>) s"
  have "ramfs_do_truncate (f_inode f) ?t s = Some (s', Inr ())"
    using t0 assms(1,2) pc by (simp add: ramfs_do_truncate_def Let_def s'_def)
  then have l: "ramfs_lseek f target 0 s = Some (s', f\<lparr>f_pos := target\<rparr>, Inr target)"
    using assms(2-4) ut by (simp add: ramfs_lseek_def split: unit.splits)
  have "ramfs_read_loop [] 0 0 n = None" if "0 < n" for n using that by (subst ramfs_read_loop.simps) simp
  moreover have "0 < unat (if ?t < count then ?t else count)" using assms(5) t0 by (simp add: word_less_nat_alt unat_gt_0)
  ultimately have "ramfs_read (f\<lparr>f_pos := 0\<rparr>) count s' = None"
    using ut t0 assms(1,3) by (simp add: ramfs_read_def Let_def s'_def)
  then show ?thesis using l ut assms(1) by (simp add: s'_def)
qed

theorem ramfs_lseek_wraps_witness:
  "\<exists>s' f'. ramfs_lseek first_file 4294967295 0 (empty_file_sys []) = Some (s', f', Inr 4294967295) \<and>
     ramfs_read (f'\<lparr>f_pos := 0\<rparr>) 1 s' = None"
  using ramfs_lseek_wraps [of "empty_file_sys []" first_file 4294967295 1]
  by (auto simp: empty_file_sys_def first_file_def new_node_def zero_inode_def)

end
