(* ===== verification/Wey_Cpio.thy ===== *)
theory Wey_Cpio
  imports Wey_String Wey_Errno
begin

text \<open>
  The reader of the initial archive (\<open>lib/cpio.c\<close>), on a byte memory: the eight hexadecimal
  characters of a field, and one step of the iteration with all its range checks. The pointers
  of the code are addresses, so comparisons and additions wrap at \<open>2 ^ 32\<close>.
\<close>

unbundle bit_operations_syntax

subsection \<open>Model\<close>

definition align4 :: "addr \<Rightarrow> addr" where
  "align4 p = p + (4 - p mod 4) mod 4"

definition cpio_range_valid :: "addr \<Rightarrow> addr \<Rightarrow> u32 \<Rightarrow> bool" where
  "cpio_range_valid start stop len \<longleftrightarrow> len \<le> stop - start"

definition cpio_digit :: "u8 \<Rightarrow> u32" where
  "cpio_digit c = (if 48 \<le> c \<and> c \<le> 57 then ucast c - 48
     else if 65 \<le> c \<and> c \<le> 70 then ucast c - 65 + 10
     else if 97 \<le> c \<and> c \<le> 102 then ucast c - 97 + 10 else 0)"

definition cpio_parse_field :: "u8 list \<Rightarrow> u32" where
  "cpio_parse_field field = fold (\<lambda>c v. push_bit 4 v OR cpio_digit c) field 0"

text \<open>\<open>struct cpio_file_iter\<close>; the name and the contents are addresses.\<close>

record cpio_file_iter =
  cf_ino :: u32
  cf_name :: addr
  cf_content :: addr
  cf_filesize :: u32
  cf_mode :: u32
  cf_uid :: u32
  cf_gid :: u32
  cf_nlink :: u32
  cf_mtime :: u32
  cf_devmajor :: u32
  cf_devminor :: u32
  cf_rdevmajor :: u32
  cf_rdevminor :: u32
  cf_check :: u32

text \<open>The header: a field is named by its offset in \<open>struct cpio_header\<close>, which has 110 bytes.\<close>

definition cpio_field :: "mem \<Rightarrow> addr \<Rightarrow> nat \<Rightarrow> u32" where
  "cpio_field m header off = cpio_parse_field (bytes m (header + of_nat off) 8)"

definition CPIO_MAGIC :: "u8 list" where "CPIO_MAGIC = [48, 55, 48, 55, 48, 49]"
definition CPIO_TRAILER :: "u8 list" where "CPIO_TRAILER = [84, 82, 65, 73, 76, 69, 82, 33, 33, 33, 0]"

text \<open>The result 0 is \<open>Cpio_end\<close>; the result 1 carries the file and the new cursor.\<close>

datatype cpio_step = Cpio_end | Cpio_file cpio_file_iter addr

definition cpio_initramfs_iterate :: "mem \<Rightarrow> addr \<Rightarrow> u32 \<Rightarrow> addr \<Rightarrow> errno + cpio_step" where
  "cpio_initramfs_iterate m start sz cursor =
     (if start = 0 then Inl EINVAL
      else if 0xFFFFFFFF - start < sz then Inl ERANGE
      else
        (let stop = start + sz; header = (if cursor = 0 then start else cursor) in
         if \<not> cpio_range_valid header stop 110 then Inl EINVAL
         else if bytes m header 6 \<noteq> CPIO_MAGIC then Inl EINVAL
         else
           (let namesize = cpio_field m header 94; filesize = cpio_field m header 54; name = header + 110 in
            if namesize = 0 then Inl EINVAL
            else if \<not> cpio_range_valid name stop namesize then Inl EINVAL
            else if m (name + (namesize - 1)) \<noteq> 0 then Inl EINVAL
            else if namesize = 11 \<and> bytes m name 11 = CPIO_TRAILER then Inr Cpio_end
            else
              (let content = align4 (name + namesize) in
               if stop < content then Inl ERANGE
               else if \<not> cpio_range_valid content stop filesize then Inl EINVAL
               else
                 (let next = align4 (content + filesize) in
                  if stop < next then Inl EINVAL
                  else Inr (Cpio_file
                    \<lparr>cf_ino = cpio_field m header 6, cf_name = name, cf_content = content, cf_filesize = filesize,
                     cf_mode = cpio_field m header 14, cf_uid = cpio_field m header 22, cf_gid = cpio_field m header 30,
                     cf_nlink = cpio_field m header 38, cf_mtime = cpio_field m header 46,
                     cf_devmajor = cpio_field m header 62, cf_devminor = cpio_field m header 70,
                     cf_rdevmajor = cpio_field m header 78, cf_rdevminor = cpio_field m header 86,
                     cf_check = cpio_field m header 102\<rparr> next))))))"

subsection \<open>Fields\<close>

definition hex_digit :: "u32 \<Rightarrow> u8" where
  "hex_digit d = (if d < 10 then ucast d + 48 else ucast d + 87)"

definition hex_field :: "u32 \<Rightarrow> u8 list" where
  "hex_field v = map (\<lambda>i. hex_digit (drop_bit (28 - 4 * i) v AND 15)) [0..<8]"

lemma cpio_digit_hex_all: "list_all (\<lambda>n. cpio_digit (hex_digit (of_nat n)) = of_nat n) [0..<16]"
  by (simp add: upt_rec cpio_digit_def hex_digit_def)

lemma cpio_digit_hex: "cpio_digit (hex_digit d) = d" if "d < 16"
proof -
  have "unat d \<in> set [0..<16]" using that by (simp add: word_less_nat_alt)
  with cpio_digit_hex_all have "cpio_digit (hex_digit (of_nat (unat d))) = of_nat (unat d)"
    unfolding list_all_iff by blast
  then show ?thesis by simp
qed

text \<open>The eight hexadecimal characters of a number are read back as the number.\<close>

lemma cpio_field_roundtrip: "cpio_parse_field (hex_field v) = v"
proof -
  have step: "push_bit 4 (drop_bit (n + 4) v) OR (drop_bit n v AND 15) = drop_bit n v" if "n + 4 \<le> 32" for n
  proof -
    have "drop_bit n v AND 15 = take_bit 4 (drop_bit n v)" by (simp add: take_bit_eq_mask mask_eq_exp_minus_1)
    then show ?thesis using that by (intro bit_word_eqI) (auto simp: bit_simps)
  qed
  have dig: "cpio_digit (hex_digit (x AND 15)) = x AND 15" for x :: u32
  proof (rule cpio_digit_hex)
    have "x AND 15 \<le> 15" by (rule word_and_le1)
    then show "x AND 15 < 16" by (rule order_le_less_trans) simp
  qed
  have "fold (\<lambda>c v. push_bit 4 v OR cpio_digit c) (map (\<lambda>i. hex_digit (drop_bit (28 - 4 * i) v AND 15)) [0..<k]) 0
      = drop_bit (32 - 4 * k) v" if "k \<le> 8" for k
    using that
  proof (induction k)
    case 0
    have "drop_bit 32 v = 0" by (rule bit_word_eqI) (auto simp: bit_simps)
    then show ?case by simp
  next
    case (Suc k)
    have "32 - 4 * k = (28 - 4 * k) + 4" "32 - 4 * Suc k = 28 - 4 * k" "(28 - 4 * k) + 4 \<le> 32" using Suc.prems by simp_all
    then show ?case using Suc step [of "28 - 4 * k"] by (simp add: dig)
  qed
  from this [of 8] show ?thesis by (simp add: cpio_parse_field_def hex_field_def)
qed

subsection \<open>Bounds\<close>

lemma unat_align4:
  assumes "unat p \<le> 4294967292"
  shows "unat p \<le> unat (align4 p)" and "unat (align4 p) < unat p + 4" and "unat (align4 p) mod 4 = 0"
proof -
  define r where "r = unat p mod 4"
  have r: "r < 4" "unat p mod 4 = r" by (auto simp: r_def)
  have m: "unat (p mod 4) = r" by (simp add: unat_mod r_def)
  have "unat (4 - p mod 4) = 4 - r" using m r by (subst unat_sub_no_wrap) simp_all
  then have pad: "unat ((4 - p mod 4) mod 4) = (4 - r) mod 4" by (simp add: unat_mod)
  define q where "q = unat p div 4"
  have q: "unat p = 4 * q + r" unfolding q_def r_def by simp
  have "r = 0 \<or> r = 1 \<or> r = 2 \<or> r = 3" using r(1) by linarith
  then have cases: "r = 0 \<and> (4 - r) mod 4 = 0 \<or> 0 < r \<and> (4 - r) mod 4 = 4 - r" by auto
  have "0 < r \<Longrightarrow> q < 1073741823" using assms q by linarith
  then have up: "unat p + (4 - r) mod 4 \<le> 4294967292" using cases assms q r(1) by auto
  have a: "unat (align4 p) = unat p + (4 - r) mod 4"
    unfolding align4_def using up pad by (subst unat_add_no_wrap) simp_all
  show "unat p \<le> unat (align4 p)" unfolding a by simp
  show "unat (align4 p) < unat p + 4" unfolding a by simp
  have "unat p + (4 - r) mod 4 = 4 * q \<or> unat p + (4 - r) mod 4 = 4 * (q + 1)" using cases q r(1) by auto
  then show "unat (align4 p) mod 4 = 0" unfolding a by (metis mod_mult_self1_is_0)
qed

lemma range_valid_unat: "cpio_range_valid a b len \<Longrightarrow> unat a \<le> unat b \<Longrightarrow> unat a + unat len \<le> unat b"
  by (simp add: cpio_range_valid_def word_le_nat_alt unat_sub_no_wrap)

lemma cpio_iterate_inside:
  assumes "unat start + unat sz \<le> 4294967292" and "cursor = 0 \<or> start \<le> cursor \<and> cursor \<le> start + sz"
    and it: "cpio_initramfs_iterate m start sz cursor = Inr (Cpio_file f c')"
  shows "unat (cf_name f) = unat (if cursor = 0 then start else cursor) + 110 \<and>
    (\<exists>n > 0. m (cf_name f + (n - 1)) = 0 \<and> unat (cf_name f) + unat n \<le> unat (cf_content f)) \<and>
    unat (cf_content f) + unat (cf_filesize f) \<le> unat c' \<and> unat c' \<le> unat start + unat sz \<and>
    bytes m (if cursor = 0 then start else cursor) 6 = CPIO_MAGIC"
proof -
  let ?h = "if cursor = 0 then start else cursor"
  let ?e = "start + sz"
  have e: "unat ?e = unat start + unat sz" using assms(1) by (intro unat_add_no_wrap) simp
  have h: "unat ?h \<le> unat ?e" using assms(2) e by (auto simp: word_le_nat_alt)
  let ?n = "cpio_field m ?h 94"
  let ?c = "align4 (?h + 110 + ?n)"
  let ?z = "cpio_field m ?h 54"
  have c: "cpio_range_valid ?h ?e 110" "?n \<noteq> 0" "cpio_range_valid (?h + 110) ?e ?n" "m (?h + 110 + (?n - 1)) = 0"
    "\<not> ?e < ?c" "cpio_range_valid ?c ?e ?z" "\<not> ?e < align4 (?c + ?z)" "bytes m ?h 6 = CPIO_MAGIC"
    and f: "cf_name f = ?h + 110" "cf_content f = ?c" "cf_filesize f = ?z" "c' = align4 (?c + ?z)"
    using it unfolding cpio_initramfs_iterate_def Let_def by (auto split: if_splits)
  have h1: "unat ?h + 110 \<le> unat ?e" using range_valid_unat [OF c(1) h] by simp
  have n1: "unat (?h + 110) = unat ?h + 110" using h1 assms(1) e by (subst unat_add_no_wrap) simp_all
  have n2: "unat (?h + 110) + unat ?n \<le> unat ?e" using range_valid_unat [OF c(3)] h1 n1 by simp
  have n3: "unat (?h + 110 + ?n) = unat (?h + 110) + unat ?n" using n2 assms(1) e by (subst unat_add_no_wrap) simp_all
  have a1: "unat (?h + 110 + ?n) \<le> unat ?c" using n2 n3 assms(1) e by (intro unat_align4) simp
  have a2: "unat ?c + unat ?z \<le> unat ?e" using range_valid_unat [OF c(6)] c(5) by (simp add: word_less_nat_alt)
  have a3: "unat (?c + ?z) = unat ?c + unat ?z" using a2 assms(1) e by (subst unat_add_no_wrap) simp_all
  have a4: "unat (?c + ?z) \<le> unat (align4 (?c + ?z))" using a2 a3 assms(1) e by (intro unat_align4) simp
  have "unat (align4 (?c + ?z)) \<le> unat ?e" using c(7) by (simp add: word_less_nat_alt)
  moreover have "\<exists>n > 0. m (cf_name f + (n - 1)) = 0 \<and> unat (cf_name f) + unat n \<le> unat (cf_content f)"
    using c(2,4) a1 n3 f by (intro exI [of _ ?n]) (simp add: word_gt_0)
  ultimately show ?thesis using f n1 a3 a4 c(8) e by simp
qed

text \<open>
  C36. The reader stays inside the archive: a file it reports has its name, the terminating NUL of
  the name, and its contents between the cursor and the new cursor, in this order, the new cursor
  is at most the end of the archive and at least 111 bytes further.
\<close>

theorem cpio_iterate_bounds:
  assumes "unat start + unat sz \<le> 4294967292" and "cursor = 0 \<or> start \<le> cursor \<and> cursor \<le> start + sz"
    and "cpio_initramfs_iterate m start sz cursor = Inr (Cpio_file f c')"
  shows "unat (cf_name f) = unat (if cursor = 0 then start else cursor) + 110 \<and>
    (\<exists>n > 0. m (cf_name f + (n - 1)) = 0 \<and> unat (cf_name f) + unat n \<le> unat (cf_content f)) \<and>
    unat (cf_content f) + unat (cf_filesize f) \<le> unat c' \<and> unat c' \<le> unat start + unat sz"
  using cpio_iterate_inside [OF assms] by blast

subsection \<open>Reading back what an archive holds\<close>

definition holds :: "mem \<Rightarrow> addr \<Rightarrow> u8 list \<Rightarrow> bool" where
  "holds m a xs \<longleftrightarrow> bytes m a (length xs) = xs"

lemma bytes_add: "bytes m a (n + k) = bytes m a n @ bytes m (a + of_nat n) k"
  by (induction k) (simp_all add: bytes_def add.assoc)

lemma holds_append: "holds m a (xs @ ys) \<longleftrightarrow> holds m a xs \<and> holds m (a + of_nat (length xs)) ys"
  by (simp add: holds_def bytes_add) (auto simp: bytes_def)

lemma length_hex_field [simp]: "length (hex_field v) = 8"
  by (simp add: hex_field_def)

lemma holds_field: "holds m h (concat (map hex_field vs)) \<Longrightarrow> i < length vs \<Longrightarrow> cpio_parse_field (bytes m (h + of_nat (8 * i)) 8) = vs ! i"
proof (induction vs arbitrary: h i)
  case (Cons v vs)
  have v: "bytes m h 8 = hex_field v" and r: "holds m (h + 8) (concat (map hex_field vs))"
    using Cons.prems(1) by (simp_all add: holds_append) (simp add: holds_def)
  show ?case
  proof (cases i)
    case 0
    then show ?thesis using v by (simp add: cpio_field_roundtrip)
  next
    case (Suc j)
    then show ?thesis using Cons.IH [OF r, of j] Cons.prems(2) by (simp add: add.assoc)
  qed
qed simp

lemma cpio_entry_read:
  assumes "start \<noteq> 0" and "unat start + unat sz < 4294967296" and "cursor = 0 \<or> start \<le> cursor \<and> cursor \<le> start + sz"
    and "h = (if cursor = 0 then start else cursor)"
    and "holds m h (CPIO_MAGIC @ concat (map hex_field vs) @ name @ [0])" and "length vs = 13"
    and "unat (vs ! 11) = length name + 1" and "name @ [0] \<noteq> CPIO_TRAILER"
    and "unat h + 110 + length name < unat start + unat sz"
    and "c = align4 (h + 110 + vs ! 11)" and "c \<le> start + sz" and "vs ! 6 \<le> start + sz - c" and "align4 (c + vs ! 6) \<le> start + sz"
  shows "cpio_initramfs_iterate m start sz cursor = Inr (Cpio_file
      \<lparr>cf_ino = vs ! 0, cf_name = h + 110, cf_content = c, cf_filesize = vs ! 6, cf_mode = vs ! 1, cf_uid = vs ! 2, cf_gid = vs ! 3,
       cf_nlink = vs ! 4, cf_mtime = vs ! 5, cf_devmajor = vs ! 7, cf_devminor = vs ! 8, cf_rdevmajor = vs ! 9,
       cf_rdevminor = vs ! 10, cf_check = vs ! 12\<rparr> (align4 (c + vs ! 6)))
    \<and> bytes m (h + 110) (length name + 1) = name @ [0]"
proof -
  have len: "length (concat (map hex_field vs)) = 104" using assms(6) by (simp add: length_concat o_def sum_list_triv)
  have magic: "length CPIO_MAGIC = 6" by (simp add: CPIO_MAGIC_def)
  have p: "holds m h CPIO_MAGIC" "holds m (h + 6) (concat (map hex_field vs))" "holds m (h + 110) (name @ [0])"
    using assms(5) len magic by (simp_all add: holds_append add.assoc)
  have fld: "cpio_field m h (6 + 8 * i) = vs ! i" if "i < 13" for i
    using holds_field [OF p(2), of i] that assms(6) by (simp add: cpio_field_def add.assoc)
  have f: "cpio_field m h 6 = vs ! 0" "cpio_field m h 14 = vs ! 1" "cpio_field m h 22 = vs ! 2" "cpio_field m h 30 = vs ! 3"
    "cpio_field m h 38 = vs ! 4" "cpio_field m h 46 = vs ! 5" "cpio_field m h 54 = vs ! 6" "cpio_field m h 62 = vs ! 7"
    "cpio_field m h 70 = vs ! 8" "cpio_field m h 78 = vs ! 9" "cpio_field m h 86 = vs ! 10" "cpio_field m h 94 = vs ! 11"
    "cpio_field m h 102 = vs ! 12"
    using fld [of 0] fld [of 1] fld [of 2] fld [of 3] fld [of 4] fld [of 5] fld [of 6] fld [of 7] fld [of 8] fld [of 9] fld [of 10]
      fld [of 11] fld [of 12] by simp_all
  have mg: "bytes m h 6 = CPIO_MAGIC" using p(1) magic by (simp add: holds_def)
  have nb: "bytes m (h + 110) (length name + 1) = name @ [0]" using p(3) by (simp add: holds_def)
  have e: "unat (start + sz) = unat start + unat sz" using assms(2) by (intro unat_add_no_wrap) simp
  have "unat h \<le> unat (start + sz)" using assms(9) e by linarith
  then have rv1: "cpio_range_valid h (start + sz) 110" using assms(9) e by (simp add: cpio_range_valid_def word_le_nat_alt unat_sub_no_wrap)
  have n1: "unat (h + 110) = unat h + 110" using assms(2,9) by (subst unat_add_no_wrap) simp_all
  have rv2: "cpio_range_valid (h + 110) (start + sz) (vs ! 11)"
    using assms(7,9) e n1 by (simp add: cpio_range_valid_def word_le_nat_alt unat_sub_no_wrap)
  have last0: "m (h + 110 + (vs ! 11 - 1)) = 0"
  proof -
    have "vs ! 11 = of_nat (unat (vs ! 11))" by simp
    then have "vs ! 11 - 1 = of_nat (length name)" unfolding assms(7) by simp
    moreover have "bytes m (h + 110) (length name + 1) ! length name = 0" unfolding nb by simp
    ultimately show ?thesis by (simp add: bytes_def del: upt_Suc)
  qed
  have tr: "\<not> (vs ! 11 = 11 \<and> bytes m (h + 110) 11 = CPIO_TRAILER)" using nb assms(7,8) by auto
  have n0: "vs ! 11 \<noteq> 0" using assms(7) by auto
  have sz: "\<not> 0xFFFFFFFF - start < sz"
  proof -
    have "unat (0xFFFFFFFF - start) = 4294967295 - unat start" using assms(2) by (subst unat_sub_no_wrap) simp_all
    then show ?thesis using assms(2) by (simp add: word_less_nat_alt)
  qed
  show ?thesis
    using assms(1,10-13) rv1 rv2 last0 tr n0 sz mg nb f
    unfolding cpio_initramfs_iterate_def Let_def assms(4) [symmetric]
    by (simp add: cpio_range_valid_def not_less)
qed


text \<open>An archive at 0x1000: the regular file \<open>a\<close> with one byte.\<close>

definition demo_fields :: "u32 list" where
  "demo_fields = [1, 0x81A4, 0, 0, 1, 0, 1, 0, 0, 0, 0, 2, 0]"

definition demo_entry :: "u8 list" where
  "demo_entry = CPIO_MAGIC @ concat (map hex_field demo_fields) @ [97] @ [0]"

definition demo_archive :: mem where
  "demo_archive a = (if unat (a - 0x1000) < length demo_entry then demo_entry ! unat (a - 0x1000) else 7)"

lemma demo_entry_length: "length demo_entry = 112"
  by (simp add: demo_entry_def demo_fields_def CPIO_MAGIC_def)

lemma demo_archive_holds: "holds demo_archive 0x1000 demo_entry"
proof -
  have "unat (of_nat i :: addr) = i" if "i < 112" for i using that by (subst unat_of_nat) simp
  then show ?thesis by (auto simp: holds_def bytes_def demo_archive_def demo_entry_length intro: nth_equalityI)
qed

lemma demo_archive_first:
  "\<exists>f. cpio_initramfs_iterate demo_archive 0x1000 116 0 = Inr (Cpio_file f 0x1074) \<and> cf_filesize f = 1 \<and> cf_mode f = 0x81A4"
  using cpio_entry_read [where start = "0x1000" and sz = "116" and cursor = "0" and h = "0x1000" and m = demo_archive
      and vs = demo_fields and name = "[97]" and c = "0x1070"] demo_archive_holds
  by (auto simp: demo_entry_def demo_fields_def align4_def CPIO_TRAILER_def)

theorem cpio_iterate_bounds_witness:
  "\<exists>f c'. cpio_initramfs_iterate demo_archive 0x1000 116 0 = Inr (Cpio_file f c') \<and>
     unat (cf_content f) + unat (cf_filesize f) \<le> unat c' \<and> unat c' \<le> 0x1000 + 116"
proof -
  obtain f where f: "cpio_initramfs_iterate demo_archive 0x1000 116 0 = Inr (Cpio_file f 0x1074)"
    using demo_archive_first by blast
  show ?thesis using cpio_iterate_bounds [OF _ _ f] f by simp
qed


end
