(* ===== verification/Wey_Initramfs.thy ===== *)
theory Wey_Initramfs
  imports Wey_Cpio Wey_Ramfs
begin

text \<open>
  Unpacking the initial archive into the root file system (\<open>core/initramfs.c\<close>): the archive reader
  drives the operations on names and files of the memory file system. The result \<open>None\<close> of the
  loop is that it does not return, \<open>Some None\<close> an access out of bounds on the way. \<open>ok\<close> answers
  the allocation of the \<open>struct file\<close> of an entry, and \<open>dev_write\<close> is what a device does when an
  entry of the archive has the name of an existing device node.
\<close>

unbundle bit_operations_syntax

subsection \<open>Model\<close>

definition MINOR_BITS :: nat where "MINOR_BITS = 20"
definition MKDEV :: "u32 \<Rightarrow> u32 \<Rightarrow> u32" where "MKDEV ma mi = push_bit MINOR_BITS ma OR mi"
definition MINOR :: "u32 \<Rightarrow> u32" where "MINOR devt = devt AND (push_bit MINOR_BITS 1 - 1)"
definition MAJOR :: "u32 \<Rightarrow> u32" where "MAJOR devt = drop_bit MINOR_BITS devt"

definition ram_file_env :: "ramfs file_env" where
  "ram_file_env = \<lparr>fe_open = \<lambda>_. None, fe_close = \<lambda>_. None, fe_release = \<lambda>_. None\<rparr>"

text \<open>The string at an address.\<close>

definition cstring :: "mem \<Rightarrow> addr \<Rightarrow> string option" where
  "cstring m a = map_option (\<lambda>n. map (\<lambda>b. char_of (unat b)) (bytes m a (unat n))) (strlen m a)"

definition neg :: "errno + 'a \<Rightarrow> int" where
  "neg r = (case r of Inl e \<Rightarrow> - errno_val e | Inr _ \<Rightarrow> 0)"

text \<open>Writing the contents of a regular file and closing it.\<close>

definition unpack_file :: "(vfile \<Rightarrow> u8 list \<Rightarrow> rvfs \<Rightarrow> (rvfs \<times> vfile \<times> int) option) \<Rightarrow> vfile \<Rightarrow> u8 list \<Rightarrow> rvfs
    \<Rightarrow> (rvfs \<times> int) option" where
  "unpack_file dev_write file data s =
     (case (case f_op file of
              None \<Rightarrow> Some (s, file, - errno_val EIO)
            | Some Ramfs_fops \<Rightarrow>
                map_option (\<lambda>(s', f', r). (s', f', case r of Inl e \<Rightarrow> - errno_val e | Inr n \<Rightarrow> int n)) (ramfs_write file data s)
            | Some _ \<Rightarrow> dev_write file data s) of
        None \<Rightarrow> None
      | Some (s1, file1, written) \<Rightarrow>
          if written < 0 then Some (s1, written)
          else if written \<noteq> int (length data) then Some (s1, - errno_val EIO)
          else Some (file_last_put ram_env ram_file_env file1 s1, 0))"

definition unpack_entry :: "bool \<Rightarrow> (vfile \<Rightarrow> u8 list \<Rightarrow> rvfs \<Rightarrow> (rvfs \<times> vfile \<times> int) option) \<Rightarrow> mem \<Rightarrow> cpio_file_iter \<Rightarrow> rvfs
    \<Rightarrow> (rvfs \<times> int) option" where
  "unpack_entry ok dev_write m cpio s =
     (if cf_filesize cpio = 0 then Some (s, 0)
      else
        (case cstring m (cf_name cpio) of
           None \<Rightarrow> None
         | Some name \<Rightarrow>
             if S_ISDIR (ucast (cf_mode cpio)) then
               (case vfs_mkdir ram_env name s of (s', r) \<Rightarrow> Some (s', neg r))
             else if S_ISREG (ucast (cf_mode cpio)) then
               (case vfs_open ram_env ram_file_env ok name (O_CREAT OR O_TRUNC) (ucast (cf_mode cpio)) s of
                  None \<Rightarrow> None
                | Some (s', Inl e) \<Rightarrow> Some (s', - errno_val e)
                | Some (s', Inr file) \<Rightarrow>
                    unpack_file dev_write file (bytes m (cf_content cpio) (unat (cf_filesize cpio))) s')
             else
               (case vfs_mknod ram_env name (ucast (cf_mode cpio)) (MKDEV (cf_devmajor cpio) (cf_devminor cpio)) s of
                  (s', r) \<Rightarrow> Some (s', neg r))))"

partial_function (option) unpack_loop :: "(addr \<Rightarrow> bool) \<Rightarrow> (vfile \<Rightarrow> u8 list \<Rightarrow> rvfs \<Rightarrow> (rvfs \<times> vfile \<times> int) option)
    \<Rightarrow> mem \<Rightarrow> addr \<Rightarrow> u32 \<Rightarrow> addr \<Rightarrow> rvfs \<Rightarrow> (rvfs \<times> int) option option" where
  "unpack_loop ok dev_write m start sz cursor s =
     (case cpio_initramfs_iterate m start sz cursor of
        Inl e \<Rightarrow> Some (Some (s, - errno_val e))
      | Inr Cpio_end \<Rightarrow> Some (Some (s, 0))
      | Inr (Cpio_file cpio cursor') \<Rightarrow>
          (case unpack_entry (ok cursor') dev_write m cpio s of
             None \<Rightarrow> Some None
           | Some (s', err) \<Rightarrow>
               if err \<noteq> 0 then Some (Some (s', err)) else unpack_loop ok dev_write m start sz cursor' s'))"

definition unpack where
  "unpack ok dev_write m start sz s = unpack_loop ok dev_write m start sz 0 s"

text \<open>\<open>unpack_initrd\<close>: the built-in archive, whose failure is a panic (\<open>Inl\<close>), then that of the boot loader.\<close>

definition unpack_initrd :: "(addr \<Rightarrow> bool) \<Rightarrow> (vfile \<Rightarrow> u8 list \<Rightarrow> rvfs \<Rightarrow> (rvfs \<times> vfile \<times> int) option)
    \<Rightarrow> mem \<Rightarrow> addr \<Rightarrow> u32 \<Rightarrow> addr \<Rightarrow> u32 \<Rightarrow> rvfs \<Rightarrow> (int + rvfs \<times> int) option option" where
  "unpack_initrd ok dev_write m initramfs_start initramfs_size ramdisk_ptr ramdisk_size s =
     (case (if initramfs_size \<noteq> 0 then unpack ok dev_write m initramfs_start initramfs_size s else Some (Some (s, 0))) of
        None \<Rightarrow> None
      | Some None \<Rightarrow> Some None
      | Some (Some (s1, res)) \<Rightarrow>
          if res \<noteq> 0 then Some (Some (Inl res))
          else if ramdisk_size \<noteq> 0 then map_option (map_option Inr) (unpack ok dev_write m ramdisk_ptr ramdisk_size s1)
          else Some (Some (Inr (s1, res))))"

subsection \<open>Termination\<close>

lemma iterate_advances:
  assumes "unat start + unat sz \<le> 4294967292" and "cursor = 0 \<or> start \<le> cursor \<and> cursor \<le> start + sz"
    and "cpio_initramfs_iterate m start sz cursor = Inr (Cpio_file f c')"
  shows "start \<le> c' \<and> c' \<le> start + sz \<and> unat (if cursor = 0 then start else cursor) < unat c'"
proof -
  have e: "unat (start + sz) = unat start + unat sz" using assms(1) by (intro unat_add_no_wrap) simp
  obtain n :: addr where n: "unat (cf_name f) + unat n \<le> unat (cf_content f)"
    and b: "unat (cf_name f) = unat (if cursor = 0 then start else cursor) + 110"
      "unat (cf_content f) + unat (cf_filesize f) \<le> unat c'" "unat c' \<le> unat start + unat sz"
    using cpio_iterate_inside [OF assms] by blast
  have lt: "unat (if cursor = 0 then start else cursor) < unat c'" using n b by linarith
  have "unat start \<le> unat (if cursor = 0 then start else cursor)" using assms(2) by (auto simp: word_le_nat_alt)
  then show ?thesis using lt b(3) e by (simp add: word_le_nat_alt)
qed

lemma unpack_loop_ends:
  assumes "unat start + unat sz \<le> 4294967292" and "cursor = 0 \<or> start \<le> cursor \<and> cursor \<le> start + sz"
  shows "\<exists>r. unpack_loop ok dev_write m start sz cursor s = Some r"
  using assms(2)
proof (induction "4294967296 - unat (if cursor = 0 then start else cursor)" arbitrary: cursor s rule: less_induct)
  case less
  show ?case
  proof (cases "\<exists>f c s'. cpio_initramfs_iterate m start sz cursor = Inr (Cpio_file f c) \<and> unpack_entry (ok c) dev_write m f s = Some (s', 0)")
    case False
    then show ?thesis
      by (subst unpack_loop.simps) (auto split: sum.splits cpio_step.splits option.splits)
  next
    case True
    then obtain f c s' where c: "cpio_initramfs_iterate m start sz cursor = Inr (Cpio_file f c)"
      "unpack_entry (ok c) dev_write m f s = Some (s', 0)" by blast
    have a: "start \<le> c \<and> c \<le> start + sz" "unat (if cursor = 0 then start else cursor) < unat c"
      using iterate_advances [OF assms(1) less.prems c(1)] by auto
    have lt: "unat c < 4294967296" by (rule unat_32_bound)
    have "c \<noteq> 0" using a(2) by auto
    then have "4294967296 - unat (if c = 0 then start else c) < 4294967296 - unat (if cursor = 0 then start else cursor)"
      unfolding if_not_P [OF \<open>c \<noteq> 0\<close>] using a(2) lt by linarith
    then show ?thesis using less.hyps a(1) c by (subst unpack_loop.simps) simp
  qed
qed



end
