(* ===== verification/Wey_Clock.thy ===== *)
theory Wey_Clock
  imports Wey_Div64 Wey_Errno
begin

text \<open>
  Timekeeping (\<open>core/clock.c\<close>) and the real-time clock (\<open>arch/i386/kernel/rtc.c\<close>). The state is
  that of the static variables; clock sources, clock events and handlers are named by numbers, and
  what a source reads, an event device answers or a handler does is an argument.
\<close>

unbundle bit_operations_syntax

subsection \<open>Timekeeping\<close>

record clock =
  ck_ticks :: u64
  ck_mono :: u64
  ck_offset :: u64
  ck_tick_ns :: u64
  ck_rem :: u64
  ck_acc :: u64
  ck_hz :: u32
  ck_listeners :: "(nat \<times> addr) list"
  ck_source :: "nat option"
  ck_event :: "nat option"

text \<open>The static variables before \<open>clock_init\<close>.\<close>

definition clock_bss :: clock where
  "clock_bss = \<lparr>ck_ticks = 0, ck_mono = 0, ck_offset = 0, ck_tick_ns = 0, ck_rem = 0, ck_acc = 0, ck_hz = 0,
     ck_listeners = [], ck_source = None, ck_event = None\<rparr>"

definition NSEC_PER_SEC :: u64 where "NSEC_PER_SEC = 1000000000"

text \<open>\<open>None\<close> is the divide error of \<open>do_div\<close>; the clock source \<open>None\<close> is \<open>default_clocksource\<close>.\<close>

definition clock_init :: "u32 \<Rightarrow> clock \<Rightarrow> (clock \<times> (errno + unit)) option" where
  "clock_init timer_hz c =
     (if timer_hz = 0 then Some (c, Inl EINVAL)
      else case do_div_arch NSEC_PER_SEC timer_hz of
          None \<Rightarrow> None
        | Some (q, r) \<Rightarrow>
            Some (\<lparr>ck_ticks = 0, ck_mono = 0, ck_offset = 0, ck_tick_ns = q, ck_rem = ucast r, ck_acc = 0, ck_hz = timer_hz,
                   ck_listeners = [], ck_source = None, ck_event = None\<rparr>, Inr ()))"

definition clock_set_realtime_ns :: "u64 \<Rightarrow> clock \<Rightarrow> clock" where
  "clock_set_realtime_ns t c = c\<lparr>ck_offset := t - ck_mono c\<rparr>"

definition clock_tick :: "clock \<Rightarrow> clock" where
  "clock_tick c =
     (let c = c\<lparr>ck_ticks := ck_ticks c + 1, ck_mono := ck_mono c + ck_tick_ns c\<rparr> in
      if ck_rem c \<noteq> 0 then
        (let c = c\<lparr>ck_acc := ck_acc c + ck_rem c\<rparr> in
         if ucast (ck_hz c) \<le> ck_acc c then c\<lparr>ck_mono := ck_mono c + 1, ck_acc := ck_acc c - ucast (ck_hz c)\<rparr> else c)
      else c)"

definition clock_get_ticks :: "clock \<Rightarrow> u64" where
  "clock_get_ticks c = ck_ticks c"

definition clock_get_monotonic_ns :: "(nat \<Rightarrow> u64) \<Rightarrow> clock \<Rightarrow> u64" where
  "clock_get_monotonic_ns read_ns c = (case ck_source c of None \<Rightarrow> ck_mono c | Some source \<Rightarrow> read_ns source)"

definition clock_get_realtime_ns :: "(nat \<Rightarrow> u64) \<Rightarrow> clock \<Rightarrow> u64" where
  "clock_get_realtime_ns read_ns c = clock_get_monotonic_ns read_ns c + ck_offset c"

text \<open>A source or event is registered when the pointer and its operation are not null.\<close>

definition clocksource_register :: "(nat \<Rightarrow> bool) \<Rightarrow> nat option \<Rightarrow> clock \<Rightarrow> clock \<times> (errno + unit)" where
  "clocksource_register has_read source c =
     (case source of
        None \<Rightarrow> (c, Inl EINVAL)
      | Some s \<Rightarrow> if \<not> has_read s then (c, Inl EINVAL) else (c\<lparr>ck_source := Some s\<rparr>, Inr ()))"

definition clockevent_register :: "(nat \<Rightarrow> bool) \<Rightarrow> nat option \<Rightarrow> clock \<Rightarrow> clock \<times> (errno + unit)" where
  "clockevent_register has_start event c =
     (case event of
        None \<Rightarrow> (c, Inl EINVAL)
      | Some e \<Rightarrow> if \<not> has_start e then (c, Inl EINVAL) else (c\<lparr>ck_event := Some e\<rparr>, Inr ()))"

definition clockevent_start_periodic :: "(nat \<Rightarrow> (u32 \<Rightarrow> int) option) \<Rightarrow> u32 \<Rightarrow> clock \<Rightarrow> int" where
  "clockevent_start_periodic start hz c =
     (case Option.bind (ck_event c) start of None \<Rightarrow> - errno_val EINVAL | Some f \<Rightarrow> f hz)"

definition clockevent_stop :: "(nat \<Rightarrow> ('st \<Rightarrow> 'st) option) \<Rightarrow> clock \<Rightarrow> 'st \<Rightarrow> 'st" where
  "clockevent_stop stop c st = (case Option.bind (ck_event c) stop of None \<Rightarrow> st | Some f \<Rightarrow> f st)"

text \<open>\<open>ok\<close> says whether the heap has memory for the listener.\<close>

definition clockevent_register_listener :: "bool \<Rightarrow> nat option \<Rightarrow> addr \<Rightarrow> clock \<Rightarrow> clock \<times> (errno + unit)" where
  "clockevent_register_listener ok handler data c =
     (case handler of
        None \<Rightarrow> (c, Inl EINVAL)
      | Some h \<Rightarrow> if \<not> ok then (c, Inl ENOMEM) else (c\<lparr>ck_listeners := ck_listeners c @ [(h, data)]\<rparr>, Inr ()))"

definition clockevent_fire :: "(nat \<Rightarrow> addr \<Rightarrow> 'st \<Rightarrow> 'st) \<Rightarrow> clock \<Rightarrow> 'st \<Rightarrow> clock \<times> 'st" where
  "clockevent_fire run c st = (let c = clock_tick c in (c, fold (\<lambda>(handler, data). run handler data) (ck_listeners c) st))"

subsection \<open>The real-time clock\<close>

record rtc_time =
  tm_year :: u16
  tm_month :: u8
  tm_day :: u8
  tm_hour :: u8
  tm_minute :: u8
  tm_second :: u8

definition bcd_to_bin :: "u8 \<Rightarrow> u8" where
  "bcd_to_bin v = (v AND 0x0F) + drop_bit 4 v * 10"

definition is_leap_year :: "nat \<Rightarrow> bool" where
  "is_leap_year y \<longleftrightarrow> y mod 4 = 0 \<and> y mod 100 \<noteq> 0 \<or> y mod 400 = 0"

definition month_days :: "nat list" where
  "month_days = [31, 28, 31, 30, 31, 30, 31, 31, 30, 31, 30, 31]"

text \<open>The bodies of the two loops; \<open>None\<close>: the month is beyond the table.\<close>

definition add_year :: "nat \<Rightarrow> u64 \<Rightarrow> u64" where
  "add_year year days = days + (if is_leap_year year then 366 else 365)"

definition add_month :: "bool \<Rightarrow> nat \<Rightarrow> u64 \<Rightarrow> u64" where
  "add_month leap month days =
     (let days = days + of_nat (month_days ! (month - 1)) in if month = 2 \<and> leap then days + 1 else days)"

definition rtc_days_since_epoch :: "rtc_time \<Rightarrow> u64 option" where
  "rtc_days_since_epoch tm =
     (let year = unat (tm_year tm); month = unat (tm_month tm);
          days = fold add_year [1970..<year] 0
      in if 13 < month then None
         else Some (fold (add_month (is_leap_year year)) [1..<month] days + (ucast (tm_day tm) - 1)))"

definition rtc_time_to_unix_ns :: "rtc_time \<Rightarrow> u64 option" where
  "rtc_time_to_unix_ns tm =
     map_option (\<lambda>days. (days * 86400 + ucast (tm_hour tm) * 3600 + ucast (tm_minute tm) * 60 + ucast (tm_second tm)) * NSEC_PER_SEC)
       (rtc_days_since_epoch tm)"

text \<open>What \<open>rtc_read\<close> makes of a consistent set of registers.\<close>

definition rtc_decode :: "u8 \<Rightarrow> u8 \<Rightarrow> u8 \<Rightarrow> u8 \<Rightarrow> u8 \<Rightarrow> u8 \<Rightarrow> u8 \<Rightarrow> u8 \<Rightarrow> rtc_time" where
  "rtc_decode status_b second minute hour day month year century =
     (let hour_pm = hour AND 0x80; bcd = (status_b AND 0x04 = 0);
          conv = (\<lambda>v. if bcd then bcd_to_bin v else v);
          hour = (if bcd then bcd_to_bin (hour AND 0x7F) else hour);
          hour = (if status_b AND 0x02 = 0 then
                    (if hour_pm \<noteq> 0 \<and> hour < 12 then hour + 12 else if hour_pm = 0 \<and> hour = 12 then 0 else hour)
                  else hour);
          century = conv century; year = conv year;
          century = (if century = 0 \<or> century = 0xFF then (if year < 70 then 20 else 19) else century)
      in \<lparr>tm_year = ucast century * 100 + ucast year, tm_month = conv month, tm_day = conv day, tm_hour = hour,
          tm_minute = conv minute, tm_second = conv second\<rparr>)"

text \<open>
  Reading the registers: \<open>cmos n reg\<close> is what the \<open>n\<close>-th read of the chip returns for the register,
  so the clock may advance between two reads. The wait for the end of an update and the loop until
  two readings agree may not return.
\<close>

partial_function (option) rtc_wait :: "(nat \<Rightarrow> u8 \<Rightarrow> u8) \<Rightarrow> nat \<Rightarrow> nat option" where
  "rtc_wait cmos n = (if cmos n 0x0A AND 0x80 \<noteq> 0 then rtc_wait cmos (Suc n) else Some (Suc n))"

fun rtc_recheck :: "(nat \<Rightarrow> u8 \<Rightarrow> u8) \<Rightarrow> nat \<Rightarrow> (u8 \<times> u8) list \<Rightarrow> nat option" where
  "rtc_recheck cmos n [] = None"
| "rtc_recheck cmos n ((reg, v) # rest) = (if cmos n reg \<noteq> v then Some (Suc n) else rtc_recheck cmos (Suc n) rest)"

partial_function (option) rtc_sample :: "(nat \<Rightarrow> u8 \<Rightarrow> u8) \<Rightarrow> nat \<Rightarrow> rtc_time option" where
  "rtc_sample cmos n =
     (case rtc_wait cmos n of
        None \<Rightarrow> None
      | Some k \<Rightarrow>
          (let status_b = cmos k 0x0B; second = cmos (k + 1) 0x00; minute = cmos (k + 2) 0x02; hour = cmos (k + 3) 0x04;
               day = cmos (k + 4) 0x07; month = cmos (k + 5) 0x08; year = cmos (k + 6) 0x09; century = cmos (k + 7) 0x32
           in case rtc_recheck cmos (k + 8) [(0x00, second), (0x02, minute), (0x04, hour), (0x07, day), (0x08, month), (0x09, year)] of
                Some j \<Rightarrow> rtc_sample cmos j
              | None \<Rightarrow> Some (rtc_decode status_b second minute hour day month year century)))"

text \<open>\<open>tm\<close> says whether the pointer is not null; the time read is the answer.\<close>

definition rtc_read :: "(nat \<Rightarrow> u8 \<Rightarrow> u8) \<Rightarrow> bool \<Rightarrow> (errno + rtc_time) option" where
  "rtc_read cmos tm = (if \<not> tm then Some (Inl EINVAL) else map_option Inr (rtc_sample cmos 0))"

subsection \<open>The clock does not drift\<close>

definition sane :: "clock \<Rightarrow> nat \<Rightarrow> bool" where
  "sane c n \<longleftrightarrow> 0 < unat (ck_hz c) \<and> unat (ck_tick_ns c) = 1000000000 div unat (ck_hz c)
     \<and> unat (ck_rem c) = 1000000000 mod unat (ck_hz c)
     \<and> unat (ck_acc c) = n * 1000000000 mod unat (ck_hz c)
     \<and> ck_mono c = of_nat (n * 1000000000 div unat (ck_hz c)) \<and> ck_ticks c = of_nat n"

lemma div_step:
  fixes h d m :: nat
  assumes "0 < h"
  shows "(m + d) div h = m div h + d div h + (if h \<le> m mod h + d mod h then 1 else 0)"
    and "(m + d) mod h = (if h \<le> m mod h + d mod h then m mod h + d mod h - h else m mod h + d mod h)"
proof -
  define s where "s = m mod h + d mod h"
  have "m mod h < h" "d mod h < h" using assms by simp_all
  then have s: "s < h + h" unfolding s_def by linarith
  have c: "s div h = (if h \<le> s then 1 else 0) \<and> s mod h = (if h \<le> s then s - h else s)"
  proof (cases "h \<le> s")
    case True
    then have "s - h < h" using s by linarith
    then show ?thesis using True assms by (simp add: le_div_geq le_mod_geq)
  qed simp
  have "(m + d) div h = s div h + (m div h + d div h)" unfolding s_def by (subst div_add1_eq) simp
  then show "(m + d) div h = m div h + d div h + (if h \<le> m mod h + d mod h then 1 else 0)"
    using c unfolding s_def [symmetric] by simp
  have "(m + d) mod h = s mod h" unfolding s_def by (simp add: mod_add_eq)
  then show "(m + d) mod h = (if h \<le> m mod h + d mod h then m mod h + d mod h - h else m mod h + d mod h)"
    using c unfolding s_def [symmetric] by simp
qed

lemma unat_of_nat_giga: "n \<le> 1000000000 \<Longrightarrow> unat (of_nat n :: u64) = n" "n \<le> 1000000000 \<Longrightarrow> unat (of_nat n :: u32) = n"
  by (subst unat_of_nat, simp)+

lemma clock_init_sane:
  assumes "hz \<noteq> 0"
  shows "\<exists>c'. clock_init hz c = Some (c', Inr ()) \<and> sane c' 0 \<and> ck_hz c' = hz \<and> ck_source c' = None \<and> ck_listeners c' = []"
proof -
  have h: "0 < unat hz" using assms by (simp add: unat_gt_0)
  let ?q = "1000000000 div unat hz" and ?r = "1000000000 mod unat hz"
  have q: "?q \<le> 1000000000" by (rule div_le_dividend)
  have r: "?r \<le> 1000000000" by (rule mod_less_eq_dividend)
  have "\<not> 4294967296 \<le> ?q" using q by linarith
  have "do_div_arch NSEC_PER_SEC hz = Some (of_nat ?q, of_nat ?r)"
    using assms \<open>\<not> 4294967296 \<le> ?q\<close> by (simp add: do_div_arch_def NSEC_PER_SEC_def Let_def)
  moreover have "unat (of_nat ?q :: u64) = ?q" by (rule unat_of_nat_giga [OF q])
  moreover have "unat (ucast (of_nat ?r :: u32) :: u64) = ?r"
    by (simp only: unat_ucast_32_64 unat_of_nat_giga(2) [OF r])
  ultimately show ?thesis using assms h by (simp add: clock_init_def sane_def)
qed

lemma clock_tick_sane:
  assumes "sane c n"
  shows "sane (clock_tick c) (Suc n) \<and> ck_hz (clock_tick c) = ck_hz c \<and> ck_source (clock_tick c) = ck_source c
    \<and> ck_offset (clock_tick c) = ck_offset c \<and> ck_listeners (clock_tick c) = ck_listeners c"
proof -
  let ?h = "unat (ck_hz c)" and ?m = "n * 1000000000"
  have h: "0 < ?h" and f: "unat (ck_tick_ns c) = 1000000000 div ?h" "unat (ck_rem c) = 1000000000 mod ?h"
    "unat (ck_acc c) = ?m mod ?h" "ck_mono c = of_nat (?m div ?h)" "ck_ticks c = of_nat n"
    using assms by (simp_all add: sane_def)
  have lt: "?h < 4294967296" by (rule unat_32_bound)
  have bounds: "?m mod ?h < ?h" "1000000000 mod ?h < ?h" using h by simp_all
  have sum: "unat (ck_acc c + ck_rem c) = ?m mod ?h + 1000000000 mod ?h"
    unfolding f(2,3) [symmetric]
  proof (rule unat_add_no_wrap)
    have "?m mod ?h + 1000000000 mod ?h < 18446744073709551616" using bounds lt by linarith
    then show "unat (ck_acc c) + unat (ck_rem c) < 2 ^ LENGTH(64)" unfolding f by simp
  qed
  have t: "ck_tick_ns c = of_nat (1000000000 div ?h)" by (simp flip: f(1))
  have S: "Suc n * 1000000000 = ?m + 1000000000" by simp
  note step = div_step [OF h, of ?m 1000000000, folded S]
  show ?thesis
  proof (cases "?h \<le> ?m mod ?h + 1000000000 mod ?h")
    case True
    then have le: "ucast (ck_hz c) \<le> ck_acc c + ck_rem c" by (simp add: word_le_nat_alt sum)
    have nz: "ck_rem c \<noteq> 0" using True bounds f(2) by auto
    have "unat (ck_acc c + ck_rem c - ucast (ck_hz c)) = ?m mod ?h + 1000000000 mod ?h - ?h"
      using le by (simp add: unat_sub sum)
    then show ?thesis using True le nz f h step unfolding clock_tick_def sane_def by (simp add: Let_def t del: mult_Suc)
  next
    case False
    then have le: "\<not> ucast (ck_hz c) \<le> ck_acc c + ck_rem c" by (simp add: word_le_nat_alt sum)
    then show ?thesis using False f h step sum unfolding clock_tick_def sane_def
      by (cases "ck_rem c = 0") (simp_all add: Let_def t del: mult_Suc)
  qed
qed

lemma clock_ticks_sane:
  assumes "sane c n"
  shows "sane ((clock_tick ^^ m) c) (n + m) \<and> ck_hz ((clock_tick ^^ m) c) = ck_hz c
    \<and> ck_source ((clock_tick ^^ m) c) = ck_source c \<and> ck_offset ((clock_tick ^^ m) c) = ck_offset c"
proof (induction m)
  case (Suc m)
  then show ?case using clock_tick_sane [of "(clock_tick ^^ m) c" "n + m"] by simp
qed (use assms in simp)

text \<open>
  C38. The clock does not drift. For every timer frequency but 0 the set-up succeeds, and from then
  on the number of nanoseconds is, after any number of ticks, the exact quotient of ticks and
  frequency, although each tick adds a rounded amount; a wall-clock time set at some tick advances
  by exactly the nanoseconds that have passed since.
\<close>

theorem clock_no_drift:
  assumes "hz \<noteq> 0"
  shows "\<exists>c0. clock_init hz c = Some (c0, Inr ()) \<and>
    (\<forall>k m t read_ns. let c1 = clock_set_realtime_ns t ((clock_tick ^^ k) c0); c2 = (clock_tick ^^ m) c1 in
       clock_get_ticks c2 = of_nat (k + m)
       \<and> clock_get_monotonic_ns read_ns c2 = of_nat ((k + m) * 1000000000 div unat hz)
       \<and> clock_get_realtime_ns read_ns c2
          = t + (of_nat ((k + m) * 1000000000 div unat hz) - of_nat (k * 1000000000 div unat hz)))"
proof -
  obtain c0 where c0: "clock_init hz c = Some (c0, Inr ())" "sane c0 0" "ck_hz c0 = hz" "ck_source c0 = None"
    using clock_init_sane [OF assms, of c] by blast
  show ?thesis
  proof (intro exI [of _ c0] conjI allI)
    fix k m t and read_ns :: "nat \<Rightarrow> u64"
    let ?c = "(clock_tick ^^ k) c0"
    let ?c1 = "clock_set_realtime_ns t ?c"
    have k: "sane ?c k" "ck_hz ?c = hz" "ck_source ?c = None"
      using clock_ticks_sane [OF c0(2), of k] c0(3,4) by simp_all
    then have "sane ?c1 k" by (simp add: sane_def clock_set_realtime_ns_def)
    from clock_ticks_sane [OF this, of m] k
    show "let c1 = ?c1; c2 = (clock_tick ^^ m) c1 in clock_get_ticks c2 = of_nat (k + m)
       \<and> clock_get_monotonic_ns read_ns c2 = of_nat ((k + m) * 1000000000 div unat hz)
       \<and> clock_get_realtime_ns read_ns c2
          = t + (of_nat ((k + m) * 1000000000 div unat hz) - of_nat (k * 1000000000 div unat hz))"
      by (simp add: Let_def sane_def clock_get_ticks_def clock_get_monotonic_ns_def clock_get_realtime_ns_def
          clock_set_realtime_ns_def)
  qed (rule c0)
qed

theorem clock_no_drift_witness:
  "\<exists>c0. clock_init 3 clock_bss = Some (c0, Inr ())
    \<and> clock_get_monotonic_ns (\<lambda>_. 0) ((clock_tick ^^ 3) (clock_set_realtime_ns 0 c0)) = 1000000000"
proof -
  have "(3 :: u32) \<noteq> 0" by simp
  from clock_no_drift [OF this, of clock_bss] obtain c0 where c: "clock_init 3 clock_bss = Some (c0, Inr ())"
    and a: "\<forall>k m t read_ns. let c1 = clock_set_realtime_ns t ((clock_tick ^^ k) c0); c2 = (clock_tick ^^ m) c1 in
       clock_get_ticks c2 = of_nat (k + m)
       \<and> clock_get_monotonic_ns read_ns c2 = of_nat ((k + m) * 1000000000 div unat (3 :: u32))
       \<and> clock_get_realtime_ns read_ns c2
          = t + (of_nat ((k + m) * 1000000000 div unat (3 :: u32)) - of_nat (k * 1000000000 div unat (3 :: u32)))" by blast
  show ?thesis using c a [rule_format, of 0 0 3 "\<lambda>_. 0"] by (intro exI [of _ c0]) (simp add: Let_def)
qed

subsection \<open>Dates\<close>

text \<open>The leap years up to a year.\<close>

definition leaps :: "int \<Rightarrow> int" where
  "leaps y = y div 4 - y div 100 + y div 400"

text \<open>
  The number of days from 1970-01-01 in the proleptic Gregorian calendar, by the usual formula:
  the year begins in March, so that the leap day is its last.
\<close>

definition civil_days :: "int \<Rightarrow> int \<Rightarrow> int \<Rightarrow> int" where
  "civil_days y m d =
     (let y' = (if m \<le> 2 then y - 1 else y); mp = (m + 9) mod 12
      in 365 * y' + leaps y' + (153 * mp + 2) div 5 + d - 719469)"

lemma leaps_step: "leaps (int (Suc n)) = leaps (int n) + (if is_leap_year (Suc n) then 1 else 0)"
proof -
  have s: "int (Suc n) div int k = int n div int k + (if Suc n mod k = 0 then 1 else 0)" for k
    unfolding zdiv_int [symmetric] by (simp add: div_Suc)
  note d = s [of 4, unfolded of_nat_numeral] s [of 100, unfolded of_nat_numeral] s [of 400, unfolded of_nat_numeral]
  have "Suc n mod 100 = Suc n mod 400 mod 100" "Suc n mod 4 = Suc n mod 100 mod 4"
    by (rule mod_mod_cancel [symmetric], simp)+
  then have "Suc n mod 400 = 0 \<Longrightarrow> Suc n mod 100 = 0" "Suc n mod 100 = 0 \<Longrightarrow> Suc n mod 4 = 0" by simp_all
  then show ?thesis unfolding leaps_def d is_leap_year_def
    by (cases "Suc n mod 400 = 0"; cases "Suc n mod 100 = 0"; cases "Suc n mod 4 = 0") simp_all
qed

lemma year_loop:
  "1970 \<le> y \<Longrightarrow> fold add_year [1970..<y] 0
     = word_of_int (365 * (int y - 1970) + leaps (int y - 1) - 477)"
proof (induction y rule: dec_induct)
  case base
  show ?case by (simp add: leaps_def)
next
  case (step n)
  have "leaps (int (Suc n) - 1) = leaps (int n - 1) + (if is_leap_year n then 1 else 0)"
    using leaps_step [of "n - 1"] step(1) by simp
  then show ?case using step by (simp add: add_year_def algebra_simps)
qed

definition month_start :: "bool \<Rightarrow> nat \<Rightarrow> nat" where
  "month_start leap m = sum_list (take (m - 1) month_days) + (if leap \<and> 2 < m then 1 else 0)"

lemma month_loop:
  assumes "1 \<le> m" and "m \<le> 12"
  shows "fold (add_month leap) [1..<m] d = d + of_nat (month_start leap m)"
  using assms
proof (induction m rule: dec_induct)
  case base
  show ?case by (simp add: month_start_def)
next
  case (step n)
  obtain j where j: "n = Suc j" using step(1) by (cases n) auto
  have "j < length month_days" using step j by (simp add: month_days_def)
  then have "sum_list (take (Suc n - 1) month_days) = sum_list (take (n - 1) month_days) + month_days ! (n - 1)"
    unfolding j by (simp add: take_Suc_conv_app_nth)
  then have "month_start leap (Suc n) = month_start leap n + month_days ! (n - 1) + (if n = 2 \<and> leap then 1 else 0)"
    by (auto simp: month_start_def)
  then have "add_month leap n (d + of_nat (month_start leap n)) = d + of_nat (month_start leap (Suc n))"
    by (cases "n = 2 \<and> leap") (auto simp: add_month_def Let_def add.assoc)
  then show ?case using step by simp
qed

definition valid_date :: "rtc_time \<Rightarrow> bool" where
  "valid_date tm \<longleftrightarrow> 1970 \<le> unat (tm_year tm) \<and> 1 \<le> unat (tm_month tm) \<and> unat (tm_month tm) \<le> 12"

lemma month_table:
  assumes "1 \<le> m" and "m \<le> 12"
  shows "int (month_start leap m) = (153 * ((int m + 9) mod 12) + 2) div 5 + (if m \<le> 2 then - 306 else 59 + (if leap then 1 else 0))"
proof -
  have "list_all (\<lambda>m. \<forall>leap. int (month_start leap m)
      = (153 * ((int m + 9) mod 12) + 2) div 5 + (if m \<le> 2 then - 306 else 59 + (if leap then 1 else 0))) [1..<13]"
    by (simp add: upt_rec month_start_def month_days_def)
  moreover have "m \<in> set [1..<13]" using assms by auto
  ultimately show ?thesis unfolding list_all_iff by blast
qed

lemma civil_days_split:
  fixes y m :: nat
  assumes "1970 \<le> y" and "1 \<le> m" and "m \<le> 12"
  shows "civil_days (int y) (int m) d
    = 365 * (int y - 1970) + leaps (int y - 1) - 477 + int (month_start (is_leap_year y) m) + (d - 1)"
proof -
  have "leaps (int y) = leaps (int y - 1) + (if is_leap_year y then 1 else 0)"
    using leaps_step [of "y - 1"] assms(1) by simp
  moreover define F where "F = (153 * ((int m + 9) mod 12) + 2) div 5"
  ultimately show ?thesis
    unfolding month_table [OF assms(2,3), folded F_def] civil_days_def Let_def F_def [symmetric] by simp
qed

lemma rtc_days_civil:
  assumes "valid_date tm"
  shows "rtc_days_since_epoch tm = Some (word_of_int (civil_days (int (unat (tm_year tm))) (int (unat (tm_month tm))) (uint (tm_day tm))))"
proof -
  have v: "1970 \<le> unat (tm_year tm)" "1 \<le> unat (tm_month tm)" "unat (tm_month tm) \<le> 12"
    using assms by (simp_all add: valid_date_def)
  have d: "(ucast (tm_day tm) :: u64) - 1 = word_of_int (uint (tm_day tm) - 1)" by simp
  show ?thesis
    using v(3) unfolding rtc_days_since_epoch_def Let_def year_loop [OF v(1)] month_loop [OF v(2,3)] civil_days_split [OF v] d
    by simp
qed

text \<open>Every year up to 2553 stays below the 64-bit limit of the nanoseconds.\<close>

lemma day_sum_bounds:
  fixes y l m d :: int
  assumes "477 \<le> l" and "l \<le> 619" and "m \<le> 335" and "0 \<le> m" and "1970 \<le> y" and "y \<le> 2553" and "1 \<le> d" and "d \<le> 31"
  shows "0 \<le> 365 * (y - 1970) + l - 477 + m + (d - 1) \<and> 365 * (y - 1970) + l - 477 + m + (d - 1) \<le> 213400"
proof
  show "0 \<le> 365 * (y - 1970) + l - 477 + m + (d - 1)" using assms by simp
  show "365 * (y - 1970) + l - 477 + m + (d - 1) \<le> 213400" using assms by simp
qed

lemma seconds_bounds:
  fixes D h m s :: int
  assumes "0 \<le> D" and "D \<le> 213400" and "0 \<le> h" and "h < 24" and "0 \<le> m" and "m < 60" and "0 \<le> s" and "s < 60"
  shows "0 \<le> (((D * 24 + h) * 60 + m) * 60 + s) * 1000000000 \<and> (((D * 24 + h) * 60 + m) * 60 + s) * 1000000000 < 18446744073709551616"
proof -
  have "(((D * 24 + h) * 60 + m) * 60 + s) = D * 86400 + h * 3600 + m * 60 + s" by simp
  moreover have "0 \<le> D * 86400 + h * 3600 + m * 60 + s" "D * 86400 + h * 3600 + m * 60 + s \<le> 18437846399" using assms by linarith+
  ultimately show ?thesis by simp
qed

lemma civil_days_bounds:
  fixes y m :: nat
  assumes "1970 \<le> y" and "y \<le> 2553" and "1 \<le> m" and "m \<le> 12" and "1 \<le> d" and "d \<le> 31"
  shows "0 \<le> civil_days (int y) (int m) d" and "civil_days (int y) (int m) d \<le> 213400"
proof -
  have mono: "leaps (int a) \<le> leaps (int b)" if "a \<le> b" for a b
    using that by (rule lift_Suc_mono_le [of "\<lambda>n. leaps (int n)", rotated]) (simp only: leaps_step split: if_split, simp)
  have y: "int (y - 1) = int y - 1" using assms(1) by simp
  have "leaps (int 1969) \<le> leaps (int (y - 1))" "leaps (int (y - 1)) \<le> leaps (int 2552)"
    using assms(1,2) by (intro mono, linarith)+
  then have "477 \<le> leaps (int y - 1)" "leaps (int y - 1) \<le> 619" unfolding y by (simp_all add: leaps_def)
  moreover have "list_all (\<lambda>m. \<forall>leap. month_start leap m \<le> 335) [1..<13]"
    by (simp add: upt_rec month_start_def month_days_def)
  then have "month_start (is_leap_year y) m \<le> 335" using assms(3,4) unfolding list_all_iff by auto
  then have "int (month_start (is_leap_year y) m) \<le> 335" "0 \<le> int (month_start (is_leap_year y) m)" by simp_all
  moreover have "1970 \<le> int y" "int y \<le> 2553" using assms(1,2) by simp_all
  ultimately show "0 \<le> civil_days (int y) (int m) d" and "civil_days (int y) (int m) d \<le> 213400"
    unfolding civil_days_split [OF assms(1,3,4)] using assms(5,6) day_sum_bounds by blast+
qed

text \<open>
  C39. The conversion of the date of the real-time clock is right: from 1970 to 2553 the routine
  returns exactly the nanoseconds between the epoch and the given date and time of the Gregorian
  calendar, without wrapping.
\<close>

theorem rtc_time_to_unix_ns_correct:
  assumes "1970 \<le> unat (tm_year tm)" and "unat (tm_year tm) \<le> 2553" and "1 \<le> unat (tm_month tm)" and "unat (tm_month tm) \<le> 12"
    and "1 \<le> uint (tm_day tm)" and "uint (tm_day tm) \<le> 31"
    and "uint (tm_hour tm) < 24" and "uint (tm_minute tm) < 60" and "uint (tm_second tm) < 60"
  shows "\<exists>ns. rtc_time_to_unix_ns tm = Some ns \<and> uint ns
    = (((civil_days (int (unat (tm_year tm))) (int (unat (tm_month tm))) (uint (tm_day tm)) * 24 + uint (tm_hour tm)) * 60
        + uint (tm_minute tm)) * 60 + uint (tm_second tm)) * 1000000000"
proof -
  define D where "D = civil_days (int (unat (tm_year tm))) (int (unat (tm_month tm))) (uint (tm_day tm))"
  define x where "x = (((D * 24 + uint (tm_hour tm)) * 60 + uint (tm_minute tm)) * 60 + uint (tm_second tm)) * 1000000000"
  have D: "0 \<le> D" "D \<le> 213400" unfolding D_def by (rule civil_days_bounds [OF assms(1-6)])+
  have ge: "0 \<le> uint (tm_hour tm)" "0 \<le> uint (tm_minute tm)" "0 \<le> uint (tm_second tm)" by simp_all
  have x: "0 \<le> x" "x < 18446744073709551616" unfolding x_def using seconds_bounds [OF D] ge assms(7-9) by blast+
  have "rtc_days_since_epoch tm = Some (word_of_int D)"
    unfolding D_def by (rule rtc_days_civil) (use assms in \<open>simp add: valid_date_def\<close>)
  then have "rtc_time_to_unix_ns tm = Some (word_of_int x)"
    unfolding rtc_time_to_unix_ns_def NSEC_PER_SEC_def x_def by (simp add: algebra_simps)
  moreover have "uint (word_of_int x :: u64) = x" using x by (simp add: uint_word_of_int take_bit_int_eq_self)
  ultimately show ?thesis unfolding x_def D_def by blast
qed

theorem rtc_time_to_unix_ns_correct_witness:
  "rtc_time_to_unix_ns \<lparr>tm_year = 2000, tm_month = 2, tm_day = 29, tm_hour = 12, tm_minute = 34, tm_second = 56\<rparr>
     = Some 951827696000000000"
proof -
  let ?tm = "\<lparr>tm_year = 2000, tm_month = 2, tm_day = 29, tm_hour = 12, tm_minute = 34, tm_second = 56\<rparr>"
  obtain ns where "rtc_time_to_unix_ns ?tm = Some ns" "uint ns = 951827696000000000"
    using rtc_time_to_unix_ns_correct [of ?tm] by (auto simp: civil_days_def leaps_def Let_def)
  then show ?thesis by (simp add: word_uint_eq_iff)
qed

subsection \<open>Reading the chip\<close>

text \<open>A chip that shows a time, with binary or BCD numbers and with 24 or 12 hours.\<close>

definition rtc_number :: "bool \<Rightarrow> nat \<Rightarrow> u8" where
  "rtc_number bcd v = of_nat (if bcd then 16 * (v div 10) + v mod 10 else v)"

definition rtc_hours :: "bool \<Rightarrow> bool \<Rightarrow> nat \<Rightarrow> u8" where
  "rtc_hours bcd h24 h =
     (if h24 then rtc_number bcd h
      else rtc_number bcd (if h mod 12 = 0 then 12 else h mod 12) OR (if 12 \<le> h then 0x80 else 0))"

definition rtc_chip :: "bool \<Rightarrow> bool \<Rightarrow> rtc_time \<Rightarrow> u8 \<Rightarrow> u8" where
  "rtc_chip bcd h24 tm reg =
     (if reg = 0x0B then (if bcd then 0 else 4) OR (if h24 then 2 else 0)
      else if reg = 0x00 then rtc_number bcd (unat (tm_second tm))
      else if reg = 0x02 then rtc_number bcd (unat (tm_minute tm))
      else if reg = 0x04 then rtc_hours bcd h24 (unat (tm_hour tm))
      else if reg = 0x07 then rtc_number bcd (unat (tm_day tm))
      else if reg = 0x08 then rtc_number bcd (unat (tm_month tm))
      else if reg = 0x09 then rtc_number bcd (unat (tm_year tm) mod 100)
      else if reg = 0x32 then rtc_number bcd (unat (tm_year tm) div 100)
      else 0)"

lemma bcd_roundtrip: "v < 100 \<Longrightarrow> bcd_to_bin (rtc_number True v) = of_nat v"
proof -
  assume v: "v < 100"
  have "list_all (\<lambda>v. bcd_to_bin (rtc_number True v) = of_nat v) [0..<100]"
    by (simp add: upt_rec bcd_to_bin_def rtc_number_def)
  then show ?thesis using v unfolding list_all_iff by simp
qed

definition rtc_hour_value :: "bool \<Rightarrow> bool \<Rightarrow> u8 \<Rightarrow> u8" where
  "rtc_hour_value bcd h24 reg =
     (let pm = reg AND 0x80; hour = (if bcd then bcd_to_bin (reg AND 0x7F) else reg) in
      if h24 then hour else if pm \<noteq> 0 \<and> hour < 12 then hour + 12 else if pm = 0 \<and> hour = 12 then 0 else hour)"

lemma rtc_hour_exact:
  assumes "h < 24"
  shows "rtc_hour_value bcd h24 (rtc_hours bcd h24 h) = of_nat h \<longleftrightarrow> bcd \<or> h24 \<or> h < 12"
proof -
  have "list_all (\<lambda>h. \<forall>bcd h24. rtc_hour_value bcd h24 (rtc_hours bcd h24 h) = of_nat h \<longleftrightarrow> bcd \<or> h24 \<or> h < 12) [0..<24]"
    by (simp add: upt_rec rtc_hour_value_def rtc_hours_def rtc_number_def bcd_to_bin_def all_bool_eq)
  then show ?thesis using assms unfolding list_all_iff by simp
qed

lemma rtc_wait_ends:
  assumes "n \<le> k" and "\<And>i. n \<le> i \<Longrightarrow> i < k \<Longrightarrow> cmos i 0x0A AND 0x80 \<noteq> 0" and "cmos k 0x0A AND 0x80 = 0"
  shows "rtc_wait cmos n = Some (Suc k)"
  using assms
proof (induction "k - n" arbitrary: n)
  case 0
  then show ?case by (subst rtc_wait.simps) simp
next
  case (Suc d)
  then have "rtc_wait cmos (Suc n) = Some (Suc k)" by (intro Suc.hyps) auto
  moreover have "cmos n 0x0A AND 0x80 \<noteq> 0" using Suc.hyps(2) Suc.prems(2) by simp
  ultimately show ?case by (subst rtc_wait.simps) simp
qed

lemma rtc_sample_stable:
  assumes "\<And>i. i < k \<Longrightarrow> cmos i 0x0A AND 0x80 \<noteq> 0" and "\<And>i. k \<le> i \<Longrightarrow> cmos i = chip" and "chip 0x0A AND 0x80 = 0"
  shows "rtc_sample cmos 0 = Some (rtc_decode (chip 0x0B) (chip 0x00) (chip 0x02) (chip 0x04) (chip 0x07) (chip 0x08) (chip 0x09) (chip 0x32))"
proof -
  have "rtc_wait cmos 0 = Some (Suc k)" using assms by (intro rtc_wait_ends) auto
  then show ?thesis by (subst rtc_sample.simps) (simp add: assms(2) Let_def)
qed

definition shown_time :: "rtc_time \<Rightarrow> bool" where
  "shown_time tm \<longleftrightarrow> 100 \<le> unat (tm_year tm) \<and> unat (tm_year tm) < 10000 \<and> unat (tm_month tm) < 100 \<and> unat (tm_day tm) < 100
     \<and> unat (tm_hour tm) < 24 \<and> unat (tm_minute tm) < 100 \<and> unat (tm_second tm) < 100"

lemma rtc_number_value:
  "v < 100 \<Longrightarrow> (if bcd then bcd_to_bin (rtc_number bcd v) else rtc_number bcd v) = of_nat v"
  using bcd_roundtrip by (cases bcd) (simp_all add: rtc_number_def)

lemma rtc_decode_chip:
  fixes bcd h24 :: bool
  assumes "shown_time tm"
  defines "chip \<equiv> rtc_chip bcd h24 tm"
  shows "rtc_decode (chip 0x0B) (chip 0x00) (chip 0x02) (chip 0x04) (chip 0x07) (chip 0x08) (chip 0x09) (chip 0x32)
    = tm\<lparr>tm_hour := rtc_hour_value bcd h24 (rtc_hours bcd h24 (unat (tm_hour tm)))\<rparr>"
proof -
  have v: "100 \<le> unat (tm_year tm)" "unat (tm_year tm) < 10000" "unat (tm_month tm) < 100" "unat (tm_day tm) < 100"
    "unat (tm_minute tm) < 100" "unat (tm_second tm) < 100" using assms(1) by (simp_all add: shown_time_def)
  let ?c = "unat (tm_year tm) div 100" and ?y = "unat (tm_year tm) mod 100"
  have c: "?c < 100" "1 \<le> ?c" "?y < 100" using v(1,2) by (simp_all add: less_mult_imp_div_less Suc_leI div_greater_zero_iff)
  have uc: "unat (of_nat ?c :: u8) = ?c" using c(1) by (subst unat_of_nat) simp
  have uy: "unat (of_nat ?y :: u8) = ?y" using c(3) by (subst unat_of_nat) simp
  have nz: "(of_nat ?c :: u8) \<noteq> 0" "(of_nat ?c :: u8) \<noteq> 0xFF" using uc c(1,2) by auto
  have cast: "(ucast w :: u16) = of_nat (unat w)" for w :: u8 by simp
  have "ucast (of_nat ?c :: u8) * 100 + ucast (of_nat ?y :: u8) = (of_nat (?c * 100 + ?y) :: u16)"
    by (simp only: cast uc uy of_nat_add of_nat_mult of_nat_numeral)
  then have yr: "ucast (of_nat ?c :: u8) * 100 + ucast (of_nat ?y :: u8) = tm_year tm"
    by (simp only: div_mult_mod_eq) simp
  have sb: "chip 0x0B AND 0x04 = 0 \<longleftrightarrow> bcd" "chip 0x0B AND 0x02 = 0 \<longleftrightarrow> \<not> h24"
    by (cases bcd; cases h24; simp add: chip_def rtc_chip_def)+
  have reg: "chip 0x00 = rtc_number bcd (unat (tm_second tm))" "chip 0x02 = rtc_number bcd (unat (tm_minute tm))"
    "chip 0x04 = rtc_hours bcd h24 (unat (tm_hour tm))" "chip 0x07 = rtc_number bcd (unat (tm_day tm))"
    "chip 0x08 = rtc_number bcd (unat (tm_month tm))" "chip 0x09 = rtc_number bcd ?y" "chip 0x32 = rtc_number bcd ?c"
    by (simp_all add: chip_def rtc_chip_def)
  have hour: "(if \<not> h24 then (if r AND 0x80 \<noteq> 0 \<and> h < 12 then h + 12 else if r AND 0x80 = 0 \<and> h = 12 then 0 else h) else h)
      = rtc_hour_value bcd h24 r" if "h = (if bcd then bcd_to_bin (r AND 0x7F) else r)" for r h
    unfolding rtc_hour_value_def Let_def that by (cases h24) (simp_all only: if_True if_False not_True_eq_False not_False_eq_True)
  have same: "(of_nat (unat w) :: u8) = w" for w :: u8 by simp
  show ?thesis
    unfolding rtc_decode_def Let_def sb reg rtc_number_value [OF c(1)] rtc_number_value [OF c(3)] rtc_number_value [OF v(3)]
      rtc_number_value [OF v(4)] rtc_number_value [OF v(5)] rtc_number_value [OF v(6)] hour [OF refl] same
    by (simp only: nz simp_thms if_False yr) (cases tm, simp)
qed

text \<open>
  C40. Reading the real-time clock. However long an update of the chip is in progress, the routine
  returns once it is over, and the time it returns is the one the chip shows, except in exactly
  one mode: with binary numbers and 12 hours the mark of the afternoon stays in the hour.
\<close>

theorem rtc_read_exact:
  assumes "shown_time tm" and "\<forall>i<k. cmos i 0x0A AND 0x80 \<noteq> 0" and "\<forall>i\<ge>k. cmos i = rtc_chip bcd h24 tm"
  shows "\<exists>t. rtc_read cmos True = Some (Inr t) \<and> (t = tm \<longleftrightarrow> bcd \<or> h24 \<or> unat (tm_hour tm) < 12)"
proof -
  let ?h = "rtc_hour_value bcd h24 (rtc_hours bcd h24 (unat (tm_hour tm)))"
  have "rtc_chip bcd h24 tm 0x0A AND 0x80 = 0" by (simp add: rtc_chip_def)
  then have "rtc_read cmos True = Some (Inr (tm\<lparr>tm_hour := ?h\<rparr>))"
    using rtc_sample_stable [of k cmos "rtc_chip bcd h24 tm"] assms(2,3) rtc_decode_chip [OF assms(1), of bcd h24]
    by (simp add: rtc_read_def)
  moreover have "tm\<lparr>tm_hour := ?h\<rparr> = tm \<longleftrightarrow> ?h = tm_hour tm" by (cases tm) simp
  moreover have "?h = tm_hour tm \<longleftrightarrow> bcd \<or> h24 \<or> unat (tm_hour tm) < 12"
    using rtc_hour_exact [of "unat (tm_hour tm)" bcd h24] assms(1) by (simp add: shown_time_def)
  ultimately show ?thesis by blast
qed

text \<open>At 15:00 a chip in that mode is read as another time.\<close>

theorem rtc_read_exact_witness:
  "\<exists>t. rtc_read (\<lambda>i. if i < 2 then \<lambda>_. 0x80
        else rtc_chip False False \<lparr>tm_year = 2024, tm_month = 5, tm_day = 6, tm_hour = 15, tm_minute = 0, tm_second = 0\<rparr>) True
      = Some (Inr t) \<and> t \<noteq> \<lparr>tm_year = 2024, tm_month = 5, tm_day = 6, tm_hour = 15, tm_minute = 0, tm_second = 0\<rparr>"
proof -
  let ?tm = "\<lparr>tm_year = 2024, tm_month = 5, tm_day = 6, tm_hour = 15, tm_minute = 0, tm_second = 0\<rparr>"
  let ?cmos = "\<lambda>i :: nat. if i < 2 then \<lambda>_. 0x80 else rtc_chip False False ?tm"
  have "shown_time ?tm" by (simp add: shown_time_def)
  moreover have "\<forall>i<2. ?cmos i 0x0A AND 0x80 \<noteq> 0" and "\<forall>i\<ge>2. ?cmos i = rtc_chip False False ?tm" by simp_all
  ultimately obtain t where "rtc_read ?cmos True = Some (Inr t)"
    "t = ?tm \<longleftrightarrow> False \<or> False \<or> unat (tm_hour ?tm) < 12" using rtc_read_exact [of ?tm 2 ?cmos False False] by blast
  then show ?thesis by (intro exI [of _ t] conjI) simp_all
qed

end
