(* ===== verification/Wey_E820.thy ===== *)
theory Wey_E820
  imports Wey_Sort
begin

text \<open>
  The memory map of the firmware, \<open>arch/i386/kernel/e820.c\<close>: the table is sorted, overlaps are
  resolved and neighbours joined in place. The array is the list of the entries the firmware
  reported; a store behind its end is \<open>None\<close>.
\<close>

record e820_entry =
  e_base :: u64
  e_length :: u64
  e_type :: u32

definition E820_TYPE_RAM :: u32 where "E820_TYPE_RAM = 1"
definition E820_TYPE_ACPI :: u32 where "E820_TYPE_ACPI = 3"
definition E820_TYPE_SOFT_RESERVED :: u32 where "E820_TYPE_SOFT_RESERVED = 0xefffffff"

definition e_end :: "e820_entry \<Rightarrow> u64" where
  "e_end e = e_base e + e_length e"

subsection \<open>Sorting\<close>

fun e820_sort_shift :: "nat \<Rightarrow> e820_entry \<Rightarrow> e820_entry list \<Rightarrow> e820_entry list" where
  "e820_sort_shift 0 key es = es[0 := key]"
| "e820_sort_shift (Suc j) key es =
     (if e_base (es ! j) > e_base key then e820_sort_shift j key (es[Suc j := es ! j]) else es[Suc j := key])"

lemma length_e820_sort_shift [simp]: "length (e820_sort_shift j key es) = length es"
  by (induction j key es rule: e820_sort_shift.induct) auto

function e820_sort_from :: "nat \<Rightarrow> e820_entry list \<Rightarrow> e820_entry list" where
  "e820_sort_from i es = (if i < length es then e820_sort_from (Suc i) (e820_sort_shift i (es ! i) es) else es)"
  by pat_completeness auto
termination
  by (relation "measure (\<lambda>(i, es). length es - i)") auto

declare e820_sort_from.simps [simp del]

definition e820_sort :: "e820_entry list \<Rightarrow> e820_entry list" where
  "e820_sort es = e820_sort_from 1 es"

subsection \<open>Merging\<close>

text \<open>
  One turn of the loop that resolves conflicts. Its variable \<open>new_count\<close> is set to 0 before the
  outer loop only.
\<close>

definition e820_resolve_step :: "nat \<Rightarrow> nat \<Rightarrow> e820_entry list \<times> nat \<Rightarrow> (e820_entry list \<times> nat) option" where
  "e820_resolve_step cnt i s =
     (let (es, new_count) = s; current = es ! i; nxt = es ! Suc i; overlap = (Suc i < cnt \<and> e_end current > e_base nxt)
      in if overlap \<and> e_type current = e_type nxt then
           (let stop = (if e_end current > e_end nxt then e_end current else e_end nxt)
            in Some (es[Suc i := nxt\<lparr>e_base := e_base current, e_length := stop - e_base current\<rparr>], new_count))
         else
           (let current = (if overlap then current\<lparr>e_length := e_base nxt - e_base current\<rparr> else current)
            in if e_length current > 0 then
                 (if new_count < length es then Some (es[new_count := current], Suc new_count) else None)
               else Some (es, new_count)))"

definition e820_resolve :: "nat \<Rightarrow> nat \<Rightarrow> e820_entry list \<Rightarrow> (e820_entry list \<times> nat) option" where
  "e820_resolve cnt new_count es =
     fold (\<lambda>i s. Option.bind s (e820_resolve_step cnt i)) [0..<cnt] (Some (es, new_count))"

text \<open>The loop that joins neighbours; it writes at or before the entry it reads.\<close>

function e820_join :: "nat \<Rightarrow> nat \<Rightarrow> nat \<Rightarrow> e820_entry list \<Rightarrow> e820_entry list \<times> nat" where
  "e820_join cnt i new_count es =
     (if i < cnt then
        (let current = es ! i; nxt = es ! Suc i
         in if Suc i < cnt \<and> e_end current = e_base nxt \<and> e_type current = e_type nxt
            then e820_join cnt (Suc (Suc i)) (Suc new_count) (es[new_count := current\<lparr>e_length := e_length current + e_length nxt\<rparr>])
            else if Suc i < cnt \<and> e_end current + 1 = e_base nxt \<and> e_type current = e_type nxt
            then e820_join cnt (Suc (Suc i)) (Suc new_count) (es[new_count := current\<lparr>e_length := e_length current + (e_length nxt + 1)\<rparr>])
            else e820_join cnt (Suc i) (Suc new_count) (es[new_count := current]))
      else (es, new_count))"
  by pat_completeness auto
termination
  by (relation "measure (\<lambda>(cnt, i, new_count, es). cnt - i)") auto

declare e820_join.simps [simp del]

definition e820_joinable :: "e820_entry \<Rightarrow> e820_entry \<Rightarrow> bool" where
  "e820_joinable a b \<longleftrightarrow> (e_end a = e_base b \<or> e_end a + 1 = e_base b) \<and> e_type a = e_type b"

text \<open>With an empty table the bound \<open>*count - 1\<close> of the last loop wraps, and it reads beyond the table.\<close>

partial_function (option) e820_merge_loop :: "nat \<Rightarrow> nat \<Rightarrow> e820_entry list \<Rightarrow> (e820_entry list \<times> nat) option" where
  "e820_merge_loop cnt new_count es =
     (case e820_resolve cnt new_count es of
        None \<Rightarrow> None
      | Some (es1, cnt1) \<Rightarrow>
          (let (es2, cnt2) = e820_join cnt1 0 0 es1
           in if cnt2 = 0 then None
              else if list_ex (\<lambda>i. e820_joinable (es2 ! i) (es2 ! Suc i)) [0..<cnt2 - 1]
              then e820_merge_loop cnt2 cnt2 es2
              else Some (es2, cnt2)))"

definition e820_merge :: "e820_entry list \<Rightarrow> (e820_entry list \<times> nat) option" where
  "e820_merge es = e820_merge_loop (length es) 0 es"

text \<open>The array and the number of entries in use after \<open>e820_init\<close>.\<close>

definition e820_sanitize :: "e820_entry list \<Rightarrow> (e820_entry list \<times> nat) option" where
  "e820_sanitize es = e820_merge (e820_sort es)"

definition e820_init :: "e820_entry list \<Rightarrow> (e820_entry list \<times> nat) option" where
  "e820_init entries = e820_sanitize entries"

subsection \<open>The last page frame\<close>

definition MAX_ARCH_PFN :: u32 where "MAX_ARCH_PFN = push_bit 20 1"

fun e820_last_pfn :: "u32 \<Rightarrow> u32 \<Rightarrow> e820_entry list \<Rightarrow> u32" where
  "e820_last_pfn limit last_pfn [] = last_pfn"
| "e820_last_pfn limit last_pfn (e # es) =
     (if e_type e \<noteq> E820_TYPE_RAM \<and> e_type e \<noteq> E820_TYPE_ACPI then e820_last_pfn limit last_pfn es
      else let start_pfn = (ucast (drop_bit 12 (e_base e)) :: u32); end_pfn = (ucast (drop_bit 12 (e_base e + e_length e)) :: u32)
           in if start_pfn \<ge> limit then e820_last_pfn limit last_pfn es
              else if end_pfn > limit then limit
              else e820_last_pfn limit (if end_pfn > last_pfn then end_pfn else last_pfn) es)"

definition e820_end_ram_pfn :: "u32 \<Rightarrow> e820_entry list \<Rightarrow> u32" where
  "e820_end_ram_pfn limit es =
     (let last_pfn = e820_last_pfn limit 0 es in if last_pfn > MAX_ARCH_PFN then MAX_ARCH_PFN else last_pfn)"

subsection \<open>A table without overlaps\<close>

interpretation e8s: insertion_sort e_base e820_sort_shift e820_sort_from
  by unfold_locales (simp, simp, rule e820_sort_from.simps)

definition elo :: "e820_entry \<Rightarrow> nat" where "elo e = unat (e_base e)"
definition ehi :: "e820_entry \<Rightarrow> nat" where "ehi e = unat (e_base e) + unat (e_length e)"

text \<open>The bytes of a type.\<close>

definition ecover :: "u32 \<Rightarrow> e820_entry list \<Rightarrow> nat set" where
  "ecover ty es = (\<Union>e\<in>{e \<in> set es. e_type e = ty}. {elo e..<ehi e})"

text \<open>Entries in order, not empty, not beyond the address space, without overlap and one-byte gaps.\<close>

definition e820_ok :: "e820_entry list \<Rightarrow> bool" where
  "e820_ok es \<longleftrightarrow> (\<forall>e\<in>set es. elo e < ehi e \<and> ehi e < 2 ^ 64 - 1)
     \<and> sorted_wrt (\<lambda>a b. ehi a \<le> elo b \<and> Suc (ehi a) \<noteq> elo b) es"

lemma unat_e_end: "ehi e < 2 ^ 64 - 1 \<Longrightarrow> unat (e_end e) = ehi e"
  unfolding e_end_def ehi_def by (rule unat_add_no_wrap) simp

lemma e820_resolve_clean:
  assumes "e820_ok es"
  shows "e820_resolve (length es) 0 es = Some (es, length es)"
proof -
  have "fold (\<lambda>i s. Option.bind s (e820_resolve_step (length es) i)) [0..<k] (Some (es, 0)) = Some (es, k)"
    if "k \<le> length es" for k
    using that
  proof (induction k)
    case (Suc k)
    have len: "e_length (es ! k) > 0"
      using assms Suc.prems by (auto simp: e820_ok_def elo_def ehi_def word_gt_0_no word_less_nat_alt)
    have "(Suc k < length es \<and> e_end (es ! k) > e_base (es ! Suc k)) = False"
    proof (rule iffI)
      assume a: "Suc k < length es \<and> e_end (es ! k) > e_base (es ! Suc k)"
      then have "ehi (es ! k) \<le> elo (es ! Suc k)" "ehi (es ! k) < 2 ^ 64 - 1"
        using assms by (auto simp: e820_ok_def sorted_wrt_iff_nth_less)
      then show False using a by (simp add: word_less_nat_alt unat_e_end elo_def)
    qed simp
    then have "e820_resolve_step (length es) k (es, k) = Some (es, Suc k)"
      using len Suc.prems unfolding e820_resolve_step_def Let_def prod.case by (simp only:) simp
    then show ?case using Suc by simp
  qed simp
  then show ?thesis unfolding e820_resolve_def by simp
qed

text \<open>What the joining loop computes, on lists.\<close>

definition e820_glue :: "e820_entry \<Rightarrow> e820_entry \<Rightarrow> e820_entry" where
  "e820_glue a b = a\<lparr>e_length := (if e_end a = e_base b then e_length a + e_length b else e_length a + (e_length b + 1))\<rparr>"

fun joins :: "e820_entry list \<Rightarrow> e820_entry list" where
  "joins (a # b # es) = (if e820_joinable a b then e820_glue a b # joins es else a # joins (b # es))"
| "joins es = es"

lemma take_update_last: "n < length xs \<Longrightarrow> take (Suc n) (xs[n := x]) = take n xs @ [x]"
  by (simp add: take_Suc_conv_app_nth)

lemma e820_join_list:
  assumes "nc \<le> i" and "cnt \<le> length es" and "nc \<le> length es"
  shows "(let (es', n) = e820_join cnt i nc es in take n es' = take nc es @ joins (drop i (take cnt es)) \<and> n \<le> length es' \<and> length es' = length es)"
  using assms
proof (induction cnt i nc es rule: e820_join.induct)
  case (1 cnt i nc es)
  let ?a = "es ! i" and ?b = "es ! Suc i"
  have keep: "drop k (take cnt (es[nc := x])) = drop k (take cnt es)" if "nc < k" for k x
    using that by (simp add: take_update_swap drop_update_cancel)
  show ?case
  proof (cases "i < cnt")
    case False
    then show ?thesis using "1.prems" by (subst e820_join.simps) (simp add: Let_def)
  next
    case True
    then have d: "drop i (take cnt es) = ?a # drop (Suc i) (take cnt es)"
      using Cons_nth_drop_Suc [of i "take cnt es"] "1.prems" by simp
    have nc: "nc < length es" using True "1.prems" by linarith
    show ?thesis
    proof (cases "Suc i < cnt \<and> e820_joinable ?a ?b")
      case J: True
      then have d2: "drop (Suc i) (take cnt es) = ?b # drop (Suc (Suc i)) (take cnt es)"
        using Cons_nth_drop_Suc [of "Suc i" "take cnt es"] "1.prems" by simp
      have e: "e820_join cnt i nc es = e820_join cnt (Suc (Suc i)) (Suc nc) (es[nc := e820_glue ?a ?b])"
        using True J by (subst e820_join.simps) (auto simp: Let_def e820_joinable_def e820_glue_def)
      have "let (es', n) = e820_join cnt (Suc (Suc i)) (Suc nc) (es[nc := e820_glue ?a ?b])
          in take n es' = take (Suc nc) (es[nc := e820_glue ?a ?b]) @ joins (drop (Suc (Suc i)) (take cnt (es[nc := e820_glue ?a ?b])))
            \<and> n \<le> length es' \<and> length es' = length (es[nc := e820_glue ?a ?b])"
      proof (cases "e_end ?a = e_base ?b")
        case E: True
        then show ?thesis using "1.IH"(1) [OF True refl refl] J "1.prems" nc by (simp add: e820_joinable_def e820_glue_def)
      next
        case E: False
        then show ?thesis using "1.IH"(2) [OF True refl refl] J "1.prems" nc by (simp add: e820_joinable_def e820_glue_def)
      qed
      then show ?thesis
        unfolding e d d2 take_update_last [OF nc] using J "1.prems"(1) by (simp add: keep d2 split: prod.splits)
    next
      case J: False
      have e: "e820_join cnt i nc es = e820_join cnt (Suc i) (Suc nc) (es[nc := ?a])"
        using True J by (subst e820_join.simps) (auto simp: Let_def e820_joinable_def)
      have "let (es', n) = e820_join cnt (Suc i) (Suc nc) (es[nc := ?a])
          in take n es' = take (Suc nc) (es[nc := ?a]) @ joins (drop (Suc i) (take cnt (es[nc := ?a])))
            \<and> n \<le> length es' \<and> length es' = length (es[nc := ?a])"
      proof (rule "1.IH"(3) [OF True refl refl])
        show "\<not> (Suc i < cnt \<and> e_end ?a = e_base ?b \<and> e_type ?a = e_type ?b)" using J by (auto simp: e820_joinable_def)
        show "\<not> (Suc i < cnt \<and> e_end ?a + 1 = e_base ?b \<and> e_type ?a = e_type ?b)" using J by (auto simp: e820_joinable_def)
      qed (use "1.prems" nc in simp_all)
      moreover have "joins (?a # drop (Suc i) (take cnt es)) = ?a # joins (drop (Suc i) (take cnt es))"
      proof (cases "Suc i < cnt")
        case S: True
        then have "drop (Suc i) (take cnt es) = ?b # drop (Suc (Suc i)) (take cnt es)"
          using Cons_nth_drop_Suc [of "Suc i" "take cnt es"] "1.prems" by simp
        then show ?thesis using J S by simp
      qed simp
      ultimately show ?thesis
        unfolding e d take_update_last [OF nc] using "1.prems"(1) by (simp add: keep split: prod.splits)
    qed
  qed
qed

lemma joins_ok:
  assumes "e820_ok es"
  shows "ecover ty (joins es) = ecover ty es \<and> (es \<noteq> [] \<longrightarrow> joins es \<noteq> [])"
  using assms
proof (induction es rule: joins.induct)
  case (1 a b es)
  have a: "ehi a < 2 ^ 64 - 1" "ehi a \<le> elo b" "Suc (ehi a) \<noteq> elo b" "elo b < ehi b" "ehi b < 2 ^ 64 - 1" "elo a < ehi a"
    using "1.prems" by (auto simp: e820_ok_def)
  have ok: "e820_ok es" "e820_ok (b # es)" using "1.prems" by (auto simp: e820_ok_def)
  have split: "ecover ty (x # xs) = (if e_type x = ty then {elo x..<ehi x} else {}) \<union> ecover ty xs" for x xs
    by (auto simp: ecover_def)
  show ?case
  proof (cases "e820_joinable a b")
    case True
    have "unat (e_end a + 1) = Suc (ehi a)"
      using a(1) by (subst unat_add_no_wrap) (simp_all add: unat_e_end)
    then have "e_end a + 1 \<noteq> e_base b" using a(3) by (auto simp: elo_def)
    then have e: "e_end a = e_base b" "e_type a = e_type b" using True by (auto simp: e820_joinable_def)
    then have "ehi a = elo b" using unat_e_end [OF a(1)] by (simp add: elo_def)
    moreover have "unat (e_length a + e_length b) = unat (e_length a) + unat (e_length b)"
      using a(5) \<open>ehi a = elo b\<close> by (intro unat_add_no_wrap) (simp add: ehi_def elo_def)
    ultimately have "elo (e820_glue a b) = elo a" "ehi (e820_glue a b) = ehi b"
      using e(1) by (simp_all add: e820_glue_def elo_def ehi_def)
    moreover have "{elo a..<ehi b} = {elo a..<ehi a} \<union> {elo b..<ehi b}"
      using a \<open>ehi a = elo b\<close> by (simp add: ivl_disj_un_two)
    ultimately show ?thesis using True "1.IH"(1) [OF True ok(1)] e(2)
      by (auto simp: split e820_glue_def)
  next
    case False
    then show ?thesis using "1.IH"(2) [OF False ok(2)] by (simp add: split)
  qed
qed simp_all

lemma e820_sort_unique:
  assumes "e820_ok rs" and "mset es = mset rs"
  shows "e820_sort es = rs"
proof -
  have s: "sorted_wrt (\<lambda>a b. e_base a < e_base b) rs"
    using assms(1) unfolding e820_ok_def
    by (intro sorted_wrt_mono_rel [of rs "\<lambda>a b. ehi a \<le> elo b \<and> Suc (ehi a) \<noteq> elo b" "\<lambda>a b. e_base a < e_base b"])
      (auto simp: word_less_nat_alt elo_def)
  then have "sorted_wrt (<) (map e_base rs)" by (simp add: sorted_wrt_map)
  then have "sorted (map e_base rs)" "distinct (map e_base rs)" by (simp_all add: strict_sorted_iff)
  moreover have "sorted (map e_base (e820_sort es))" "mset (e820_sort es) = mset rs"
    using e8s.sort_correct [of es] assms(2) by (simp_all add: e820_sort_def)
  moreover from this(2) have "distinct (map e_base (e820_sort es))" "set (e820_sort es) = set rs"
    using \<open>distinct (map e_base rs)\<close> by (metis mset_eq_imp_distinct_iff mset_map, metis set_mset_mset)
  moreover have "inj_on e_base (set rs)" using \<open>distinct (map e_base rs)\<close> by (simp add: distinct_map)
  ultimately show ?thesis by (intro map_sorted_distinct_set_unique [of e_base]) simp_all
qed

text \<open>No two neighbours of a list can be joined.\<close>

definition e820_settled :: "e820_entry list \<Rightarrow> bool" where
  "e820_settled es \<longleftrightarrow> (\<forall>i. Suc i < length es \<longrightarrow> \<not> e820_joinable (es ! i) (es ! Suc i))"




text \<open>The frames below the limit that an entry of usable memory reaches to.\<close>

definition pfn_end :: "u32 \<Rightarrow> e820_entry \<Rightarrow> nat" where
  "pfn_end limit e =
     (if (e_type e = E820_TYPE_RAM \<or> e_type e = E820_TYPE_ACPI) \<and> elo e div 4096 < unat limit
      then min (ehi e div 4096) (unat limit) else 0)"

lemma fold_max_top: "\<forall>x\<in>set xs. x \<le> (k::nat) \<Longrightarrow> fold max xs k = k"
  by (induction xs) (simp_all add: max_absorb2)

lemma pfn_of_entry:
  assumes "ehi e < 2 ^ 44"
  shows "unat (ucast (drop_bit 12 (e_base e)) :: u32) = elo e div 4096"
    and "unat (ucast (drop_bit 12 (e_base e + e_length e)) :: u32) = ehi e div 4096"
proof -
  have d: "unat (ucast (drop_bit 12 w) :: u32) = unat w div 4096" if "unat w < 2 ^ 44" for w :: u64
  proof -
    have "unat (drop_bit 12 w) = unat w div 2 ^ 12" unfolding unat_drop_bit_eq by (rule drop_bit_eq_div)
    then have "unat (drop_bit 12 w) = unat w div 4096" by simp
    moreover have "unat w div 4096 < 2 ^ 32" using that by (simp add: less_mult_imp_div_less)
    ultimately show ?thesis by (simp add: unsigned_ucast_eq take_bit_nat_eq_self)
  qed
  have "elo e \<le> ehi e" by (simp add: elo_def ehi_def)
  then show "unat (ucast (drop_bit 12 (e_base e)) :: u32) = elo e div 4096" using assms d [of "e_base e"] by (simp add: elo_def)
  have "unat (e_base e + e_length e) = ehi e" using assms unat_e_end [of e] by (simp add: e_end_def)
  then show "unat (ucast (drop_bit 12 (e_base e + e_length e)) :: u32) = ehi e div 4096" using assms d by simp
qed

text \<open>The search for the last frame is the greatest of these, although it stops at the first entry beyond the limit.\<close>

lemma e820_last_pfn_max:
  assumes "\<forall>e\<in>set es. ehi e < 2 ^ 44" and "last_pfn \<le> limit"
  shows "unat (e820_last_pfn limit last_pfn es) = fold max (map (pfn_end limit) es) (unat last_pfn)"
  using assms
proof (induction es arbitrary: last_pfn)
  case (Cons e es)
  have le: "unat last_pfn \<le> unat limit" using Cons.prems(2) by (simp add: word_le_nat_alt)
  note u = pfn_of_entry [of e]
  have h: "ehi e < 2 ^ 44" using Cons.prems(1) by simp
  show ?case
  proof (cases "(e_type e = E820_TYPE_RAM \<or> e_type e = E820_TYPE_ACPI) \<and> elo e div 4096 < unat limit")
    case False
    then have "e820_last_pfn limit last_pfn (e # es) = e820_last_pfn limit last_pfn es"
      by (auto simp: Let_def word_le_nat_alt u [OF h])
    moreover have "pfn_end limit e = 0" using False by (auto simp: pfn_end_def)
    ultimately show ?thesis using Cons by simp
  next
    case True
    show ?thesis
    proof (cases "unat limit < ehi e div 4096")
      case over: True
      then have "e820_last_pfn limit last_pfn (e # es) = limit"
        using True by (auto simp: Let_def word_le_nat_alt word_less_nat_alt u [OF h])
      moreover have "pfn_end limit e = unat limit" using True over by (simp add: pfn_end_def)
      moreover have "fold max (map (pfn_end limit) es) (unat limit) = unat limit"
        by (intro fold_max_top) (auto simp: pfn_end_def)
      ultimately show ?thesis using le by (simp add: max_absorb1)
    next
      case False
      let ?n = "ucast (drop_bit 12 (e_base e + e_length e)) :: u32"
      have p: "pfn_end limit e = unat ?n" using True False by (simp add: pfn_end_def u [OF h])
      have "e820_last_pfn limit last_pfn (e # es) = e820_last_pfn limit (if ?n > last_pfn then ?n else last_pfn) es"
        using True False by (auto simp: Let_def word_le_nat_alt word_less_nat_alt u [OF h])
      moreover have "unat (if ?n > last_pfn then ?n else last_pfn) = max (pfn_end limit e) (unat last_pfn)"
        by (simp add: p word_less_nat_alt max_def)
      moreover have "(if ?n > last_pfn then ?n else last_pfn) \<le> limit"
        using False Cons.prems(2) by (simp add: word_le_nat_alt u [OF h])
      ultimately show ?thesis using Cons by simp
    qed
  qed
qed simp

end
