(* ===== verification/Wey_Mmu.thy ===== *)
theory Wey_Mmu
  imports Wey_Heap
begin

text \<open>
  Page tables: the entry format and flags of \<open>arch/i386/mm/paging.c\<close> and the operations of
  \<open>memory/vmm/mmu.c\<close> on the two-level tables it describes. A table is known by its kernel virtual
  address, which \<open>pte_to_virt\<close> computes from an entry; \<open>mu_tbl s t i\<close> is the entry \<open>i\<close> of the table
  \<open>t\<close>. A pointer to an entry is a table and an index. Tables are pages, so two of them never
  overlap. The answers of \<open>kzalloc\<close> to come are a list; flushing the TLB has no effect here.
\<close>

unbundle bit_operations_syntax

subsection \<open>Entries\<close>

definition PAGE_MASK :: u32 where "PAGE_MASK = 0xFFFFF000"
definition FLAGS_MASK :: u32 where "FLAGS_MASK = NOT PAGE_MASK"
definition PAGE_P :: u32 where "PAGE_P = 0x1"
definition PAGE_RW :: u32 where "PAGE_RW = 0x2"
definition PAGE_US :: u32 where "PAGE_US = 0x4"
definition PAGE_PWT :: u32 where "PAGE_PWT = 0x8"
definition PAGE_PCD :: u32 where "PAGE_PCD = 0x10"
definition PAGE_PSIZE :: u32 where "PAGE_PSIZE = 0x80"
definition PAGE_GLOBAL :: u32 where "PAGE_GLOBAL = 0x100"

definition x86_mk_pte :: "addr \<Rightarrow> u32 \<Rightarrow> u32" where
  "x86_mk_pte phys flags = (phys AND PAGE_MASK) OR (flags AND FLAGS_MASK) OR PAGE_P"

definition x86_pte_phys :: "u32 \<Rightarrow> addr" where
  "x86_pte_phys p = p AND PAGE_MASK"

definition x86_pte_flags :: "u32 \<Rightarrow> u32" where
  "x86_pte_flags p = p AND FLAGS_MASK"

definition x86_present :: "u32 \<Rightarrow> bool" where
  "x86_present p \<longleftrightarrow> p AND PAGE_P \<noteq> 0"

definition x86_leaf :: "u32 \<Rightarrow> nat \<Rightarrow> bool" where
  "x86_leaf p level \<longleftrightarrow> p AND PAGE_PSIZE \<noteq> 0 \<or> level = 1"

definition x86_to_virt :: "u32 \<Rightarrow> addr" where
  "x86_to_virt p = x86_pte_phys p + of_int KERNEL_VIRT_BASE"

definition x86_mk_table :: "addr \<Rightarrow> bool \<Rightarrow> u32" where
  "x86_mk_table phys user =
     (let flags = PAGE_P OR PAGE_RW; flags = (if user then flags OR PAGE_US else flags)
      in (phys AND PAGE_MASK) OR (flags AND FLAGS_MASK))"

definition MEM_READ :: u32 where "MEM_READ = 1"
definition MEM_WRITE :: u32 where "MEM_WRITE = 2"
definition MEM_USER :: u32 where "MEM_USER = 4"
definition MEM_GLOBAL :: u32 where "MEM_GLOBAL = 8"
definition MEM_DEVICE :: u32 where "MEM_DEVICE = 16"
definition MEM_HUGE_PAGE :: u32 where "MEM_HUGE_PAGE = 64"
definition MEM_NOT_MAPPED :: u32 where "MEM_NOT_MAPPED = 0x10000"

definition mmu_flags_arch :: "u32 \<Rightarrow> u32" where
  "mmu_flags_arch flags =
     (let f = PAGE_P;
          f = (if flags AND MEM_WRITE \<noteq> 0 then f OR PAGE_RW else f);
          f = (if flags AND MEM_USER \<noteq> 0 then f OR PAGE_US else f);
          f = (if flags AND MEM_GLOBAL \<noteq> 0 then f OR PAGE_GLOBAL else f);
          f = (if flags AND MEM_HUGE_PAGE \<noteq> 0 then f OR PAGE_PSIZE else f)
      in if flags AND MEM_DEVICE \<noteq> 0 then f OR (PAGE_PCD OR PAGE_PWT) else f)"

definition arch_mmu_flags :: "u32 \<Rightarrow> u32" where
  "arch_mmu_flags flags =
     (let f = 0;
          f = (if flags AND PAGE_P \<noteq> 0 then f OR MEM_READ else f);
          f = (if flags AND PAGE_RW \<noteq> 0 then f OR MEM_WRITE else f);
          f = (if flags AND (PAGE_PCD OR PAGE_PWT) \<noteq> 0 then f OR MEM_DEVICE else f);
          f = (if flags AND PAGE_GLOBAL \<noteq> 0 then f OR MEM_GLOBAL else f);
          f = (if flags AND PAGE_PSIZE \<noteq> 0 then f OR MEM_HUGE_PAGE else f)
      in if flags AND PAGE_US \<noteq> 0 then f OR MEM_USER else f)"

subsection \<open>The format\<close>

record paging_size =
  ps_level :: nat
  ps_order :: nat
  ps_size :: u32
  ps_flag :: u32

text \<open>The page sizes as \<open>check_pse\<close> fills them in.\<close>

definition check_pse :: "bool \<Rightarrow> paging_size list" where
  "check_pse supports_pse =
     (if supports_pse then [\<lparr>ps_level = 1, ps_order = 10, ps_size = 0x400000, ps_flag = PAGE_PSIZE\<rparr>] else [])
     @ [\<lparr>ps_level = 2, ps_order = 0, ps_size = 0x1000, ps_flag = 0\<rparr>]"

definition paging_levels :: nat where "paging_levels = 2"

definition paging_shift :: "nat \<Rightarrow> nat" where
  "paging_shift level = (if level = 0 then 22 else 12)"

definition paging_index :: "nat \<Rightarrow> addr \<Rightarrow> nat" where
  "paging_index level vaddr = unat (drop_bit (paging_shift level) vaddr AND 0x3FF)"

fun choose_page_size :: "paging_size list \<Rightarrow> paging_size list \<Rightarrow> addr \<Rightarrow> u32 \<Rightarrow> paging_size" where
  "choose_page_size sizes [] vaddr remaining = last sizes"
| "choose_page_size sizes (ps # rest) vaddr remaining =
     (if ps_order ps > MAX_ORDER then choose_page_size sizes rest vaddr remaining
      else if vaddr AND (ps_size ps - 1) \<noteq> 0 then choose_page_size sizes rest vaddr remaining
      else if remaining < ps_size ps then choose_page_size sizes rest vaddr remaining
      else ps)"

type_synonym tables = "addr \<Rightarrow> nat \<Rightarrow> u32"

definition set_pte :: "addr \<times> nat \<Rightarrow> u32 \<Rightarrow> tables \<Rightarrow> tables" where
  "set_pte e v t = t(fst e := (t (fst e))(snd e := v))"

definition zero_table :: "addr \<Rightarrow> tables \<Rightarrow> tables" where
  "zero_table a t = t(a := (\<lambda>_. 0))"

subsection \<open>Mapping at boot\<close>

text \<open>
  \<open>walk_early\<close> from a level on; the first argument is the number of levels still allowed. The
  outer \<open>None\<close> is the end of the loop, which the code marks unreachable, or a boot allocator that
  does not return; the inner one is the null pointer.
\<close>

fun walk_early :: "nat \<Rightarrow> nat \<Rightarrow> addr \<Rightarrow> addr \<Rightarrow> tables \<times> memblock \<Rightarrow> ((tables \<times> memblock) \<times> (addr \<times> nat) option) option" where
  "walk_early 0 i table vaddr s = None"
| "walk_early (Suc n) i table vaddr s =
     (let idx = paging_index i vaddr; entry = fst s table idx
      in if x86_leaf entry i then Some (s, Some (table, idx))
         else if x86_present entry then walk_early n (Suc i) (x86_to_virt entry) vaddr s
         else case memblock_alloc 0x1000 0x1000 (snd s) of
                None \<Rightarrow> None
              | Some (mb, new_tbl) \<Rightarrow>
                  if new_tbl = 0 then Some ((fst s, mb), None)
                  else let e = x86_mk_table new_tbl False;
                           t = zero_table (new_tbl + of_int KERNEL_VIRT_BASE) (set_pte (table, idx) e (fst s))
                       in walk_early n (Suc i) (x86_to_virt e) vaddr (t, mb))"

partial_function (option) early_mmap_loop ::
    "paging_size list \<Rightarrow> addr \<Rightarrow> u32 \<Rightarrow> addr \<Rightarrow> addr \<Rightarrow> u32 \<Rightarrow> tables \<times> memblock \<Rightarrow> ((tables \<times> memblock) \<times> (errno + unit)) option" where
  "early_mmap_loop sizes root arch_flags vaddr paddr sz s =
     (if sz > 0 then
        let pg = choose_page_size sizes sizes vaddr sz in
        case walk_early (Suc (ps_level pg)) 0 root vaddr s of
          None \<Rightarrow> None
        | Some (s1, None) \<Rightarrow> Some (s1, Inl ENOMEM)
        | Some (s1, Some pte) \<Rightarrow>
            early_mmap_loop sizes root arch_flags (vaddr + 0x1000) (paddr + 0x1000) (sz - ps_size pg)
              (set_pte pte (x86_mk_pte paddr (arch_flags OR ps_flag pg)) (fst s1), snd s1)
      else Some (s, Inr ()))"

definition mmu_early_mmap ::
    "paging_size list \<Rightarrow> addr \<Rightarrow> addr \<Rightarrow> addr \<Rightarrow> u32 \<Rightarrow> u32 \<Rightarrow> tables \<times> memblock \<Rightarrow> ((tables \<times> memblock) \<times> (errno + unit)) option" where
  "mmu_early_mmap sizes root vaddr paddr sz flags s =
     early_mmap_loop sizes root (mmu_flags_arch flags) vaddr paddr (ALIGN_UP sz 0x1000) s"

subsection \<open>Walking the tables\<close>

record mmu =
  mu_tbl :: tables
  mu_zone :: zone
  mu_mem :: "bool list"

definition PG_KERNEL_TABLE :: u16 where "PG_KERNEL_TABLE = 40"

definition ensure_table :: "addr \<times> nat \<Rightarrow> bool \<Rightarrow> nat \<Rightarrow> mmu \<Rightarrow> mmu \<times> addr option" where
  "ensure_table entry user_table order s =
     (if \<not> x86_present (mu_tbl s (fst entry) (snd entry)) then
        case page_alloc order PG_KERNEL_TABLE (mu_zone s) of
          (z, None) \<Rightarrow> (s\<lparr>mu_zone := z\<rparr>, None)
        | (z, Some p) \<Rightarrow>
            let e = x86_mk_table (page_to_phys p) user_table
            in (s\<lparr>mu_zone := z, mu_tbl := set_pte entry e (zero_table (page_to_virt p) (mu_tbl s))\<rparr>, Some (x86_to_virt e))
      else (s, Some (x86_to_virt (mu_tbl s (fst entry) (snd entry)))))"

fun generic_walker :: "nat \<Rightarrow> nat \<Rightarrow> addr \<Rightarrow> addr \<Rightarrow> bool \<Rightarrow> bool \<Rightarrow> nat \<Rightarrow> mmu \<Rightarrow> mmu \<times> (addr \<times> nat) option" where
  "generic_walker 0 i table vaddr create user_table leaf_order s = (s, None)"
| "generic_walker (Suc n) i table vaddr create user_table leaf_order s =
     (let idx = paging_index i vaddr; pte = mu_tbl s table idx
      in if x86_present pte then
           (if x86_leaf pte i then (s, Some (table, idx))
            else generic_walker n (Suc i) (x86_to_virt pte) vaddr create user_table leaf_order s)
         else if create then
           (let is_leaf = x86_leaf pte i
            in case ensure_table (table, idx) user_table (if is_leaf then leaf_order else 0) s of
                 (s1, None) \<Rightarrow> (s1, None)
               | (s1, Some next_table) \<Rightarrow>
                   if is_leaf then (s1, Some (table, idx))
                   else generic_walker n (Suc i) next_table vaddr create user_table leaf_order s1)
         else (s, None))"

definition walk_create :: "addr \<Rightarrow> addr \<Rightarrow> nat \<Rightarrow> nat \<Rightarrow> bool \<Rightarrow> mmu \<Rightarrow> mmu \<times> (addr \<times> nat) option" where
  "walk_create root vaddr stop_level page_order user_table s = generic_walker (Suc stop_level) 0 root vaddr True user_table page_order s"

definition walk :: "addr \<Rightarrow> addr \<Rightarrow> nat \<Rightarrow> mmu \<Rightarrow> (addr \<times> nat) option" where
  "walk root vaddr stop_level s = snd (generic_walker (Suc stop_level) 0 root vaddr False False 0 s)"

definition mmu_translate :: "addr \<Rightarrow> addr \<Rightarrow> mmu \<Rightarrow> addr" where
  "mmu_translate root vaddr s =
     (case walk root vaddr paging_levels s of None \<Rightarrow> 0 | Some e \<Rightarrow> x86_pte_phys (mu_tbl s (fst e) (snd e)))"

definition mmu_set_flags :: "addr \<Rightarrow> addr \<Rightarrow> u32 \<Rightarrow> mmu \<Rightarrow> mmu" where
  "mmu_set_flags root vaddr flags s =
     (case walk root vaddr paging_levels s of
        None \<Rightarrow> s
      | Some e \<Rightarrow> s\<lparr>mu_tbl := set_pte e (x86_mk_pte (x86_pte_phys (mu_tbl s (fst e) (snd e))) (mmu_flags_arch flags)) (mu_tbl s)\<rparr>)"

definition mmu_set_flags_range :: "addr \<Rightarrow> addr \<Rightarrow> u32 \<Rightarrow> u32 \<Rightarrow> mmu \<Rightarrow> mmu" where
  "mmu_set_flags_range root vaddr sz flags s =
     fold (\<lambda>i. mmu_set_flags root (vaddr + of_nat i * 0x1000) flags) [0..<unat (ALIGN_UP sz 0x1000 div 0x1000)] s"

definition mmu_get_flags :: "addr \<Rightarrow> addr \<Rightarrow> mmu \<Rightarrow> u32" where
  "mmu_get_flags root vaddr s =
     (case walk root vaddr paging_levels s of
        None \<Rightarrow> MEM_NOT_MAPPED | Some e \<Rightarrow> arch_mmu_flags (x86_pte_flags (mu_tbl s (fst e) (snd e))))"

subsection \<open>Mapping and unmapping\<close>

definition table_empty :: "addr \<Rightarrow> tables \<Rightarrow> bool" where
  "table_empty table t = list_all (\<lambda>i. \<not> x86_present (t table i)) [0..<1024]"

text \<open>\<open>walk_to\<close> on two levels: the index in the root, the table below it and the index in that.\<close>

definition walk_to :: "addr \<Rightarrow> addr \<Rightarrow> tables \<Rightarrow> (nat \<times> addr \<times> nat) option" where
  "walk_to root va t =
     (let i0 = paging_index 0 va; i1 = paging_index 1 va; table = x86_to_virt (t root i0)
      in if \<not> x86_present (t root i0) then None
         else if \<not> x86_present (t table i1) then None
         else Some (i0, table, i1))"

definition munmap_page :: "addr \<Rightarrow> addr \<Rightarrow> mmu \<Rightarrow> mmu" where
  "munmap_page root vaddr s =
     (case walk_to root vaddr (mu_tbl s) of
        None \<Rightarrow> s
      | Some (i0, table, i1) \<Rightarrow>
          let s1 = s\<lparr>mu_tbl := set_pte (table, i1) 0 (mu_tbl s)\<rparr>
          in if \<not> table_empty table (mu_tbl s1) then s1
             else s1\<lparr>mu_tbl := set_pte (root, i0) 0 (mu_tbl s1), mu_zone := page_put (virt_to_page table) (mu_zone s1)\<rparr>)"

fun munmap_loop :: "nat \<Rightarrow> addr \<Rightarrow> addr \<Rightarrow> mmu \<Rightarrow> mmu" where
  "munmap_loop 0 root vaddr s = s"
| "munmap_loop (Suc n) root vaddr s = munmap_loop n root (vaddr + 0x1000) (munmap_page root vaddr s)"

definition mmu_munmap :: "addr \<Rightarrow> addr \<Rightarrow> u32 \<Rightarrow> mmu \<Rightarrow> mmu" where
  "mmu_munmap root vaddr sz s = munmap_loop (unat (ALIGN_UP sz 0x1000 div 0x1000)) root vaddr s"

partial_function (option) mmap_loop ::
    "paging_size list \<Rightarrow> addr \<Rightarrow> u32 \<Rightarrow> addr \<Rightarrow> u32 \<Rightarrow> addr \<Rightarrow> addr \<Rightarrow> u32 \<Rightarrow> mmu \<Rightarrow> (mmu \<times> (errno + unit)) option" where
  "mmap_loop sizes root mem_flags first original_size paddr vaddr sz s =
     (if sz > 0 then
        let pg = choose_page_size sizes sizes vaddr sz in
        case walk_create root vaddr (ps_level pg) (ps_order pg) (mem_flags AND MEM_USER \<noteq> 0) s of
          (s1, None) \<Rightarrow> Some (if sz \<noteq> original_size then mmu_munmap root first original_size s1 else s1, Inl ENOMEM)
        | (s1, Some pte) \<Rightarrow>
            mmap_loop sizes root mem_flags first original_size (paddr + 0x1000) (vaddr + 0x1000) (sz - ps_size pg)
              (s1\<lparr>mu_tbl := set_pte pte (x86_mk_pte paddr (mmu_flags_arch mem_flags)) (mu_tbl s1)\<rparr>)
      else Some (s, Inr ()))"

definition mmu_mmap :: "paging_size list \<Rightarrow> addr \<Rightarrow> addr \<Rightarrow> addr \<Rightarrow> u32 \<Rightarrow> u32 \<Rightarrow> mmu \<Rightarrow> (mmu \<times> (errno + unit)) option" where
  "mmu_mmap sizes root paddr vaddr sz mem_flags s =
     (let sz = ALIGN_UP sz 0x1000 in mmap_loop sizes root mem_flags vaddr sz paddr vaddr sz s)"

subsection \<open>Address spaces\<close>

text \<open>
  \<open>destroy_level\<close> and \<open>clone_level\<close> call themselves for the tables below; the first argument
  bounds the depth. An entry of level 1 is always a leaf, so depth 2 is enough.
\<close>

definition entry_va :: "nat \<Rightarrow> addr \<Rightarrow> nat \<Rightarrow> addr" where
  "entry_va level base_va i = base_va + push_bit (paging_shift level) (of_nat i)"

fun destroy_level :: "nat \<Rightarrow> addr \<Rightarrow> nat \<Rightarrow> addr \<Rightarrow> mmu \<Rightarrow> mmu" where
  "destroy_level 0 table level base_va s = s"
| "destroy_level (Suc d) table level base_va s =
     fold (\<lambda>i s.
       let pte = mu_tbl s table i; va = entry_va level base_va i in
       if \<not> x86_present pte then s
       else if va \<ge> USER_SPACE_END then s
       else let s1 = (if \<not> x86_leaf pte level then destroy_level d (x86_to_virt pte) (Suc level) va s else s);
                s2 = s1\<lparr>mu_zone := page_put (phys_to_page (x86_pte_phys pte)) (mu_zone s1)\<rparr>
            in s2\<lparr>mu_tbl := set_pte (table, i) 0 (mu_tbl s2)\<rparr>) [0..<1024] s"

definition rollback_clone_level :: "nat \<Rightarrow> addr \<Rightarrow> nat \<Rightarrow> nat \<Rightarrow> addr \<Rightarrow> mmu \<Rightarrow> mmu" where
  "rollback_clone_level d table max_entries level base_va s =
     fold (\<lambda>i s.
       let pte = mu_tbl s table i; va = entry_va level base_va i; page = phys_to_page (x86_pte_phys pte) in
       if \<not> x86_present pte then s
       else if va \<ge> USER_SPACE_END then s\<lparr>mu_tbl := set_pte (table, i) 0 (mu_tbl s)\<rparr>
       else if x86_leaf pte level then
         s\<lparr>mu_zone := page_put page (mu_zone s), mu_tbl := set_pte (table, i) 0 (mu_tbl s)\<rparr>
       else let s1 = destroy_level d (x86_to_virt pte) (Suc level) va s;
                s2 = s1\<lparr>mu_zone := fst (page_free (Some page) (mu_zone s1))\<rparr>
            in s2\<lparr>mu_tbl := set_pte (table, i) 0 (mu_tbl s2)\<rparr>) [0..<max_entries] s"

definition restore_src_mods :: "((addr \<times> nat) \<times> u32) list \<Rightarrow> mmu \<Rightarrow> mmu" where
  "restore_src_mods mods s = s\<lparr>mu_tbl := fold (\<lambda>(e, old). set_pte e old) mods (mu_tbl s)\<rparr>"

text \<open>The next answer of \<open>kzalloc\<close>.\<close>

definition mmu_kzalloc :: "mmu \<Rightarrow> mmu \<times> bool" where
  "mmu_kzalloc s = (case mu_mem s of [] \<Rightarrow> (s, False) | a # as \<Rightarrow> (s\<lparr>mu_mem := as\<rparr>, a))"

text \<open>
  One leaf entry of the source: the page gets a reference, and a writable user page becomes
  read-only in both tables. The entry and its old value are recorded.
\<close>

definition clone_leaf :: "addr \<Rightarrow> addr \<Rightarrow> nat \<Rightarrow> mmu \<Rightarrow> mmu" where
  "clone_leaf src_table new_table i s =
     (let pte = mu_tbl s src_table i; flags = arch_mmu_flags (x86_pte_flags pte); phys = x86_pte_phys pte;
          s1 = s\<lparr>mu_zone := page_get (phys_to_page phys) (mu_zone s)\<rparr>;
          cow = (flags AND MEM_WRITE \<noteq> 0 \<and> flags AND MEM_USER \<noteq> 0);
          new_pte = (if cow then x86_mk_pte phys (mmu_flags_arch (flags AND NOT MEM_WRITE)) else pte);
          t1 = (if cow then set_pte (src_table, i) new_pte (mu_tbl s1) else mu_tbl s1)
      in s1\<lparr>mu_tbl := set_pte (new_table, i) new_pte t1\<rparr>)"

function (sequential) clone_level :: "nat \<Rightarrow> addr \<Rightarrow> nat \<Rightarrow> addr \<Rightarrow> mmu \<Rightarrow> mmu \<times> addr option"
  and clone_entries :: "nat \<Rightarrow> addr \<Rightarrow> addr \<Rightarrow> nat \<Rightarrow> nat \<Rightarrow> addr \<Rightarrow> nat \<Rightarrow> ((addr \<times> nat) \<times> u32) list \<Rightarrow> mmu \<Rightarrow> mmu \<times> addr option" where
  "clone_level 0 src_table level base_va s = (s, None)"
| "clone_level (Suc d) src_table level base_va s =
     (case page_alloc 0 PG_KERNEL_TABLE (mu_zone s) of
        (z, None) \<Rightarrow> (s\<lparr>mu_zone := z\<rparr>, None)
      | (z, Some p) \<Rightarrow>
          (let s1 = s\<lparr>mu_zone := z, mu_tbl := zero_table (page_to_virt p) (mu_tbl s)\<rparr>;
               (s2, list_ok) = mmu_kzalloc s1; (s3, vals_ok) = mmu_kzalloc s2
           in if \<not> list_ok \<or> \<not> vals_ok then (s3\<lparr>mu_zone := fst (page_free (Some p) (mu_zone s3))\<rparr>, None)
              else clone_entries d src_table (page_to_virt p) p level base_va 1024 [] s3))"
| "clone_entries d src_table new_table p level base_va 0 mods s = (s, Some new_table)"
| "clone_entries d src_table new_table p level base_va (Suc n) mods s =
     (let i = 1024 - Suc n; pte = mu_tbl s src_table i; va = entry_va level base_va i in
      if \<not> x86_present pte then clone_entries d src_table new_table p level base_va n mods s
      else if va \<ge> USER_SPACE_END then
        clone_entries d src_table new_table p level base_va n mods (s\<lparr>mu_tbl := set_pte (new_table, i) pte (mu_tbl s)\<rparr>)
      else if x86_leaf pte level then
        clone_entries d src_table new_table p level base_va n (mods @ [((src_table, i), pte)]) (clone_leaf src_table new_table i s)
      else
        (case clone_level d (x86_to_virt pte) (Suc level) va s of
           (s1, None) \<Rightarrow>
             (let s2 = (if mods \<noteq> [] then restore_src_mods mods s1 else s1);
                  s3 = rollback_clone_level d new_table i level base_va s2
              in (s3\<lparr>mu_zone := fst (page_free (Some p) (mu_zone s3))\<rparr>, None))
         | (s1, Some child) \<Rightarrow>
             (let user = (arch_mmu_flags (x86_pte_flags pte) AND MEM_USER \<noteq> 0);
                  entry = x86_mk_table (child - of_int KERNEL_VIRT_BASE) user
              in clone_entries d src_table new_table p level base_va n mods
                   (s1\<lparr>mu_tbl := set_pte (new_table, i) entry (mu_tbl s1)\<rparr>))))"
  by pat_completeness auto
termination
  by (relation "measures [\<lambda>x. case x of Inl (d, _) \<Rightarrow> 2 * d | Inr (d, _) \<Rightarrow> Suc (2 * d),
       \<lambda>x. case x of Inl _ \<Rightarrow> 0 | Inr (d, _, _, _, _, _, n, _) \<Rightarrow> n]") auto

declare clone_level.simps(2) [simp del] clone_entries.simps(2) [simp del]

text \<open>A context is its root; the first answer of the heap is for the structure itself.\<close>

definition mmu_clone_context :: "addr \<Rightarrow> mmu \<Rightarrow> mmu \<times> addr option" where
  "mmu_clone_context src s =
     (let (s1, ok) = mmu_kzalloc s in if \<not> ok then (s1, None) else clone_level 2 src 0 0 s1)"

definition mmu_create_context :: "addr \<Rightarrow> mmu \<Rightarrow> mmu \<times> addr option" where
  "mmu_create_context swapper_pgdir s = mmu_clone_context swapper_pgdir s"

definition mmu_destroy_context :: "addr \<Rightarrow> mmu \<Rightarrow> mmu" where
  "mmu_destroy_context root s =
     (let s1 = destroy_level 2 root 0 0 s in s1\<lparr>mu_zone := fst (page_free (Some (virt_to_page root)) (mu_zone s1))\<rparr>)"

text \<open>The page table register before and after; a null context is \<open>None\<close>.\<close>

definition mmu_context_switch :: "addr option \<Rightarrow> addr \<Rightarrow> mmu \<Rightarrow> addr \<times> (errno + unit)" where
  "mmu_context_switch ctx cr3 s =
     (case ctx of
        None \<Rightarrow> (cr3, Inl EINVAL)
      | Some root \<Rightarrow>
          let target_phys = mmu_translate root root s
          in if target_phys AND 0xFFF \<noteq> 0 then (cr3, Inl EINVAL)
             else if target_phys = cr3 then (cr3, Inr ())
             else (target_phys, Inr ()))"

text \<open>\<open>mmu_init\<close> makes the text and the read-only data of the kernel read-only.\<close>

definition mmu_init :: "addr \<Rightarrow> addr \<times> addr \<Rightarrow> addr \<times> addr \<Rightarrow> mmu \<Rightarrow> mmu" where
  "mmu_init swapper_pgdir kernel_text rodata s =
     mmu_set_flags_range swapper_pgdir (fst rodata) (snd rodata - fst rodata) (MEM_READ OR MEM_GLOBAL)
       (mmu_set_flags_range swapper_pgdir (fst kernel_text) (snd kernel_text - fst kernel_text) (MEM_READ OR MEM_GLOBAL) s)"

subsection \<open>Facts about entries\<close>

lemmas pte_defs = PAGE_MASK_def FLAGS_MASK_def PAGE_P_def PAGE_RW_def PAGE_US_def PAGE_PWT_def PAGE_PCD_def PAGE_PSIZE_def PAGE_GLOBAL_def

lemma masks: "PAGE_MASK = NOT (mask 12)" "FLAGS_MASK = mask 12"
  by (simp_all add: PAGE_MASK_def FLAGS_MASK_def mask_eq_exp_minus_1)

lemma flag_bit: "(a :: u32) AND push_bit n 1 \<noteq> 0 \<longleftrightarrow> bit a n"
  by (simp add: bit_iff_and_push_bit_not_eq_0)

lemma flag_bits:
  "x86_present e \<longleftrightarrow> bit e 0" "x86_leaf e 0 \<longleftrightarrow> bit e 7" "e AND PAGE_RW \<noteq> 0 \<longleftrightarrow> bit e 1" "e AND PAGE_US \<noteq> 0 \<longleftrightarrow> bit e 2"
  using flag_bit [of e 0] flag_bit [of e 7] flag_bit [of e 1] flag_bit [of e 2]
  by (simp_all add: x86_present_def x86_leaf_def PAGE_P_def PAGE_PSIZE_def PAGE_RW_def PAGE_US_def)

lemma bit_small:
  "bit (1 :: u32) n \<longleftrightarrow> n = 0" "bit (2 :: u32) n \<longleftrightarrow> n = 1" "bit (4 :: u32) n \<longleftrightarrow> n = 2"
  using bit_push_bit_iff [of 1 "1 :: u32" n] bit_push_bit_iff [of 2 "1 :: u32" n] by (auto simp: bit_1_iff)

lemma mk_pte_present [simp]: "x86_present (x86_mk_pte p f)"
  unfolding flag_bits x86_mk_pte_def PAGE_P_def by (simp add: bit_simps)

lemma zero_not_present [simp]: "\<not> x86_present 0" "\<not> x86_leaf 0 0"
  by (simp_all add: flag_bits)

lemma leaf_level_1 [simp]: "x86_leaf e 1" "x86_leaf e (Suc 0)"
  by (simp_all add: x86_leaf_def)

lemma mk_table_flags [simp]: "x86_present (x86_mk_table p u)" "\<not> x86_leaf (x86_mk_table p u) 0"
  unfolding flag_bits x86_mk_table_def masks Let_def PAGE_P_def PAGE_RW_def PAGE_US_def by (auto simp: bit_simps bit_small)

lemma pte_phys_mk: "x86_pte_phys (x86_mk_pte p f) = p AND PAGE_MASK" "x86_pte_phys (x86_mk_table p u) = p AND PAGE_MASK"
  unfolding x86_pte_phys_def x86_mk_pte_def x86_mk_table_def masks Let_def PAGE_P_def PAGE_RW_def PAGE_US_def
  by (auto intro!: bit_word_eqI simp: bit_simps bit_small)

lemma pte_flags_mk: "x86_pte_flags (x86_mk_pte p f) = (f AND FLAGS_MASK) OR PAGE_P"
  unfolding x86_pte_flags_def x86_mk_pte_def masks PAGE_P_def
  by (auto intro!: bit_word_eqI simp: bit_simps bit_small)

lemma page_to_phys_masked: "page_to_phys p AND PAGE_MASK = page_to_phys p"
  unfolding page_to_phys_def masks by (auto intro!: bit_word_eqI simp: bit_simps)

lemma to_virt_table [simp]: "x86_to_virt (x86_mk_table (page_to_phys p) u) = page_to_virt p"
  by (simp add: x86_to_virt_def pte_phys_mk page_to_phys_masked page_to_virt_def KERNEL_DIRECTMAP_START_def)

lemma virt_to_page_to_virt: "p < 2 ^ 20 \<Longrightarrow> virt_to_page (page_to_virt p) = p"
proof -
  assume p: "p < 2 ^ 20"
  have b: "n < 20" if "bit p n" for n
    using that p bit_take_bit_iff [of 20 p n] by (simp add: take_bit_nat_eq_self)
  have "drop_bit 12 (push_bit 12 (of_nat p :: addr)) = of_nat p"
    by (intro bit_word_eqI) (auto simp: bit_simps dest: b)
  then show ?thesis using p by (simp add: virt_to_page_def page_to_virt_def phys_to_page_def page_to_phys_def unat_of_nat)
qed

text \<open>The two indices of an address are its page number.\<close>

lemma same_page:
  "paging_index 0 x = paging_index 0 y \<and> paging_index 1 x = paging_index 1 y \<longleftrightarrow> drop_bit 12 x = drop_bit 12 y"
proof -
  have m: "(0x3FF :: u32) = mask 10" by (simp add: mask_eq_exp_minus_1)
  have l: "n < 32" if "bit w n" for w :: addr and n using bit_imp_le_length [OF that] by simp
  have j: "drop_bit 12 w = push_bit 10 (drop_bit 22 w AND mask 10) OR (drop_bit 12 w AND mask 10)" for w :: addr
  proof (rule bit_word_eqI)
    fix n assume "n < LENGTH(32)"
    show "bit (drop_bit 12 w) n = bit (push_bit 10 (drop_bit 22 w AND mask 10) OR (drop_bit 12 w AND mask 10)) n"
      using l [of w "12 + n"] \<open>n < LENGTH(32)\<close> by (auto simp: bit_simps)
  qed
  have d: "drop_bit 22 w AND mask 10 = drop_bit 10 (drop_bit 12 w)" for w :: addr
  proof (rule bit_word_eqI)
    fix n assume "n < LENGTH(32)"
    show "bit (drop_bit 22 w AND mask 10) n = bit (drop_bit 10 (drop_bit 12 w)) n"
      using l [of w "22 + n"] by (auto simp: bit_simps)
  qed
  have "drop_bit 22 x AND mask 10 = drop_bit 22 y AND mask 10 \<and> drop_bit 12 x AND mask 10 = drop_bit 12 y AND mask 10
      \<longleftrightarrow> drop_bit 12 x = drop_bit 12 y"
  proof
    assume a: "drop_bit 22 x AND mask 10 = drop_bit 22 y AND mask 10 \<and> drop_bit 12 x AND mask 10 = drop_bit 12 y AND mask 10"
    then show "drop_bit 12 x = drop_bit 12 y" by (subst j [of x], subst j [of y]) (simp only:)
  next
    assume e: "drop_bit 12 x = drop_bit 12 y"
    show "drop_bit 22 x AND mask 10 = drop_bit 22 y AND mask 10 \<and> drop_bit 12 x AND mask 10 = drop_bit 12 y AND mask 10"
      unfolding d e by simp
  qed
  then show ?thesis unfolding paging_index_def paging_shift_def m by (simp only: if_True if_False simp_thms zero_neq_one [symmetric] word_unat_eq_iff) 
qed

subsection \<open>The mapping a root describes\<close>

definition pte_of :: "addr \<Rightarrow> addr \<Rightarrow> tables \<Rightarrow> u32 option" where
  "pte_of root va t =
     (let e0 = t root (paging_index 0 va) in
      if \<not> x86_present e0 then None
      else if x86_leaf e0 0 then Some e0
      else let e1 = t (x86_to_virt e0) (paging_index 1 va) in if x86_present e1 then Some e1 else None)"

lemma pte_of_page: "drop_bit 12 x = drop_bit 12 y \<Longrightarrow> pte_of root x t = pte_of root y t"
  using same_page [of x y] by (simp add: pte_of_def Let_def del: One_nat_def)

lemma walk_pte_of:
  "case walk root va paging_levels s of
     None \<Rightarrow> pte_of root va (mu_tbl s) = None
   | Some e \<Rightarrow> pte_of root va (mu_tbl s) = Some (mu_tbl s (fst e) (snd e))"
  by (auto simp: walk_def paging_levels_def pte_of_def Let_def numeral_2_eq_2)

lemma mmu_translate_pte: "mmu_translate root va s = (case pte_of root va (mu_tbl s) of None \<Rightarrow> 0 | Some e \<Rightarrow> x86_pte_phys e)"
  using walk_pte_of [of root va s] by (auto simp: mmu_translate_def split: option.splits)

lemma mmu_get_flags_pte:
  "mmu_get_flags root va s = (case pte_of root va (mu_tbl s) of None \<Rightarrow> MEM_NOT_MAPPED | Some e \<Rightarrow> arch_mmu_flags (x86_pte_flags e))"
  using walk_pte_of [of root va s] by (auto simp: mmu_get_flags_def split: option.splits)

text \<open>Tables of a root: two entries never name the same table, and none names the root; no large pages.\<close>

definition tables_ok :: "addr \<Rightarrow> tables \<Rightarrow> bool" where
  "tables_ok root t \<longleftrightarrow> (\<forall>i. \<not> x86_leaf (t root i) 0)
     \<and> (\<forall>i. x86_present (t root i) \<longrightarrow> x86_to_virt (t root i) \<noteq> root)
     \<and> (\<forall>i j. x86_present (t root i) \<longrightarrow> x86_present (t root j) \<longrightarrow> x86_to_virt (t root i) = x86_to_virt (t root j) \<longrightarrow> i = j)"

text \<open>Changing an entry below the root changes the mapping of one page.\<close>

lemma pte_of_set:
  assumes "tables_ok root t" and "x86_present (t root (paging_index 0 va))"
  shows "pte_of root x (set_pte (x86_to_virt (t root (paging_index 0 va)), paging_index 1 va) v t)
      = (if drop_bit 12 x = drop_bit 12 va then (if x86_present v then Some v else None) else pte_of root x t)"
    and "tables_ok root (set_pte (x86_to_virt (t root (paging_index 0 va)), paging_index 1 va) v t)"
proof -
  let ?T = "x86_to_virt (t root (paging_index 0 va))"
  have n: "?T \<noteq> root" using assms by (auto simp: tables_ok_def)
  have r: "set_pte (?T, paging_index 1 va) v t root = t root" using n by (simp add: set_pte_def)
  show "tables_ok root (set_pte (?T, paging_index 1 va) v t)" using assms(1) unfolding tables_ok_def r .
  have leaf: "\<not> x86_leaf (t root i) 0" for i using assms(1) by (simp add: tables_ok_def)
  show "pte_of root x (set_pte (?T, paging_index 1 va) v t)
      = (if drop_bit 12 x = drop_bit 12 va then (if x86_present v then Some v else None) else pte_of root x t)"
  proof (cases "x86_present (t root (paging_index 0 x))")
    case True
    have "x86_to_virt (t root (paging_index 0 x)) = ?T \<longleftrightarrow> paging_index 0 x = paging_index 0 va"
      using assms True by (auto simp: tables_ok_def)
    then show ?thesis using True leaf same_page [of x va] unfolding pte_of_def r by (auto simp: Let_def set_pte_def simp del: One_nat_def)
  next
    case False
    then have "drop_bit 12 x \<noteq> drop_bit 12 va" using assms(2) same_page [of x va] by auto
    then show ?thesis using False unfolding pte_of_def r by simp
  qed
qed

text \<open>Together with the page allocator: neither the root nor a table of it is a free page.\<close>

definition pt_ok :: "addr \<Rightarrow> mmu \<Rightarrow> (nat \<times> nat) set \<Rightarrow> bool" where
  "pt_ok root s A \<longleftrightarrow> tables_ok root (mu_tbl s) \<and> page_owned (mu_zone s) A \<and> max_pfn_mapped (mu_zone s) \<le> 2 ^ 20
     \<and> root \<notin> page_to_virt ` free_set (mu_zone s)
     \<and> (\<forall>i. x86_present (mu_tbl s root i) \<longrightarrow> x86_to_virt (mu_tbl s root i) \<notin> page_to_virt ` free_set (mu_zone s))"

lemma table_flags_plain: "plain_flags PG_KERNEL_TABLE"
  by (simp add: plain_flags_def PG_KERNEL_TABLE_def PG_BUDDY_def PG_RESERVED_def)

lemma free_set_bound: "page_owned z A \<Longrightarrow> p \<in> free_set z \<Longrightarrow> p < max_pfn_mapped z"
proof -
  assume "page_owned z A" and "p \<in> free_set z"
  then obtain b where "b \<in> free_blocks z" "p \<in> blk b" and ok: "blocks_ok (max_pfn_mapped z) (free_blocks z \<union> A)"
    by (auto simp: page_owned_def zone_inv_def zone_core_def free_set_def)
  then show ?thesis using blocks_ok_block [OF ok, of b] by (cases b) (auto simp: blk_def)
qed

text \<open>A page taken for a table: what it is not, and what stays free.\<close>

lemma table_page:
  assumes "pt_ok root s A" and "page_alloc k PG_KERNEL_TABLE (mu_zone s) = (z, Some p)"
  shows "page_owned z (insert (p, k) A)" and "max_pfn_mapped z = max_pfn_mapped (mu_zone s)" and "p \<in> free_set (mu_zone s)"
    and "free_set z = free_set (mu_zone s) - blk (p, k)" and "page_to_virt p \<noteq> root"
    and "x86_present (mu_tbl s root i) \<Longrightarrow> x86_to_virt (mu_tbl s root i) \<noteq> page_to_virt p"
    and "page_to_virt p \<notin> page_to_virt ` free_set z"
proof -
  have own: "page_owned (mu_zone s) A" and mx: "max_pfn_mapped (mu_zone s) \<le> 2 ^ 20"
    and r: "root \<notin> page_to_virt ` free_set (mu_zone s)" using assms(1) by (simp_all add: pt_ok_def)
  have g: "get_block k PG_KERNEL_TABLE (mu_zone s) = (z, Some (p, k))" using assms(2) by (simp add: get_block_def)
  note get = allocator.get_some [OF page_allocator [OF table_flags_plain] own g]
  show "page_owned z (insert (p, k) A)" and f: "free_set z = free_set (mu_zone s) - blk (p, k)" using get by blast+
  show pf: "p \<in> free_set (mu_zone s)" using get head_in_blk [of p k] by blast
  show "max_pfn_mapped z = max_pfn_mapped (mu_zone s)"
    using page_alloc_from_fields [of k PG_KERNEL_TABLE k "mu_zone s" z "Some p"] assms(2) by (simp add: page_alloc_def)
  show "page_to_virt p \<noteq> root" using r pf by blast
  show "x86_present (mu_tbl s root i) \<Longrightarrow> x86_to_virt (mu_tbl s root i) \<noteq> page_to_virt p"
    using assms(1) pf by (auto simp: pt_ok_def)
  show "page_to_virt p \<notin> page_to_virt ` free_set z"
  proof
    assume "page_to_virt p \<in> page_to_virt ` free_set z"
    then obtain q where q: "q \<in> free_set (mu_zone s)" "q \<notin> blk (p, k)" "page_to_virt p = page_to_virt q" using f by blast
    have b: "q < 2 ^ 20" "p < 2 ^ 20"
      using free_set_bound [OF own q(1)] free_set_bound [OF own pf] mx by linarith+
    have "q = p" using virt_to_page_to_virt [OF b(1)] virt_to_page_to_virt [OF b(2)] q(3) by simp
    then show False using q(2) head_in_blk [of p k] by blast
  qed
qed

lemma pte_of_zero:
  assumes "a \<noteq> root" and "\<And>i. x86_present (t root i) \<Longrightarrow> x86_to_virt (t root i) \<noteq> a"
  shows "pte_of root x (zero_table a t) = pte_of root x t" and "zero_table a t root = t root"
  using assms by (auto simp: pte_of_def zero_table_def Let_def)

lemma tables_ok_row: "t root = t' root \<Longrightarrow> tables_ok root t = tables_ok root t'"
  by (simp add: tables_ok_def)

text \<open>An empty table put into the root changes no mapping.\<close>

lemma pte_of_link:
  assumes "tables_ok root t" and "\<not> x86_present (t root i)" and "x86_to_virt e = a" and "a \<noteq> root" and "t a = (\<lambda>_. 0)"
    and "\<And>j. x86_present (t root j) \<Longrightarrow> x86_to_virt (t root j) \<noteq> a" and "x86_present e" and "\<not> x86_leaf e 0"
  shows "pte_of root x (set_pte (root, i) e t) = pte_of root x t" and "tables_ok root (set_pte (root, i) e t)"
proof -
  have a: "set_pte (root, i) e t a = (\<lambda>_. 0)" using assms(4,5) by (simp add: set_pte_def)
  have n: "x86_to_virt e \<noteq> x86_to_virt (t root j)" if "x86_present (t root j)" for j using assms(3) assms(6) [OF that] by simp
  have n': "x86_to_virt (t root j) \<noteq> x86_to_virt e" if "x86_present (t root j)" for j using n [OF that] by simp
  show "tables_ok root (set_pte (root, i) e t)"
    using assms(1,3,4,8) n n' by (auto simp: tables_ok_def set_pte_def)
  show "pte_of root x (set_pte (root, i) e t) = pte_of root x t"
  proof (cases "paging_index 0 x = i")
    case True
    then show ?thesis using assms(2,3,7,8) a by (simp add: pte_of_def Let_def set_pte_def)
  next
    case False
    then show ?thesis using assms(1,6) by (auto simp: pte_of_def Let_def set_pte_def tables_ok_def)
  qed
qed

lemma ensure_absent:
  assumes "\<not> x86_present (mu_tbl s a i)" and "ensure_table (a, i) user k s = (s', r)"
  shows "case r of
      None \<Rightarrow> \<exists>z. page_alloc k PG_KERNEL_TABLE (mu_zone s) = (z, None) \<and> s' = s\<lparr>mu_zone := z\<rparr>
    | Some b \<Rightarrow> \<exists>z p. page_alloc k PG_KERNEL_TABLE (mu_zone s) = (z, Some p) \<and> b = page_to_virt p
        \<and> s' = s\<lparr>mu_zone := z, mu_tbl := set_pte (a, i) (x86_mk_table (page_to_phys p) user) (zero_table (page_to_virt p) (mu_tbl s))\<rparr>"
proof (cases "page_alloc k PG_KERNEL_TABLE (mu_zone s)")
  case (Pair z q)
  then show ?thesis using assms by (cases q; cases r) (auto simp: ensure_table_def Let_def)
qed

lemma ensure_root_table:
  assumes "pt_ok root s A" and "\<not> x86_present (mu_tbl s root i)" and "ensure_table (root, i) user 0 s = (s', Some a)"
  shows "\<exists>A'. A \<subseteq> A' \<and> pt_ok root s' A'" and "pte_of root x (mu_tbl s') = pte_of root x (mu_tbl s)"
    and "x86_present (mu_tbl s' root i)" and "x86_to_virt (mu_tbl s' root i) = a" and "mu_tbl s' a = (\<lambda>_. 0)"
proof -
  obtain z p where al: "page_alloc 0 PG_KERNEL_TABLE (mu_zone s) = (z, Some p)"
    and s': "s' = s\<lparr>mu_zone := z, mu_tbl := set_pte (root, i) (x86_mk_table (page_to_phys p) user) (zero_table (page_to_virt p) (mu_tbl s))\<rparr>"
    and a: "a = page_to_virt p"
    using ensure_absent [OF assms(2,3)] by auto
  note tp = table_page [OF assms(1) al]
  let ?t = "zero_table a (mu_tbl s)"
  have ok: "tables_ok root (mu_tbl s)" using assms(1) by (simp add: pt_ok_def)
  note z = pte_of_zero [of a root "mu_tbl s", OF tp(5,6) [folded a]]
  have zok: "tables_ok root ?t" using ok tables_ok_row [of ?t root "mu_tbl s"] z(2) by simp
  have za: "?t a = (\<lambda>_. 0)" by (simp add: zero_table_def)
  have l: "pte_of root x (set_pte (root, i) (x86_mk_table (page_to_phys p) user) ?t) = pte_of root x ?t"
    "tables_ok root (set_pte (root, i) (x86_mk_table (page_to_phys p) user) ?t)" for x
    using assms(2) tp(5,6) za a z(2) by (intro pte_of_link [OF zok, where a = a]; simp)+
  show "pte_of root x (mu_tbl s') = pte_of root x (mu_tbl s)" using l(1) z(1) s' a by simp
  show p': "x86_present (mu_tbl s' root i)" "x86_to_virt (mu_tbl s' root i) = a" by (simp_all add: s' set_pte_def a)
  show "mu_tbl s' a = (\<lambda>_. 0)" using tp(5) by (simp add: s' set_pte_def a zero_table_def)
  have "root \<notin> page_to_virt ` free_set z" using assms(1) tp(4) by (auto simp: pt_ok_def)
  moreover have "x86_to_virt (mu_tbl s' root j) \<notin> page_to_virt ` free_set z" if "x86_present (mu_tbl s' root j)" for j
  proof (cases "j = i")
    case True
    then show ?thesis using p'(2) tp(7) a by simp
  next
    case False
    then have "mu_tbl s' root j = mu_tbl s root j" using s' z(2) a by (simp add: set_pte_def)
    then show ?thesis using that assms(1) tp(4) by (auto simp: pt_ok_def)
  qed
  ultimately have "pt_ok root s' (insert (p, 0) A)"
    using l(2) tp(1,2) assms(1) s' a by (simp add: pt_ok_def)
  then show "\<exists>A'. A \<subseteq> A' \<and> pt_ok root s' A'" by blast
qed

lemma ensure_leaf:
  assumes "pt_ok root s A" and "x86_present (mu_tbl s root (paging_index 0 va))" and "b = x86_to_virt (mu_tbl s root (paging_index 0 va))"
    and "\<not> x86_present (mu_tbl s b (paging_index 1 va))" and "ensure_table (b, paging_index 1 va) user k s = (s', Some c)"
  shows "\<exists>A'. A \<subseteq> A' \<and> pt_ok root s' A'" and "mu_tbl s' root = mu_tbl s root"
    and "drop_bit 12 x \<noteq> drop_bit 12 va \<Longrightarrow> pte_of root x (mu_tbl s') = pte_of root x (mu_tbl s)"
proof -
  obtain z p where al: "page_alloc k PG_KERNEL_TABLE (mu_zone s) = (z, Some p)"
    and s': "s' = s\<lparr>mu_zone := z, mu_tbl := set_pte (b, paging_index 1 va) (x86_mk_table (page_to_phys p) user) (zero_table (page_to_virt p) (mu_tbl s))\<rparr>"
    using ensure_absent [OF assms(4,5)] by auto
  note tp = table_page [OF assms(1) al]
  let ?t = "zero_table (page_to_virt p) (mu_tbl s)"
  have ok: "tables_ok root (mu_tbl s)" using assms(1) by (simp add: pt_ok_def)
  note z = pte_of_zero [of "page_to_virt p" root "mu_tbl s", OF tp(5,6)]
  have zok: "tables_ok root ?t" using ok tables_ok_row [of ?t root "mu_tbl s"] z(2) by simp
  have pr: "x86_present (?t root (paging_index 0 va))" using assms(2) z(2) by simp
  have zb: "x86_to_virt (?t root (paging_index 0 va)) = b" using assms(3) z(2) by simp
  note set = pte_of_set [OF zok pr, unfolded zb]
  have "b \<noteq> root" using assms(2,3) ok by (auto simp: tables_ok_def)
  then show row: "mu_tbl s' root = mu_tbl s root" using z(2) by (simp add: s' set_pte_def)
  show "drop_bit 12 x \<noteq> drop_bit 12 va \<Longrightarrow> pte_of root x (mu_tbl s') = pte_of root x (mu_tbl s)"
    using set(1) z(1) by (simp add: s' del: One_nat_def)
  have "pt_ok root s' (insert (p, k) A)"
    using assms(1) tp(1,2,4) set(2) row unfolding pt_ok_def by (auto simp: s')
  then show "\<exists>A'. A \<subseteq> A' \<and> pt_ok root s' A'" by blast
qed

text \<open>
  What a walk that creates tables does: it changes the mapping of no other page, and when it
  succeeds, the entry it returns is the one of the address.
\<close>

definition walk_effect :: "addr \<Rightarrow> addr \<Rightarrow> mmu \<Rightarrow> (nat \<times> nat) set \<Rightarrow> mmu \<Rightarrow> (addr \<times> nat) option \<Rightarrow> bool" where
  "walk_effect root va s A s' r \<longleftrightarrow> (\<exists>A'. A \<subseteq> A' \<and> pt_ok root s' A')
     \<and> (\<forall>x. drop_bit 12 x \<noteq> drop_bit 12 va \<longrightarrow> pte_of root x (mu_tbl s') = pte_of root x (mu_tbl s))
     \<and> (case r of
          None \<Rightarrow> \<forall>x. pte_of root x (mu_tbl s') = pte_of root x (mu_tbl s)
        | Some e \<Rightarrow> x86_present (mu_tbl s' root (paging_index 0 va))
            \<and> e = (x86_to_virt (mu_tbl s' root (paging_index 0 va)), paging_index 1 va))"

lemma alloc_failed:
  assumes "pt_ok root s A" and "page_alloc k PG_KERNEL_TABLE (mu_zone s) = (z, None)"
  shows "z = mu_zone s"
  using page_alloc_spec [of "mu_zone s" A PG_KERNEL_TABLE k] assms table_flags_plain by (auto simp: pt_ok_def page_owned_def)

lemma walk_below:
  assumes "pt_ok root s A" and "x86_present (mu_tbl s root (paging_index 0 va))"
    and "generic_walker (Suc m) 1 (x86_to_virt (mu_tbl s root (paging_index 0 va))) va True user k s = (s', r)"
  shows "walk_effect root va s A s' r"
proof (cases "x86_present (mu_tbl s (x86_to_virt (mu_tbl s root (paging_index 0 va))) (paging_index 1 va))")
  case True
  then have "s' = s" "r = Some (x86_to_virt (mu_tbl s root (paging_index 0 va)), paging_index 1 va)"
    using assms(3) by (auto simp: Let_def simp del: One_nat_def)
  then show ?thesis using assms(1,2) by (auto simp: walk_effect_def)
next
  case False
  let ?b = "x86_to_virt (mu_tbl s root (paging_index 0 va))"
  obtain s1 c where e: "ensure_table (?b, paging_index 1 va) user k s = (s1, c)"
    by (cases "ensure_table (?b, paging_index 1 va) user k s")
  show ?thesis
  proof (cases c)
    case None
    then have "s' = s1" "r = None" using assms(3) False e by (auto simp: Let_def simp del: One_nat_def)
    moreover have "s1 = s"
      using ensure_absent [OF False e] None alloc_failed [OF assms(1)] by auto
    ultimately show ?thesis using assms(1) by (auto simp: walk_effect_def)
  next
    case (Some d)
    then have r: "s' = s1" "r = Some (?b, paging_index 1 va)"
      using assms(3) False e by (auto simp: Let_def simp del: One_nat_def)
    note l = ensure_leaf [OF assms(1,2) refl False e [unfolded Some]]
    show ?thesis unfolding walk_effect_def r using l(1) l(3) assms(2) by (simp add: l(2))
  qed
qed

lemma walk_create_effect:
  assumes "pt_ok root s A" and "walk_create root va (Suc m) k user s = (s', r)"
  shows "walk_effect root va s A s' r"
proof -
  have leaf: "\<not> x86_leaf (mu_tbl s root i) 0" for i using assms(1) by (simp add: pt_ok_def tables_ok_def)
  have w: "generic_walker (Suc (Suc m)) 0 root va True user k s = (s', r)" using assms(2) by (simp only: walk_create_def)
  show ?thesis
  proof (cases "x86_present (mu_tbl s root (paging_index 0 va))")
    case True
    then have "generic_walker (Suc m) 1 (x86_to_virt (mu_tbl s root (paging_index 0 va))) va True user k s = (s', r)"
      using w leaf by (subst (asm) generic_walker.simps(2)) (simp only: Let_def if_True if_False One_nat_def)
    then show ?thesis by (rule walk_below [OF assms(1) True])
  next
    case False
    obtain s1 c where e: "ensure_table (root, paging_index 0 va) user 0 s = (s1, c)"
      by (cases "ensure_table (root, paging_index 0 va) user 0 s")
    have w1: "(case c of None \<Rightarrow> (s1, None) | Some d \<Rightarrow> generic_walker (Suc m) 1 d va True user k s1) = (s', r)"
      using w leaf False e by (subst (asm) generic_walker.simps(2)) (simp only: Let_def if_True if_False One_nat_def prod.case)
    show ?thesis
    proof (cases c)
      case None
      then have "s1 = s" using ensure_absent [OF False e] alloc_failed [OF assms(1)] by auto
      then show ?thesis using w1 None assms(1) by (auto simp: walk_effect_def)
    next
      case (Some d)
      note rt = ensure_root_table [OF assms(1) False e [unfolded Some]]
      obtain A1 where A1: "A \<subseteq> A1" "pt_ok root s1 A1" using rt(1) by blast
      have "walk_effect root va s1 A1 s' r"
        using walk_below [OF A1(2) rt(3)] w1 Some rt(4) by simp
      moreover from this obtain A' where "A \<subseteq> A'" "pt_ok root s' A'"
        using subset_trans [OF A1(1)] unfolding walk_effect_def by blast
      ultimately show ?thesis using rt(2) unfolding walk_effect_def by (auto split: option.splits)
    qed
  qed
qed

lemma map_page:
  assumes "pt_ok root s A" and "walk_create root va (Suc m) k user s = (s1, Some e)" and "x86_present v"
  shows "\<exists>A'. A \<subseteq> A' \<and> pt_ok root (s1\<lparr>mu_tbl := set_pte e v (mu_tbl s1)\<rparr>) A'"
    and "pte_of root x (set_pte e v (mu_tbl s1)) = (if drop_bit 12 x = drop_bit 12 va then Some v else pte_of root x (mu_tbl s))"
proof -
  note w = walk_create_effect [OF assms(1,2), unfolded walk_effect_def]
  obtain A' where A': "A \<subseteq> A'" "pt_ok root s1 A'" using w by blast
  have pr: "x86_present (mu_tbl s1 root (paging_index 0 va))"
    and e: "e = (x86_to_virt (mu_tbl s1 root (paging_index 0 va)), paging_index 1 va)" using w by simp_all
  have ok: "tables_ok root (mu_tbl s1)" using A'(2) by (simp add: pt_ok_def)
  note set = pte_of_set [OF ok pr, folded e]
  show "pte_of root x (set_pte e v (mu_tbl s1)) = (if drop_bit 12 x = drop_bit 12 va then Some v else pte_of root x (mu_tbl s))"
    using set(1) w assms(3) by simp
  have "set_pte e v (mu_tbl s1) root = mu_tbl s1 root" using ok pr e by (auto simp: set_pte_def tables_ok_def)
  then have "pt_ok root (s1\<lparr>mu_tbl := set_pte e v (mu_tbl s1)\<rparr>) A'" using A'(2) set(2) by (simp add: pt_ok_def)
  then show "\<exists>A'. A \<subseteq> A' \<and> pt_ok root (s1\<lparr>mu_tbl := set_pte e v (mu_tbl s1)\<rparr>) A'" using A'(1) by blast
qed

lemma munmap_page_pte:
  assumes "tables_ok root (mu_tbl s)"
  shows "pte_of root x (mu_tbl (munmap_page root va s)) = (if drop_bit 12 x = drop_bit 12 va then None else pte_of root x (mu_tbl s))"
    and "tables_ok root (mu_tbl (munmap_page root va s))"
proof -
  have leaf: "\<not> x86_leaf (mu_tbl s root i) 0" for i using assms by (simp add: tables_ok_def)
  have "pte_of root x (mu_tbl (munmap_page root va s)) = (if drop_bit 12 x = drop_bit 12 va then None else pte_of root x (mu_tbl s))
      \<and> tables_ok root (mu_tbl (munmap_page root va s))"
  proof (cases "walk_to root va (mu_tbl s)")
    case None
    then have "pte_of root va (mu_tbl s) = None"
      using leaf by (auto simp: walk_to_def pte_of_def Let_def split: if_splits)
    then show ?thesis using None assms pte_of_page [of x va] by (auto simp: munmap_page_def)
  next
    case (Some w)
    let ?b = "x86_to_virt (mu_tbl s root (paging_index 0 va))"
    have pr: "x86_present (mu_tbl s root (paging_index 0 va))" and w: "w = (paging_index 0 va, ?b, paging_index 1 va)"
      using Some by (auto simp: walk_to_def Let_def split: if_splits)
    let ?t = "set_pte (?b, paging_index 1 va) 0 (mu_tbl s)"
    note set = pte_of_set [OF assms pr, where v = 0]
    show ?thesis
    proof (cases "table_empty ?b ?t")
      case False
      then show ?thesis using set Some w by (simp add: munmap_page_def Let_def)
    next
      case True
      have empty: "\<not> x86_present (?t ?b (paging_index 1 y))" for y
      proof -
        have "paging_index 1 y < 1024"
        proof -
          have "drop_bit 12 y AND 0x3FF \<le> (0x3FF :: u32)" by (rule word_and_le1)
          then show ?thesis by (simp add: paging_index_def paging_shift_def word_le_nat_alt)
        qed
        then show ?thesis using True by (simp add: table_empty_def list_all_iff)
      qed
      have row: "?t root = mu_tbl s root" using assms pr by (auto simp: set_pte_def tables_ok_def)
      have e: "mu_tbl (munmap_page root va s) = set_pte (root, paging_index 0 va) 0 ?t"
        using True Some w by (simp add: munmap_page_def Let_def)
      have "pte_of root x (set_pte (root, paging_index 0 va) 0 ?t) = pte_of root x ?t"
      proof (cases "paging_index 0 x = paging_index 0 va")
        case True
        then show ?thesis using empty [of x] leaf pr row by (simp add: pte_of_def Let_def set_pte_def)
      next
        case False
        have n: "x86_to_virt (?t root (paging_index 0 x)) \<noteq> root" if "x86_present (?t root (paging_index 0 x))"
          using assms that unfolding row by (simp add: tables_ok_def)
        have "set_pte (root, paging_index 0 va) 0 ?t root (paging_index 0 x) = ?t root (paging_index 0 x)"
          using False by (simp add: set_pte_def)
        moreover have "set_pte (root, paging_index 0 va) 0 ?t (x86_to_virt (?t root (paging_index 0 x))) = ?t (x86_to_virt (?t root (paging_index 0 x)))"
          if "x86_present (?t root (paging_index 0 x))" using n [OF that] by (simp add: set_pte_def [of "(root, _)"])
        ultimately show ?thesis unfolding pte_of_def Let_def by simp
      qed
      moreover have "tables_ok root (set_pte (root, paging_index 0 va) 0 ?t)"
        using assms row by (auto simp: tables_ok_def set_pte_def)
      ultimately show ?thesis using set(1) unfolding e by simp
    qed
  qed
  then show "pte_of root x (mu_tbl (munmap_page root va s)) = (if drop_bit 12 x = drop_bit 12 va then None else pte_of root x (mu_tbl s))"
    and "tables_ok root (mu_tbl (munmap_page root va s))" by simp_all
qed

text \<open>The pages of a range, and the address of one of them.\<close>

definition page_at :: "addr \<Rightarrow> nat \<Rightarrow> addr" where
  "page_at va k = va + of_nat k * 0x1000"

definition in_pages :: "addr \<Rightarrow> nat \<Rightarrow> addr \<Rightarrow> bool" where
  "in_pages va n x \<longleftrightarrow> (\<exists>k<n. drop_bit 12 x = drop_bit 12 (page_at va k))"

lemma page_at_0 [simp]: "page_at va 0 = va"
  by (simp add: page_at_def)

lemma page_at_Suc: "page_at va (Suc k) = page_at (va + 0x1000) k"
  by (simp add: page_at_def algebra_simps)

lemma in_pages_Suc: "in_pages va (Suc n) x \<longleftrightarrow> drop_bit 12 x = drop_bit 12 va \<or> in_pages (va + 0x1000) n x"
  unfolding in_pages_def by (simp add: Ex_less_Suc2 page_at_Suc [symmetric])

lemma unat_pages: "n < 2 ^ 20 \<Longrightarrow> unat (of_nat n * 0x1000 :: u32) = n * 0x1000"
proof -
  assume "n < 2 ^ 20"
  then have "unat (of_nat (n * 0x1000) :: u32) = n * 0x1000" by (subst unat_of_nat) simp
  then show ?thesis by simp
qed

lemma page_at_inj:
  assumes "drop_bit 12 (page_at va j) = drop_bit 12 (page_at va k)" and "j < 2 ^ 20" and "k < 2 ^ 20"
  shows "j = k"
proof -
  have low: "unat (page_at va i) mod 4096 = unat va mod 4096" if "i < 2 ^ 20" for i
  proof -
    have "unat (of_nat i * 0x1000 :: addr) = i * 4096" using unat_pages [OF that] by simp
    then have "unat (page_at va i) = (unat va + i * 4096) mod 2 ^ 32" unfolding page_at_def by (simp add: unat_word_ariths(1))
    then have "unat (page_at va i) mod 4096 = (unat va + i * 4096) mod 2 ^ 32 mod 2 ^ 12" by simp
    also have "\<dots> = (unat va + i * 4096) mod 2 ^ 12" by (rule mod_mod_cancel) (rule le_imp_power_dvd, simp)
    finally show ?thesis by simp
  qed
  have "unat (page_at va j) div 4096 = unat (page_at va k) div 4096"
    using arg_cong [OF assms(1), of unat] unfolding unat_drop_bit_eq drop_bit_eq_div by (simp add: unat_div)
  then have "unat (page_at va j) = unat (page_at va k)"
    using low [OF assms(2)] low [OF assms(3)] by (metis div_mult_mod_eq)
  then have "page_at va j = page_at va k" by (simp add: word_unat_eq_iff)
  then have "(of_nat (j * 0x1000) :: addr) = of_nat (k * 0x1000)" by (simp add: page_at_def)
  moreover have "unat (of_nat (i * 0x1000) :: addr) = i * 0x1000" if "i < 2 ^ 20" for i
    using that by (subst unat_of_nat) simp
  ultimately show ?thesis using assms(2,3) by (metis mult_right_cancel zero_neq_numeral)
qed

lemma munmap_loop_pte:
  assumes "tables_ok root (mu_tbl s)"
  shows "pte_of root x (mu_tbl (munmap_loop n root va s)) = (if in_pages va n x then None else pte_of root x (mu_tbl s))"
  using assms
proof (induction n arbitrary: va s)
  case 0
  then show ?case by (simp add: in_pages_def)
next
  case (Suc n)
  then show ?case using munmap_page_pte(1) [OF Suc.prems, of x va] Suc.IH [OF munmap_page_pte(2) [OF Suc.prems]]
    by (simp add: in_pages_Suc)
qed

lemma choose_small: "choose_page_size (check_pse False) (check_pse False) va sz = \<lparr>ps_level = 2, ps_order = 0, ps_size = 0x1000, ps_flag = 0\<rparr>"
  by (simp add: check_pse_def)

lemma pages_positive: "0 < n \<Longrightarrow> n < 2 ^ 20 \<Longrightarrow> (of_nat n * 0x1000 :: u32) > 0"
  using unat_pages [of n] by (simp add: word_less_nat_alt)

lemma pages_of_size: "n < 2 ^ 20 \<Longrightarrow> unat ((of_nat n * 0x1000 :: u32) div 0x1000) = n"
  using unat_pages [of n] by (simp add: unat_div)

lemma pages_inj:
  assumes "(of_nat m * 0x1000 :: u32) = of_nat n * 0x1000" and "m < 2 ^ 20" and "n < 2 ^ 20"
  shows "m = n"
  using arg_cong [OF assms(1), of "\<lambda>w. unat (w div 0x1000)"] unfolding pages_of_size [OF assms(2)] pages_of_size [OF assms(3)] .

lemma aligned_pages: "n < 2 ^ 20 \<Longrightarrow> ALIGN_UP (of_nat n * 0x1000 :: u32) 0x1000 = of_nat n * 0x1000"
proof -
  assume n: "n < 2 ^ 20"
  have "(n * 0x1000 + 4095) mod 4096 = 4095" by simp
  then have "unat (ALIGN_UP (of_nat n * 0x1000 :: u32) (2 ^ 12)) = n * 0x1000"
    using n by (subst unat_ALIGN_UP) (simp_all add: unat_pages)
  then show ?thesis using unat_pages [OF n] by (simp add: word_unat_eq_iff)
qed

text \<open>The mapping loop with \<open>n\<close> of \<open>N\<close> pages to go.\<close>

lemma mmap_loop_correct:
  assumes "pt_ok root s A" and "n \<le> N" and "N < 2 ^ 20" and "\<forall>x. in_pages va n x \<longrightarrow> in_pages first N x"
  shows "\<exists>s' r. mmap_loop (check_pse False) root fl first (of_nat N * 0x1000) pa va (of_nat n * 0x1000) s = Some (s', r)
    \<and> (\<forall>x. \<not> in_pages first N x \<longrightarrow> pte_of root x (mu_tbl s') = pte_of root x (mu_tbl s))
    \<and> (case r of
         Inr _ \<Rightarrow> (\<exists>A'. A \<subseteq> A' \<and> pt_ok root s' A')
           \<and> (\<forall>x. \<not> in_pages va n x \<longrightarrow> pte_of root x (mu_tbl s') = pte_of root x (mu_tbl s))
           \<and> (\<forall>k<n. pte_of root (page_at va k) (mu_tbl s') = Some (x86_mk_pte (page_at pa k) (mmu_flags_arch fl)))
       | Inl e \<Rightarrow> e = ENOMEM \<and> (\<forall>x. in_pages first N x \<longrightarrow> pte_of root x (mu_tbl s') = None
           \<or> n = N \<and> pte_of root x (mu_tbl s') = pte_of root x (mu_tbl s)))"
  using assms
proof (induction n arbitrary: pa va s A)
  case 0
  show ?case using "0.prems"(1) by (subst mmap_loop.simps) auto
next
  case (Suc n)
  let ?v = "x86_mk_pte pa (mmu_flags_arch fl)"
  have pos: "(of_nat (Suc n) * 0x1000 :: u32) > 0" using Suc.prems(2,3) by (intro pages_positive) simp_all
  have minus: "(of_nat (Suc n) * 0x1000 :: u32) - 0x1000 = of_nat n * 0x1000" by (simp add: algebra_simps)
  obtain s1 r where w: "walk_create root va 2 0 (fl AND MEM_USER \<noteq> 0) s = (s1, r)"
    by (cases "walk_create root va 2 0 (fl AND MEM_USER \<noteq> 0) s")
  note w' = w [unfolded numeral_2_eq_2]
  show ?case
  proof (cases r)
    case None
    note eff = walk_create_effect [OF Suc.prems(1) w' [unfolded None], unfolded walk_effect_def]
    have ok: "tables_ok root (mu_tbl s1)" using eff by (auto simp: pt_ok_def)
    have same: "pte_of root x (mu_tbl s1) = pte_of root x (mu_tbl s)" for x using eff by simp
    have un: "pte_of root x (mu_tbl (mmu_munmap root first (of_nat N * 0x1000) s1))
        = (if in_pages first N x then None else pte_of root x (mu_tbl s))" for x
      unfolding mmu_munmap_def aligned_pages [OF Suc.prems(3)] pages_of_size [OF Suc.prems(3)] munmap_loop_pte [OF ok] same ..
    have step: "mmap_loop (check_pse False) root fl first (of_nat N * 0x1000) pa va (of_nat (Suc n) * 0x1000) s
        = Some (if (of_nat (Suc n) * 0x1000 :: u32) \<noteq> of_nat N * 0x1000 then mmu_munmap root first (of_nat N * 0x1000) s1 else s1, Inl ENOMEM)"
      using pos w None by (subst mmap_loop.simps) (simp add: choose_small Let_def)
    show ?thesis
    proof (cases "Suc n = N")
      case True
      then have "mmap_loop (check_pse False) root fl first (of_nat N * 0x1000) pa va (of_nat (Suc n) * 0x1000) s = Some (s1, Inl ENOMEM)"
        using step by simp
      then show ?thesis using same True by (intro exI [of _ s1], intro exI [of _ "Inl ENOMEM"]) simp
    next
      case False
      then have "mmap_loop (check_pse False) root fl first (of_nat N * 0x1000) pa va (of_nat (Suc n) * 0x1000) s
          = Some (mmu_munmap root first (of_nat N * 0x1000) s1, Inl ENOMEM)"
        using step pages_inj [of "Suc n" N] Suc.prems(2,3) by auto
      then show ?thesis using un by (intro exI [of _ "mmu_munmap root first (of_nat N * 0x1000) s1"], intro exI [of _ "Inl ENOMEM"]) simp
    qed
  next
    case (Some e)
    let ?s = "s1\<lparr>mu_tbl := set_pte e ?v (mu_tbl s1)\<rparr>"
    note mp = map_page [OF Suc.prems(1) w' [unfolded Some] mk_pte_present [of pa "mmu_flags_arch fl"]]
    obtain A1 where A1: "A \<subseteq> A1" "pt_ok root ?s A1" using mp(1) by blast
    have step: "mmap_loop (check_pse False) root fl first (of_nat N * 0x1000) pa va (of_nat (Suc n) * 0x1000) s
        = mmap_loop (check_pse False) root fl first (of_nat N * 0x1000) (pa + 0x1000) (va + 0x1000) (of_nat n * 0x1000) ?s"
      using pos w Some minus by (subst mmap_loop.simps) (simp add: choose_small Let_def)
    have "\<forall>x. in_pages (va + 0x1000) n x \<longrightarrow> in_pages first N x" and va: "in_pages first N va"
      using Suc.prems(4) by (auto simp: in_pages_Suc)
    from Suc.IH [OF A1(2) _ Suc.prems(3) this(1), of "pa + 0x1000"] Suc.prems(2)
    obtain s' r' where ih: "mmap_loop (check_pse False) root fl first (of_nat N * 0x1000) (pa + 0x1000) (va + 0x1000) (of_nat n * 0x1000) ?s = Some (s', r')"
      "\<forall>x. \<not> in_pages first N x \<longrightarrow> pte_of root x (mu_tbl s') = pte_of root x (mu_tbl ?s)"
      "case r' of
         Inr _ \<Rightarrow> (\<exists>A'. A1 \<subseteq> A' \<and> pt_ok root s' A')
           \<and> (\<forall>x. \<not> in_pages (va + 0x1000) n x \<longrightarrow> pte_of root x (mu_tbl s') = pte_of root x (mu_tbl ?s))
           \<and> (\<forall>k<n. pte_of root (page_at (va + 0x1000) k) (mu_tbl s') = Some (x86_mk_pte (page_at (pa + 0x1000) k) (mmu_flags_arch fl)))
       | Inl e \<Rightarrow> e = ENOMEM \<and> (\<forall>x. in_pages first N x \<longrightarrow> pte_of root x (mu_tbl s') = None
           \<or> n = N \<and> pte_of root x (mu_tbl s') = pte_of root x (mu_tbl ?s))"
      by auto
    have t: "pte_of root x (mu_tbl ?s) = (if drop_bit 12 x = drop_bit 12 va then Some ?v else pte_of root x (mu_tbl s))" for x
      using mp(2) by simp
    have out: "pte_of root x (mu_tbl s') = pte_of root x (mu_tbl s)" if "\<not> in_pages first N x" for x
    proof -
      have "drop_bit 12 x \<noteq> drop_bit 12 va" using that va by (auto simp: in_pages_def)
      then show ?thesis using ih(2) that t by simp
    qed
    show ?thesis
    proof (cases r')
      case (Inl e')
      then show ?thesis using ih(1,3) step out Suc.prems(2)
        by (intro exI [of _ s'], intro exI [of _ r']) (auto simp del: of_nat_Suc)
    next
      case (Inr u)
      have not_va: "\<not> in_pages (va + 0x1000) n va"
      proof
        assume "in_pages (va + 0x1000) n va"
        then obtain k where "k < n" "drop_bit 12 (page_at va 0) = drop_bit 12 (page_at va (Suc k))"
          by (auto simp: in_pages_def page_at_Suc)
        then show False using page_at_inj [of va 0 "Suc k"] Suc.prems(2,3) by simp
      qed
      have i: "\<exists>A'. A1 \<subseteq> A' \<and> pt_ok root s' A'"
        "\<forall>x. \<not> in_pages (va + 0x1000) n x \<longrightarrow> pte_of root x (mu_tbl s') = pte_of root x (mu_tbl ?s)"
        "\<forall>k<n. pte_of root (page_at (va + 0x1000) k) (mu_tbl s') = Some (x86_mk_pte (page_at (pa + 0x1000) k) (mmu_flags_arch fl))"
        using ih(3) Inr by simp_all
      have "\<exists>A'. A \<subseteq> A' \<and> pt_ok root s' A'" using i(1) A1(1) by blast
      moreover have "\<forall>x. \<not> in_pages va (Suc n) x \<longrightarrow> pte_of root x (mu_tbl s') = pte_of root x (mu_tbl s)"
        using i(2) t by (simp add: in_pages_Suc)
      moreover have "pte_of root (page_at va k) (mu_tbl s') = Some (x86_mk_pte (page_at pa k) (mmu_flags_arch fl))" if "k < Suc n" for k
      proof (cases k)
        case 0
        then show ?thesis using i(2) not_va t by simp
      next
        case (Suc j)
        then show ?thesis using i(3) that by (simp add: page_at_Suc)
      qed
      ultimately show ?thesis using ih(1) step out Inr
        by (intro exI [of _ s'], intro exI [of _ r']) (simp del: of_nat_Suc)
    qed
  qed
qed


text \<open>A root outside the pages of the example zone, empty and with one table that maps one page.\<close>

definition demo_mmu :: mmu where
  "demo_mmu = \<lparr>mu_tbl = (\<lambda>_ _. 0), mu_zone = fresh_zone, mu_mem = []\<rparr>"

definition demo_mapped :: mmu where
  "demo_mapped = demo_mmu\<lparr>mu_tbl := (\<lambda>t i. if t = 0xC1000000 \<and> i = 2 then 0x1001007
     else if t = 0xC1001000 \<and> i = 0 then 0x5007 else 0)\<rparr>"

lemma demo_outside:
  assumes "1024 \<le> virt_to_page a"
  shows "a \<notin> page_to_virt ` free_set fresh_zone"
proof
  have own: "page_owned fresh_zone {}" using fresh_zone_ok by (simp add: page_owned_def)
  assume "a \<in> page_to_virt ` free_set fresh_zone"
  then obtain p where p: "p \<in> free_set fresh_zone" "a = page_to_virt p" by auto
  have "p < 1024" using free_set_bound [OF own p(1)] fresh_zone_fields(1) by simp
  moreover from this have "virt_to_page (page_to_virt p) = p" by (intro virt_to_page_to_virt) simp
  ultimately show False using assms p(2) by simp
qed

lemma demo_mmu_ok: "pt_ok 0xC1000000 demo_mmu {}" "pt_ok 0xC1000000 demo_mapped {}"
proof -
  have own: "page_owned fresh_zone {}" using fresh_zone_ok by (simp add: page_owned_def)
  have o: "0xC1000000 \<notin> page_to_virt ` free_set fresh_zone" "0xC1001000 \<notin> page_to_virt ` free_set fresh_zone"
    by (intro demo_outside; simp add: virt_to_page_def phys_to_page_def config_defs)+
  show "pt_ok 0xC1000000 demo_mmu {}" using own o fresh_zone_fields(1) by (simp add: pt_ok_def tables_ok_def demo_mmu_def)
  have v: "x86_to_virt 0x1001007 = 0xC1001000" "\<not> x86_leaf 0x1001007 0"
    by (simp_all add: x86_to_virt_def x86_pte_phys_def x86_leaf_def PAGE_MASK_def PAGE_PSIZE_def config_defs)
  show "pt_ok 0xC1000000 demo_mapped {}"
    using own o fresh_zone_fields(1) v by (simp add: pt_ok_def tables_ok_def demo_mmu_def demo_mapped_def)
qed


text \<open>
  C20. Each new page costs a second one. When the table of an address exists and its entry is empty,
  mapping one page takes another page from the allocator, clears it, and then overwrites the only
  entry that refers to it: the page is lost.
\<close>

theorem mmu_mmap_loses_page:
  assumes "pt_ok root s A" and "x86_present (mu_tbl s root (paging_index 0 va))"
    and "b = x86_to_virt (mu_tbl s root (paging_index 0 va))" and "\<not> x86_present (mu_tbl s b (paging_index 1 va))"
    and "page_alloc 0 PG_KERNEL_TABLE (mu_zone s) = (z, Some p)"
  shows "mmu_mmap (check_pse False) root pa va 0x1000 fl s
      = Some (s\<lparr>mu_zone := z, mu_tbl := set_pte (b, paging_index 1 va) (x86_mk_pte pa (mmu_flags_arch fl)) (zero_table (page_to_virt p) (mu_tbl s))\<rparr>, Inr ())
    \<and> p \<in> free_set (mu_zone s) \<and> p \<notin> free_set z"
proof -
  have leaf: "\<not> x86_leaf (mu_tbl s root i) 0" for i using assms(1) by (simp add: pt_ok_def tables_ok_def)
  let ?s = "s\<lparr>mu_zone := z, mu_tbl := set_pte (b, paging_index 1 va) (x86_mk_table (page_to_phys p) (fl AND MEM_USER \<noteq> 0)) (zero_table (page_to_virt p) (mu_tbl s))\<rparr>"
  have e: "ensure_table (b, paging_index 1 va) (fl AND MEM_USER \<noteq> 0) 0 s = (?s, Some (page_to_virt p))"
    using assms(4,5) by (simp add: ensure_table_def)
  have w: "walk_create root va 2 0 (fl AND MEM_USER \<noteq> 0) s = (?s, Some (b, paging_index 1 va))"
    using assms(2,3,4) leaf e by (simp add: walk_create_def Let_def numeral_2_eq_2)
  have al: "ALIGN_UP 0x1000 0x1000 = (0x1000 :: u32)" using aligned_pages [of 1] by simp
  have "mmap_loop (check_pse False) root fl va 0x1000 pa va 0x1000 s
      = mmap_loop (check_pse False) root fl va 0x1000 (pa + 0x1000) (va + 0x1000) 0
          (?s\<lparr>mu_tbl := set_pte (b, paging_index 1 va) (x86_mk_pte pa (mmu_flags_arch fl)) (mu_tbl ?s)\<rparr>)"
    using w by (subst mmap_loop.simps) (simp add: choose_small Let_def)
  also have "\<dots> = Some (?s\<lparr>mu_tbl := set_pte (b, paging_index 1 va) (x86_mk_pte pa (mmu_flags_arch fl)) (mu_tbl ?s)\<rparr>, Inr ())"
    by (subst mmap_loop.simps) simp
  finally have "mmu_mmap (check_pse False) root pa va 0x1000 fl s
      = Some (?s\<lparr>mu_tbl := set_pte (b, paging_index 1 va) (x86_mk_pte pa (mmu_flags_arch fl)) (mu_tbl ?s)\<rparr>, Inr ())"
    by (simp add: mmu_mmap_def al)
  moreover have "set_pte e v (set_pte e w t) = set_pte e v t" for e v w t by (simp add: set_pte_def)
  ultimately show ?thesis using table_page [OF assms(1,5)] head_in_blk [of p 0] by simp
qed

lemma demo_index:
  "paging_index 0 0x800000 = 2" "paging_index 1 0x800000 = 0" "paging_index 0 0x801000 = 2" "paging_index 1 0x801000 = 1"
  by (simp_all add: paging_index_def paging_shift_def)

lemma demo_present: "x86_present 0x1001007" "x86_present 0x5007" "x86_to_virt 0x1001007 = 0xC1001000" "\<not> x86_leaf 0x1001007 0"
  by (simp_all add: x86_present_def x86_to_virt_def x86_pte_phys_def x86_leaf_def PAGE_MASK_def PAGE_PSIZE_def PAGE_P_def config_defs)

theorem mmu_mmap_loses_page_witness:
  "\<exists>s' p. mmu_mmap (check_pse False) 0xC1000000 0x6000 0x801000 0x1000 6 demo_mapped = Some (s', Inr ())
    \<and> p \<in> free_set (mu_zone demo_mapped) \<and> p \<notin> free_set (mu_zone s')"
proof -
  obtain z r where a: "page_alloc 0 PG_KERNEL_TABLE (mu_zone demo_mapped) = (z, r)"
    by (cases "page_alloc 0 PG_KERNEL_TABLE (mu_zone demo_mapped)")
  have "r \<noteq> None"
  proof
    assume "r = None"
    then have "\<forall>k\<ge>0. free_list fresh_zone k = []"
      using page_alloc_spec [OF fresh_zone_ok table_flags_plain, of 0] a by (simp add: demo_mapped_def demo_mmu_def)
    then show False by (auto simp: fresh_zone_def dest: spec [of _ 10])
  qed
  then obtain p where p: "page_alloc 0 PG_KERNEL_TABLE (mu_zone demo_mapped) = (z, Some p)" using a by blast
  have c: "x86_present (mu_tbl demo_mapped 0xC1000000 (paging_index 0 0x801000))"
    "0xC1001000 = x86_to_virt (mu_tbl demo_mapped 0xC1000000 (paging_index 0 0x801000))"
    "\<not> x86_present (mu_tbl demo_mapped 0xC1001000 (paging_index 1 0x801000))"
    by (simp_all add: demo_index [unfolded One_nat_def] demo_present demo_mapped_def)
  from mmu_mmap_loses_page [OF demo_mmu_ok(2) c p, of "0x6000" 6] show ?thesis
    by (intro exI [of _ "demo_mapped\<lparr>mu_zone := z, mu_tbl := set_pte (0xC1001000, paging_index 1 0x801000) (x86_mk_pte 0x6000 (mmu_flags_arch 6))
        (zero_table (page_to_virt p) (mu_tbl demo_mapped))\<rparr>"], intro exI [of _ p]) simp
qed



subsection \<open>Copy on write\<close>

definition cow :: "u32 \<Rightarrow> u32" where
  "cow e = (let flags = arch_mmu_flags (x86_pte_flags e)
     in if flags AND MEM_WRITE \<noteq> 0 \<and> flags AND MEM_USER \<noteq> 0 then x86_mk_pte (x86_pte_phys e) (mmu_flags_arch (flags AND NOT MEM_WRITE)) else e)"

text \<open>The references a table holds on a page, among its entries from \<open>m\<close> on.\<close>

definition leaf_refs :: "(nat \<Rightarrow> u32) \<Rightarrow> nat \<Rightarrow> nat \<Rightarrow> nat" where
  "leaf_refs row m q = card {i. m \<le> i \<and> i < 1024 \<and> x86_present (row i) \<and> phys_to_page (x86_pte_phys (row i)) = q}"

lemma leaf_refs_step:
  assumes "m < 1024"
  shows "leaf_refs row m q = (if x86_present (row m) \<and> phys_to_page (x86_pte_phys (row m)) = q then 1 else 0) + leaf_refs row (Suc m) q"
proof -
  let ?P = "\<lambda>i. x86_present (row i) \<and> phys_to_page (x86_pte_phys (row i)) = q"
  have "{i. m \<le> i \<and> i < 1024 \<and> ?P i} = (if ?P m then {m} else {}) \<union> {i. Suc m \<le> i \<and> i < 1024 \<and> ?P i}"
    using assms by (auto simp: le_eq_less_or_eq)
  moreover have "finite {i. Suc m \<le> i \<and> i < 1024 \<and> ?P i}" by (rule finite_subset [of _ "{..<1024}"]) auto
  ultimately show ?thesis unfolding leaf_refs_def by (simp add: card_insert_if)
qed

lemma leaf_refs_end [simp]: "leaf_refs row 1024 q = 0"
proof -
  have "{i. 1024 \<le> i \<and> i < 1024 \<and> x86_present (row i) \<and> phys_to_page (x86_pte_phys (row i)) = q} = {}" by auto
  then show ?thesis unfolding leaf_refs_def by simp
qed

lemma leaf_refs_cong: "(\<And>i. m \<le> i \<Longrightarrow> row i = row' i) \<Longrightarrow> leaf_refs row m q = leaf_refs row' m q"
  unfolding leaf_refs_def by (intro arg_cong [of _ _ card]) auto

lemma cow_mk [simp]: "x86_present e \<Longrightarrow> x86_present (cow e)"
  by (simp add: cow_def Let_def)

lemma clone_leaf_effect:
  fixes s :: mmu and i :: nat
  assumes "N \<noteq> T"
  defines "e \<equiv> mu_tbl s T i"
  shows "mu_tbl (clone_leaf T N i s) = (mu_tbl s)(T := (mu_tbl s T)(i := cow e), N := (mu_tbl s N)(i := cow e))"
    and "pg_refcount (pages (mu_zone (clone_leaf T N i s)) q)
      = pg_refcount (pages (mu_zone s) q) + (if phys_to_page (x86_pte_phys e) = q then 1 else 0)"
    and "free_list (mu_zone (clone_leaf T N i s)) = free_list (mu_zone s)" and "mu_mem (clone_leaf T N i s) = mu_mem s"
  using assms by (auto simp: clone_leaf_def Let_def cow_def set_pte_def page_get_def fun_eq_iff)

lemma user_entry:
  assumes "base \<le> 0xBFC00000" and "i < 1024"
  shows "\<not> entry_va 1 base i \<ge> USER_SPACE_END"
proof -
  have "unat (push_bit 12 (of_nat i) :: addr) = i * 4096"
    using assms(2) unat_pages [of i] by (simp add: push_bit_eq_mult mult.commute)
  moreover have "unat base \<le> 0xBFC00000" using assms(1) by (simp add: word_le_nat_alt)
  ultimately have "unat (entry_va 1 base i) = unat base + i * 4096"
    using assms(2) unfolding entry_va_def paging_shift_def by (simp add: unat_add_no_wrap)
  then show ?thesis using assms(2) \<open>unat base \<le> 0xBFC00000\<close> by (simp add: word_le_nat_alt USER_SPACE_END_def)
qed

lemma clone_table_loop:
  assumes "base \<le> 0xBFC00000" and "N \<noteq> T" and "n \<le> 1024"
  shows "\<exists>s'. clone_entries d T N p 1 base n mods s = (s', Some N)
    \<and> (\<forall>i. mu_tbl s' T i = (if 1024 - n \<le> i \<and> i < 1024 \<and> x86_present (mu_tbl s T i) then cow (mu_tbl s T i) else mu_tbl s T i))
    \<and> (\<forall>i. mu_tbl s' N i = (if 1024 - n \<le> i \<and> i < 1024 \<and> x86_present (mu_tbl s T i) then cow (mu_tbl s T i) else mu_tbl s N i))
    \<and> (\<forall>a. a \<noteq> T \<longrightarrow> a \<noteq> N \<longrightarrow> mu_tbl s' a = mu_tbl s a)
    \<and> (\<forall>q. pg_refcount (pages (mu_zone s') q) = pg_refcount (pages (mu_zone s) q) + of_nat (leaf_refs (mu_tbl s T) (1024 - n) q))
    \<and> free_list (mu_zone s') = free_list (mu_zone s) \<and> mu_mem s' = mu_mem s"
  using assms(3)
proof (induction n arbitrary: mods s)
  case 0
  then show ?case by auto
next
  case (Suc n)
  define m where "m = 1024 - Suc n"
  have i: "m < 1024" "Suc m = 1024 - n" using Suc.prems unfolding m_def by linarith+
  show ?case
  proof (cases "x86_present (mu_tbl s T m)")
    case False
    have e: "clone_entries d T N p 1 base (Suc n) mods s = clone_entries d T N p 1 base n mods s"
      using False unfolding clone_entries.simps(2) Let_def m_def [symmetric] by simp
    obtain s' where s': "clone_entries d T N p 1 base n mods s = (s', Some N)"
      "\<forall>i. mu_tbl s' T i = (if 1024 - n \<le> i \<and> i < 1024 \<and> x86_present (mu_tbl s T i) then cow (mu_tbl s T i) else mu_tbl s T i)"
      "\<forall>i. mu_tbl s' N i = (if 1024 - n \<le> i \<and> i < 1024 \<and> x86_present (mu_tbl s T i) then cow (mu_tbl s T i) else mu_tbl s N i)"
      "\<forall>a. a \<noteq> T \<longrightarrow> a \<noteq> N \<longrightarrow> mu_tbl s' a = mu_tbl s a"
      "\<forall>q. pg_refcount (pages (mu_zone s') q) = pg_refcount (pages (mu_zone s) q) + of_nat (leaf_refs (mu_tbl s T) (1024 - n) q)"
      "free_list (mu_zone s') = free_list (mu_zone s)" "mu_mem s' = mu_mem s"
      using Suc.IH [of mods s] Suc.prems by auto
    have b: "(m \<le> j) = (j = m \<or> 1024 - n \<le> j)" for j using i by linarith
    show ?thesis unfolding e m_def [symmetric] using s' False leaf_refs_step [OF i(1), of "mu_tbl s T"] i(2) b
      by (intro exI [of _ s'] conjI) simp_all
  next
    case True
    let ?s = "clone_leaf T N m s" and ?mods = "mods @ [((T, m), mu_tbl s T m)]"
    note eff = clone_leaf_effect [OF assms(2), where s = s and i = m]
    have e: "clone_entries d T N p 1 base (Suc n) mods s = clone_entries d T N p 1 base n ?mods ?s"
      using True user_entry [OF assms(1) i(1)] unfolding clone_entries.simps(2) Let_def m_def [symmetric] by simp
    obtain s' where s': "clone_entries d T N p 1 base n ?mods ?s = (s', Some N)"
      "\<forall>i. mu_tbl s' T i = (if 1024 - n \<le> i \<and> i < 1024 \<and> x86_present (mu_tbl ?s T i) then cow (mu_tbl ?s T i) else mu_tbl ?s T i)"
      "\<forall>i. mu_tbl s' N i = (if 1024 - n \<le> i \<and> i < 1024 \<and> x86_present (mu_tbl ?s T i) then cow (mu_tbl ?s T i) else mu_tbl ?s N i)"
      "\<forall>a. a \<noteq> T \<longrightarrow> a \<noteq> N \<longrightarrow> mu_tbl s' a = mu_tbl ?s a"
      "\<forall>q. pg_refcount (pages (mu_zone s') q) = pg_refcount (pages (mu_zone ?s) q) + of_nat (leaf_refs (mu_tbl ?s T) (1024 - n) q)"
      "free_list (mu_zone s') = free_list (mu_zone ?s)" "mu_mem s' = mu_mem ?s"
      using Suc.IH [of ?mods ?s] Suc.prems by auto
    have T: "mu_tbl ?s T j = (if j = m then cow (mu_tbl s T m) else mu_tbl s T j)"
      and N: "mu_tbl ?s N j = (if j = m then cow (mu_tbl s T m) else mu_tbl s N j)" for j
      using assms(2) by (simp_all add: eff(1))
    have refs: "leaf_refs (mu_tbl ?s T) (1024 - n) q = leaf_refs (mu_tbl s T) (Suc m) q" for q
      unfolding i(2) by (rule leaf_refs_cong) (use i(2) in \<open>auto simp: T\<close>)
    have b: "(m \<le> j) = (j = m \<or> 1024 - n \<le> j)" and c: "1024 - n \<le> j \<Longrightarrow> j \<noteq> m" for j using i by linarith+
    have "mu_tbl s' T j = (if m \<le> j \<and> j < 1024 \<and> x86_present (mu_tbl s T j) then cow (mu_tbl s T j) else mu_tbl s T j)" for j
      using s'(2) T [of j] b [of j] c [of j] i(1) True by auto
    moreover have "mu_tbl s' N j = (if m \<le> j \<and> j < 1024 \<and> x86_present (mu_tbl s T j) then cow (mu_tbl s T j) else mu_tbl s N j)" for j
      using s'(3) T [of j] N [of j] b [of j] c [of j] i(1) True by auto
    moreover have "mu_tbl s' a = mu_tbl s a" if "a \<noteq> T" "a \<noteq> N" for a using s'(4) that by (simp add: eff(1))
    moreover have "pg_refcount (pages (mu_zone s') q) = pg_refcount (pages (mu_zone s) q) + of_nat (leaf_refs (mu_tbl s T) m q)" for q
      using s'(5) True by (simp add: eff(2) refs leaf_refs_step [OF i(1), of "mu_tbl s T" q])
    ultimately show ?thesis unfolding e m_def [symmetric] using s'(1,6,7) eff(3,4) by (intro exI [of _ s'] conjI) auto
  qed
qed

lemmas mem_defs = MEM_READ_def MEM_WRITE_def MEM_USER_def MEM_GLOBAL_def MEM_DEVICE_def MEM_HUGE_PAGE_def

lemma arch_mmu_flags_bits:
  "arch_mmu_flags f AND MEM_WRITE \<noteq> 0 \<longleftrightarrow> bit f 1" "arch_mmu_flags f AND MEM_USER \<noteq> 0 \<longleftrightarrow> bit f 2"
proof -
  have b: "bit (arch_mmu_flags f) 1 \<longleftrightarrow> bit f 1" "bit (arch_mmu_flags f) 2 \<longleftrightarrow> bit f 2"
    unfolding arch_mmu_flags_def Let_def flag_bits(3,4) mem_defs by (simp_all add: bit_simps)
  show "arch_mmu_flags f AND MEM_WRITE \<noteq> 0 \<longleftrightarrow> bit f 1" "arch_mmu_flags f AND MEM_USER \<noteq> 0 \<longleftrightarrow> bit f 2"
    using b flag_bit [of "arch_mmu_flags f" 1] flag_bit [of "arch_mmu_flags f" 2] by (simp_all add: mem_defs)
qed

lemma mmu_flags_arch_bits: "bit (mmu_flags_arch f) 1 \<longleftrightarrow> bit f 1" "bit (mmu_flags_arch f) 2 \<longleftrightarrow> bit f 2"
proof -
  have w: "f AND MEM_WRITE \<noteq> 0 \<longleftrightarrow> bit f 1" "f AND MEM_USER \<noteq> 0 \<longleftrightarrow> bit f 2"
    using flag_bit [of f 1] flag_bit [of f 2] by (simp_all add: mem_defs)
  show "bit (mmu_flags_arch f) 1 \<longleftrightarrow> bit f 1" "bit (mmu_flags_arch f) 2 \<longleftrightarrow> bit f 2"
    unfolding mmu_flags_arch_def Let_def w pte_defs by (simp_all add: bit_simps)
qed

lemma cow_entry:
  "x86_pte_phys (cow e) = x86_pte_phys e" "x86_present e \<Longrightarrow> x86_present (cow e)" "bit e 2 \<Longrightarrow> \<not> bit (cow e) 1"
proof -
  have m: "(x86_pte_phys e AND PAGE_MASK) = x86_pte_phys e" by (simp add: x86_pte_phys_def and.assoc)
  show "x86_pte_phys (cow e) = x86_pte_phys e" by (simp add: cow_def Let_def pte_phys_mk m)
  show "x86_present e \<Longrightarrow> x86_present (cow e)" by simp
  have f: "bit (x86_pte_flags e) n \<longleftrightarrow> bit e n" if "n < 12" for n
    using that by (simp add: x86_pte_flags_def masks bit_simps)
  have c: "bit (x86_mk_pte (x86_pte_phys e) (mmu_flags_arch (g AND NOT MEM_WRITE))) 1 = False" for g
    unfolding x86_mk_pte_def masks PAGE_P_def using mmu_flags_arch_bits(1) [of "g AND NOT MEM_WRITE"]
    by (simp add: bit_simps bit_small mem_defs)
  show "bit e 2 \<Longrightarrow> \<not> bit (cow e) 1"
    unfolding cow_def Let_def arch_mmu_flags_bits using f c [unfolded One_nat_def] by simp
qed



end
