(* ===== verification/Wey_Fault.thy ===== *)
theory Wey_Fault
  imports Wey_Mmu Wey_Vma
begin

text \<open>
  Page faults: \<open>arch/i386/kernel/fault.c\<close> and the exception table of \<open>core/extable.c\<close>. The state is
  that of the page tables and the contents of page frames; the address space of the current task
  gives the root and the regions. Reading a file at an offset is an argument.
\<close>

unbundle bit_operations_syntax

definition MEM_EXEC :: u32 where "MEM_EXEC = 0x1000"
definition MEM_GROWSDOWN :: u32 where "MEM_GROWSDOWN = 0x8000"

record fault_sys =
  fl_mmu :: mmu
  fl_frames :: "nat \<Rightarrow> u8 list"

record pf_info =
  pf_addr :: addr
  pf_present :: bool
  pf_write :: bool
  pf_user :: bool
  pf_exec :: bool

definition pf_decode :: "u32 \<Rightarrow> addr \<Rightarrow> pf_info" where
  "pf_decode err cr2 =
     \<lparr>pf_addr = cr2, pf_present = bit err 0, pf_write = bit err 1, pf_user = bit err 2, pf_exec = bit err 4\<rparr>"

text \<open>The table of the addresses that may fault and where to go on.\<close>

definition find_extable :: "(addr \<times> addr) list \<Rightarrow> addr \<Rightarrow> addr option" where
  "find_extable table ip = map_option snd (List.find (\<lambda>e. fst e = ip) table)"

subsection \<open>The three kinds of faults\<close>

text \<open>
  \<open>load f off\<close> are the bytes \<open>vfs_read\<close> returns after \<open>vfs_lseek\<close>, at most a page, or its error. The
  offset has 64 bits, the argument of \<open>vfs_lseek\<close> 32.
\<close>

definition vm_handle_file ::
    "paging_size list \<Rightarrow> (nat \<Rightarrow> u32 \<Rightarrow> errno + u8 list) \<Rightarrow> addr \<Rightarrow> vm_region \<Rightarrow> addr \<Rightarrow> fault_sys \<Rightarrow> (fault_sys \<times> (errno + unit)) option" where
  "vm_handle_file sizes load root region a s =
     (let page_addr = a AND NOT 0xFFF; offset = (ucast (vr_offset region + ucast (page_addr - vr_start region)) :: u32) in
      case page_alloc 0 0 (mu_zone (fl_mmu s)) of
        (z, None) \<Rightarrow> Some (s\<lparr>fl_mmu := (fl_mmu s)\<lparr>mu_zone := z\<rparr>\<rparr>, Inl ENOMEM)
      | (z, Some p) \<Rightarrow>
          let release = (\<lambda>m. m\<lparr>mu_zone := fst (page_free (Some p) (mu_zone m))\<rparr>); m = (fl_mmu s)\<lparr>mu_zone := z\<rparr> in
          case (case vr_file region of None \<Rightarrow> Inr [] | Some f \<Rightarrow> load f offset) of
            Inl e \<Rightarrow> Some (s\<lparr>fl_mmu := release m, fl_frames := (fl_frames s)(p := replicate 4096 0)\<rparr>, Inl e)
          | Inr content \<Rightarrow>
              let s1 = s\<lparr>fl_mmu := m, fl_frames := (fl_frames s)(p := content @ replicate (4096 - length content) 0)\<rparr> in
              case mmu_mmap sizes root (page_to_phys p) page_addr 0x1000 (vr_mem_flags region) m of
                None \<Rightarrow> None
              | Some (m1, Inl e) \<Rightarrow> Some (s1\<lparr>fl_mmu := release m1\<rparr>, Inl e)
              | Some (m1, Inr _) \<Rightarrow> Some (s1\<lparr>fl_mmu := m1\<rparr>, Inr ()))"

definition vm_handle_stack ::
    "paging_size list \<Rightarrow> addr \<Rightarrow> vm_region \<Rightarrow> addr \<Rightarrow> fault_sys \<Rightarrow> (fault_sys \<times> (errno + unit)) option" where
  "vm_handle_stack sizes root region a s =
     (let page_addr = a AND NOT 0xFFF in
      case page_alloc 1 0 (mu_zone (fl_mmu s)) of
        (z, None) \<Rightarrow> Some (s\<lparr>fl_mmu := (fl_mmu s)\<lparr>mu_zone := z\<rparr>\<rparr>, Inl ENOMEM)
      | (z, Some p) \<Rightarrow>
          let m = (fl_mmu s)\<lparr>mu_zone := z\<rparr>; s1 = s\<lparr>fl_mmu := m, fl_frames := (fl_frames s)(p := replicate 4096 0)\<rparr> in
          case mmu_mmap sizes root (page_to_phys p) page_addr 0x1000 (vr_mem_flags region) m of
            None \<Rightarrow> None
          | Some (m1, Inl e) \<Rightarrow> Some (s1\<lparr>fl_mmu := m1\<lparr>mu_zone := fst (page_free (Some p) (mu_zone m1))\<rparr>\<rparr>, Inl e)
          | Some (m1, Inr _) \<Rightarrow> Some (s1\<lparr>fl_mmu := m1\<rparr>, Inr ()))"

definition vm_handle_cow ::
    "paging_size list \<Rightarrow> addr \<Rightarrow> vm_region \<Rightarrow> addr \<Rightarrow> fault_sys \<Rightarrow> (fault_sys \<times> (errno + unit)) option" where
  "vm_handle_cow sizes root region a s =
     (let page_addr = a AND NOT 0xFFF in
      if page_addr < vr_start region \<or> page_addr \<ge> vr_end region then Some (s, Inl EFAULT)
      else
        let page = phys_to_page (mmu_translate root page_addr (fl_mmu s)) in
        if pg_refcount (pages (mu_zone (fl_mmu s)) page) = 1
        then Some (s\<lparr>fl_mmu := mmu_set_flags root page_addr (vr_mem_flags region) (fl_mmu s)\<rparr>, Inr ())
        else
          case page_alloc 1 0 (mu_zone (fl_mmu s)) of
            (z, None) \<Rightarrow> Some (s\<lparr>fl_mmu := (fl_mmu s)\<lparr>mu_zone := z\<rparr>\<rparr>, Inl ENOMEM)
          | (z, Some p) \<Rightarrow>
              let m = (fl_mmu s)\<lparr>mu_zone := z\<rparr>; s1 = s\<lparr>fl_mmu := m, fl_frames := (fl_frames s)(p := fl_frames s page)\<rparr> in
              case mmu_mmap sizes root (page_to_phys p) page_addr 0x1000 (vr_mem_flags region) m of
                None \<Rightarrow> None
              | Some (m1, Inl e) \<Rightarrow> Some (s1\<lparr>fl_mmu := m1\<lparr>mu_zone := fst (page_free (Some p) (mu_zone m1))\<rparr>\<rparr>, Inl e)
              | Some (m1, Inr _) \<Rightarrow> Some (s1\<lparr>fl_mmu := m1\<lparr>mu_zone := page_put page (mu_zone m1)\<rparr>\<rparr>, Inr ()))"

subsection \<open>The handler\<close>

text \<open>
  How the handler ends: it goes on at an address of the exception table, returns to the faulting
  instruction, panics for a fault of the kernel, or panics with the message of a killed thread, for
  a bad access (no status) or with the status of a handler, which is \<open>-1\<close> when there was none. The
  bits of the error code that are only printed are left out.
\<close>

datatype fault_end = Fixup addr | Resume | Kernel_panic | Killed "int option"

definition check_res :: "(fault_sys \<times> (errno + unit)) option \<Rightarrow> (fault_sys \<times> fault_end) option" where
  "check_res r = map_option (\<lambda>(s, h). (s, case h of Inl e \<Rightarrow> Killed (Some (- errno_val e)) | Inr _ \<Rightarrow> Resume)) r"

text \<open>The current task is its address space; without one there is no task.\<close>

definition page_fault_handler ::
    "paging_size list \<Rightarrow> (nat \<Rightarrow> u32 \<Rightarrow> errno + u8 list) \<Rightarrow> (addr \<times> addr) list \<Rightarrow> addr mm_struct option \<Rightarrow> addr \<Rightarrow> pf_info \<Rightarrow> fault_sys
      \<Rightarrow> (fault_sys \<times> fault_end) option" where
  "page_fault_handler sizes load extable current ip pf s =
     (let kernel = (case find_extable extable ip of Some fixup \<Rightarrow> Some (s, Fixup fixup) | None \<Rightarrow> Some (s, Kernel_panic)) in
      case current of
        None \<Rightarrow> kernel
      | Some mm \<Rightarrow>
          if \<not> pf_user pf then kernel
          else
            case vma_lookup mm (pf_addr pf) of
              None \<Rightarrow> Some (s, Killed None)
            | Some region \<Rightarrow>
                let fl = vr_mem_flags region; a = pf_addr pf;
                    run = (\<lambda>h. case mm_ctx mm of None \<Rightarrow> None | Some root \<Rightarrow> check_res (h root region a s)) in
                if pf_write pf \<and> fl AND MEM_WRITE = 0 then Some (s, Killed None)
                else if \<not> pf_write pf \<and> fl AND MEM_READ = 0 then Some (s, Killed None)
                else if pf_exec pf \<and> fl AND MEM_EXEC = 0 then Some (s, Killed None)
                else if pf_present pf then
                  (if pf_write pf \<and> fl AND MEM_WRITE \<noteq> 0 then run (vm_handle_cow sizes) else Some (s, Killed None))
                else if fl AND MEM_GROWSDOWN \<noteq> 0 then run (vm_handle_stack sizes)
                else if vr_file region \<noteq> None then run (vm_handle_file sizes load)
                else Some (s, Killed (Some (- 1))))"

subsection \<open>Properties\<close>

lemma choose_one_page: "choose_page_size (check_pse pse) (check_pse pse) va 0x1000 = \<lparr>ps_level = 2, ps_order = 0, ps_size = 0x1000, ps_flag = 0\<rparr>"
  by (cases pse) (simp_all add: check_pse_def MAX_ORDER_def)

text \<open>Mapping a page that is mapped already replaces its entry and takes no memory.\<close>

lemma mmap_present:
  assumes "tables_ok root (mu_tbl m)" and "pte_of root va (mu_tbl m) = Some e"
  shows "\<exists>t. mmu_mmap (check_pse pse) root pa va 0x1000 fl m = Some (m\<lparr>mu_tbl := t\<rparr>, Inr ())
    \<and> (\<forall>x. pte_of root x t = (if drop_bit 12 x = drop_bit 12 va then Some (x86_mk_pte pa (mmu_flags_arch fl)) else pte_of root x (mu_tbl m)))"
proof -
  let ?b = "x86_to_virt (mu_tbl m root (paging_index 0 va))" and ?v = "x86_mk_pte pa (mmu_flags_arch fl)"
  let ?t = "set_pte (?b, paging_index 1 va) ?v (mu_tbl m)"
  have leaf: "\<not> x86_leaf (mu_tbl m root i) 0" for i using assms(1) by (simp add: tables_ok_def)
  have pr: "x86_present (mu_tbl m root (paging_index 0 va))" "x86_present (mu_tbl m ?b (paging_index 1 va))"
    using assms(2) leaf by (auto simp: pte_of_def Let_def split: if_splits)
  have w: "walk_create root va 2 0 u m = (m, Some (?b, paging_index 1 va))" for u
    using pr leaf by (simp add: walk_create_def Let_def numeral_2_eq_2)
  have al: "ALIGN_UP 0x1000 0x1000 = (0x1000 :: u32)" using aligned_pages [of 1] by simp
  have "mmap_loop (check_pse pse) root fl va 0x1000 pa va 0x1000 m
      = mmap_loop (check_pse pse) root fl va 0x1000 (pa + 0x1000) (va + 0x1000) 0 (m\<lparr>mu_tbl := ?t\<rparr>)"
    using w by (subst mmap_loop.simps) (simp add: choose_one_page Let_def)
  also have "\<dots> = Some (m\<lparr>mu_tbl := ?t\<rparr>, Inr ())" by (subst mmap_loop.simps) simp
  finally have "mmu_mmap (check_pse pse) root pa va 0x1000 fl m = Some (m\<lparr>mu_tbl := ?t\<rparr>, Inr ())" by (simp add: mmu_mmap_def al)
  then show ?thesis using pte_of_set(1) [OF assms(1) pr(1)] by (intro exI [of _ ?t]) simp
qed

lemma lookup_range: "vma_lookup mm a = Some r \<Longrightarrow> vr_start r \<le> a \<and> a < vr_end r"
proof -
  have "vma_lookup_from a rs = Some r \<Longrightarrow> vr_start r \<le> a \<and> a < vr_end r" for rs
    by (induction rs) (auto split: if_splits)
  then show "vma_lookup mm a = Some r \<Longrightarrow> vr_start r \<le> a \<and> a < vr_end r" by (simp add: vma_lookup_def)
qed

lemma page_of_addr: "drop_bit 12 (a AND NOT 0xFFF) = drop_bit 12 (a :: addr)"
proof -
  have m: "(0xFFF :: addr) = mask 12" by (simp add: mask_eq_exp_minus_1)
  show ?thesis unfolding m
    by (rule bit_word_eqI) (auto simp: bit_drop_bit_eq bit_and_iff bit_not_iff bit_mask_iff dest: bit_imp_le_length simp del: mask_numeral)
qed

lemma pt_ok_alloc:
  assumes "pt_ok root m A" and "page_alloc k 0 (mu_zone m) = (z, Some p)"
  shows "pt_ok root (m\<lparr>mu_zone := z\<rparr>) (insert (p, k) A)" and "p \<in> free_set (mu_zone m)"
proof -
  have own: "page_owned (mu_zone m) A" using assms(1) by (simp add: pt_ok_def)
  have pl: "plain_flags 0" by (simp add: plain_flags_def)
  have g: "get_block k 0 (mu_zone m) = (z, Some (p, k))" using assms(2) by (simp add: get_block_def)
  note get = allocator.get_some [OF page_allocator [OF pl] own g]
  show "p \<in> free_set (mu_zone m)" using get head_in_blk [of p k] by blast
  have "max_pfn_mapped z = max_pfn_mapped (mu_zone m)"
    using page_alloc_from_fields [of k 0 k "mu_zone m" z "Some p"] assms(2) by (simp add: page_alloc_def)
  moreover have "free_set z \<subseteq> free_set (mu_zone m)" "page_owned z (insert (p, k) A)" using get by blast+
  ultimately show "pt_ok root (m\<lparr>mu_zone := z\<rparr>) (insert (p, k) A)" using assms(1) by (auto simp: pt_ok_def)
qed

text \<open>
  C18. A write to a shared page gets its own copy. When a task writes to a page of a writable region
  that others refer to as well, and the allocator has memory, the fault returns to the task; the
  page is then mapped to a new frame with the same contents and the flags of the region, every
  other page is mapped as before, no other frame has changed, and the old frame has lost exactly
  one reference.
\<close>

theorem cow_fault_copies:
  assumes "pt_ok root (fl_mmu s) A" and "mm_ctx mm = Some root" and "vma_lookup mm a = Some region"
    and "vr_start region \<le> a AND NOT 0xFFF" and "vr_mem_flags region AND MEM_WRITE \<noteq> 0"
    and "pte_of root a (mu_tbl (fl_mmu s)) = Some e" and "q = phys_to_page (x86_pte_phys e)"
    and "q \<notin> free_set (mu_zone (fl_mmu s))" and "pg_refcount (pages (mu_zone (fl_mmu s)) q) \<noteq> 1"
    and "page_alloc 1 0 (mu_zone (fl_mmu s)) = (z, Some p)"
  shows "\<exists>s'. page_fault_handler (check_pse pse) load extable (Some mm) ip
        \<lparr>pf_addr = a, pf_present = True, pf_write = True, pf_user = True, pf_exec = False\<rparr> s = Some (s', Resume)
    \<and> p \<noteq> q \<and> pte_of root a (mu_tbl (fl_mmu s')) = Some (x86_mk_pte (page_to_phys p) (mmu_flags_arch (vr_mem_flags region)))
    \<and> (\<forall>x. drop_bit 12 x \<noteq> drop_bit 12 a \<longrightarrow> pte_of root x (mu_tbl (fl_mmu s')) = pte_of root x (mu_tbl (fl_mmu s)))
    \<and> fl_frames s' = (fl_frames s)(p := fl_frames s q)
    \<and> pg_refcount (pages (mu_zone (fl_mmu s')) q) = pg_refcount (pages (mu_zone (fl_mmu s)) q) - 1"
proof -
  define pa where "pa = a AND NOT 0xFFF"
  have pa: "a AND - 4096 = pa" by (simp add: pa_def)
  let ?m = "(fl_mmu s)\<lparr>mu_zone := z\<rparr>" and ?fl = "vr_mem_flags region"
  have pte: "pte_of root pa (mu_tbl (fl_mmu s)) = Some e" using assms(6) pte_of_page [OF page_of_addr [of a]] by (simp add: pa_def)
  have rng: "\<not> (pa < vr_start region \<or> vr_end region \<le> pa)"
    using assms(4) lookup_range [OF assms(3)] word_and_le2 [of a "NOT 0xFFF"] unfolding pa_def by auto
  have page: "phys_to_page (mmu_translate root pa (fl_mmu s)) = q" by (simp add: mmu_translate_pte pte assms(7))
  have ok: "tables_ok root (mu_tbl ?m)" using assms(1) by (simp add: pt_ok_def)
  obtain t where t: "mmu_mmap (check_pse pse) root (page_to_phys p) pa 0x1000 ?fl ?m = Some (?m\<lparr>mu_tbl := t\<rparr>, Inr ())"
    "\<And>x. pte_of root x t = (if drop_bit 12 x = drop_bit 12 pa then Some (x86_mk_pte (page_to_phys p) (mmu_flags_arch ?fl)) else pte_of root x (mu_tbl ?m))"
    using mmap_present [OF ok, of pa e pse "page_to_phys p" ?fl] pte by auto
  let ?s = "s\<lparr>fl_mmu := ?m\<lparr>mu_tbl := t, mu_zone := page_put q z\<rparr>, fl_frames := (fl_frames s)(p := fl_frames s q)\<rparr>"
  have "vm_handle_cow (check_pse pse) root region a s = Some (?s, Inr ())"
    using rng assms(9,10) t(1) page by (simp add: vm_handle_cow_def Let_def pa)
  then have h: "page_fault_handler (check_pse pse) load extable (Some mm) ip
        \<lparr>pf_addr = a, pf_present = True, pf_write = True, pf_user = True, pf_exec = False\<rparr> s = Some (?s, Resume)"
    using assms(2,3,5) by (simp add: page_fault_handler_def check_res_def Let_def)
  have "p \<in> free_set (mu_zone (fl_mmu s))" by (rule pt_ok_alloc(2) [OF assms(1,10)])
  then have pq: "p \<noteq> q" using assms(8) by blast
  have "pages z q = pages (mu_zone (fl_mmu s)) q"
    using page_alloc_from_frame [of 1 0 1 "mu_zone (fl_mmu s)" z "Some p" q] assms(8,10) by (simp add: page_alloc_def)
  moreover have "pg_refcount (pages (page_put q z) q) = pg_refcount (pages z q) - 1" if "pg_refcount (pages z q) \<noteq> 1"
    using that by (simp add: page_put_def Let_def)
  ultimately have "pg_refcount (pages (page_put q z) q) = pg_refcount (pages (mu_zone (fl_mmu s)) q) - 1" using assms(9) by simp
  then show ?thesis using h pq t(2) page_of_addr [of a, folded pa_def] by (intro exI [of _ ?s]) simp
qed

lemma zone_ok_page_get: "zone_inv (page_get p z) A = zone_inv z A" "free_blocks (page_get p z) = free_blocks z"
  "free_set (page_get p z) = free_set z" "max_pfn_mapped (page_get p z) = max_pfn_mapped z" "free_list (page_get p z) = free_list z"
proof -
  let ?z = "page_get p z"
  have f: "free_list ?z = free_list z" "nr_free ?z = nr_free z" "max_pfn_mapped ?z = max_pfn_mapped z" "free_pages ?z = free_pages z"
    "\<And>x. pg_order (pages ?z x) = pg_order (pages z x)" "\<And>x. is_buddy ?z x = is_buddy z x" "\<And>x. pg_flags (pages ?z x) = pg_flags (pages z x)"
    by (simp_all add: page_get_def is_buddy_def)
  then show b: "free_blocks ?z = free_blocks z" "max_pfn_mapped ?z = max_pfn_mapped z" "free_list ?z = free_list z" by (simp_all add: free_blocks_def)
  then show "free_set ?z = free_set z" by (simp add: free_set_def)
  show "zone_inv ?z A = zone_inv z A"
    by (simp add: zone_inv_def zone_core_def lists_ok_def free_heads_ok_def alloc_heads_ok_def free_count_def f b)
qed

text \<open>
  A task with one page shared by two: frame 2000, outside the zone, with two references, mapped
  read-only at the start of a writable region; and the same task with a region of a file.
\<close>

definition demo_fault :: fault_sys where
  "demo_fault = \<lparr>fl_mmu = demo_mapped\<lparr>mu_zone := page_get 2000 (page_get 2000 fresh_zone),
       mu_tbl := (\<lambda>t i. if t = 0xC1001000 \<and> i = 0 then 0x7D0005 else mu_tbl demo_mapped t i)\<rparr>,
     fl_frames = (\<lambda>f. replicate 4096 (of_nat f))\<rparr>"

definition demo_region :: "nat option \<Rightarrow> vm_region" where
  "demo_region f = \<lparr>vr_start = 0x800000, vr_end = 0x802000, vr_mem_flags = MEM_READ OR MEM_WRITE OR MEM_USER, vr_prot_flags = 0, vr_file = f, vr_offset = 0\<rparr>"

definition demo_space :: "nat option \<Rightarrow> addr mm_struct" where
  "demo_space f = \<lparr>mm_ctx = Some 0xC1000000, mm_vma = [demo_region f], mm_brk_start = 0, mm_brk = 0, mm_refcount = 1\<rparr>"

lemma demo_fault_fields:
  "mu_zone (fl_mmu demo_fault) = page_get 2000 (page_get 2000 fresh_zone)"
  "mu_tbl (fl_mmu demo_fault) 0xC1000000 = mu_tbl demo_mapped 0xC1000000"
  by (simp_all add: demo_fault_def)

lemma demo_fault_ok: "pt_ok 0xC1000000 (fl_mmu demo_fault) {}"
proof -
  have z: "mu_zone demo_mapped = fresh_zone" by (simp add: demo_mapped_def demo_mmu_def)
  have own: "page_owned (mu_zone (fl_mmu demo_fault)) {}"
    unfolding demo_fault_fields(1) page_owned_def zone_ok_page_get using fresh_zone_ok by simp
  have "tables_ok 0xC1000000 (mu_tbl (fl_mmu demo_fault))"
    using demo_mmu_ok(2) unfolding pt_ok_def tables_ok_def demo_fault_fields by blast
  then show ?thesis using demo_mmu_ok(2) own unfolding pt_ok_def demo_fault_fields zone_ok_page_get z by blast
qed

lemma demo_fault_alloc: "\<exists>z p. page_alloc k 0 (mu_zone (fl_mmu demo_fault)) = (z, Some p)" if "k \<le> 10"
proof -
  let ?z = "page_get 2000 (page_get 2000 fresh_zone)"
  obtain z r where a: "page_alloc k 0 ?z = (z, r)" by (cases "page_alloc k 0 ?z")
  have ok: "zone_inv ?z {}" "coalesced (free_blocks ?z)" using fresh_zone_ok by (simp_all add: zone_ok_page_get)
  have "r \<noteq> None"
  proof
    assume "r = None"
    then have "\<forall>i\<ge>k. free_list ?z i = []" using page_alloc_spec [OF ok, of 0 k] a by (simp add: plain_flags_def)
    then show False using that by (auto simp: zone_ok_page_get fresh_zone_def dest: spec [of _ 10])
  qed
  then show ?thesis using a by (auto simp: demo_fault_fields)
qed

theorem cow_fault_copies_witness:
  "\<exists>s' p. page_fault_handler (check_pse False) (\<lambda>_ _. Inr []) [] (Some (demo_space None)) 0
        \<lparr>pf_addr = 0x800123, pf_present = True, pf_write = True, pf_user = True, pf_exec = False\<rparr> demo_fault = Some (s', Resume)
    \<and> fl_frames s' p = replicate 4096 (of_nat 2000) \<and> pg_refcount (pages (mu_zone (fl_mmu s')) 2000) = 1"
proof -
  obtain z p where a: "page_alloc 1 0 (mu_zone (fl_mmu demo_fault)) = (z, Some p)" using demo_fault_alloc [of 1] by auto
  have e: "pte_of 0xC1000000 0x800123 (mu_tbl (fl_mmu demo_fault)) = Some 0x7D0005"
    by (simp add: pte_of_def Let_def demo_fault_def demo_mapped_def paging_index_def paging_shift_def
        x86_present_def x86_to_virt_def x86_pte_phys_def x86_leaf_def PAGE_MASK_def PAGE_PSIZE_def PAGE_P_def config_defs)
  have q: "2000 = phys_to_page (x86_pte_phys 0x7D0005)" by (simp add: phys_to_page_def x86_pte_phys_def PAGE_MASK_def config_defs)
  have own: "page_owned fresh_zone {}" using fresh_zone_ok by (simp add: page_owned_def)
  have f: "2000 \<notin> free_set (mu_zone (fl_mmu demo_fault))"
    using free_set_bound [OF own, of 2000] by (auto simp: demo_fault_fields zone_ok_page_get fresh_zone_fields)
  have c: "pg_refcount (pages (mu_zone (fl_mmu demo_fault)) 2000) = 2"
    by (simp add: demo_fault_fields page_get_def fresh_zone_def)
  have l: "mm_ctx (demo_space None) = Some 0xC1000000" "vma_lookup (demo_space None) 0x800123 = Some (demo_region None)"
    "vr_start (demo_region None) \<le> 0x800123 AND NOT 0xFFF" "vr_mem_flags (demo_region None) AND MEM_WRITE \<noteq> 0"
    by (simp_all add: demo_space_def demo_region_def vma_lookup_def MEM_READ_def MEM_WRITE_def MEM_USER_def)
  from cow_fault_copies [OF demo_fault_ok l e q f _ a, of False "\<lambda>_ _. Inr []" "[]" 0] c show ?thesis
    by (auto simp: demo_fault_def)
qed

text \<open>Mapping one page.\<close>

lemma mmap_one:
  assumes "pt_ok root m A"
  shows "\<exists>m' r. mmu_mmap (check_pse False) root pa va 0x1000 fl m = Some (m', r)
    \<and> (\<forall>x. drop_bit 12 x \<noteq> drop_bit 12 va \<longrightarrow> pte_of root x (mu_tbl m') = pte_of root x (mu_tbl m))
    \<and> (case r of Inr _ \<Rightarrow> pte_of root va (mu_tbl m') = Some (x86_mk_pte pa (mmu_flags_arch fl)) | Inl e \<Rightarrow> e = ENOMEM)"
proof -
  have one: "in_pages v 1 x \<longleftrightarrow> drop_bit 12 x = drop_bit 12 v" for v x by (simp add: in_pages_def)
  have al: "ALIGN_UP 0x1000 0x1000 = (0x1000 :: u32)" using aligned_pages [of 1] by simp
  obtain m' r where l: "mmap_loop (check_pse False) root fl va (of_nat 1 * 0x1000) pa va (of_nat 1 * 0x1000) m = Some (m', r)"
    "\<forall>x. \<not> in_pages va 1 x \<longrightarrow> pte_of root x (mu_tbl m') = pte_of root x (mu_tbl m)"
    "case r of
         Inr _ \<Rightarrow> (\<exists>A'. A \<subseteq> A' \<and> pt_ok root m' A')
           \<and> (\<forall>x. \<not> in_pages va 1 x \<longrightarrow> pte_of root x (mu_tbl m') = pte_of root x (mu_tbl m))
           \<and> (\<forall>k<1. pte_of root (page_at va k) (mu_tbl m') = Some (x86_mk_pte (page_at pa k) (mmu_flags_arch fl)))
       | Inl e \<Rightarrow> e = ENOMEM \<and> (\<forall>x. in_pages va 1 x \<longrightarrow> pte_of root x (mu_tbl m') = None
           \<or> 1 = (1 :: nat) \<and> pte_of root x (mu_tbl m') = pte_of root x (mu_tbl m))"
    using mmap_loop_correct [OF assms order_refl, of 1 va va fl pa] by auto
  have "mmu_mmap (check_pse False) root pa va 0x1000 fl m = Some (m', r)" using l(1) by (simp add: mmu_mmap_def al)
  then show ?thesis using l(2,3) one by (intro exI [of _ m'], intro exI [of _ r]) (auto split: sum.splits)
qed

lemma offset_low: "(ucast ((x :: u64) + ucast y) :: u32) = ucast x + y"
proof (rule word_uint_eqI)
  have "uint (ucast (x + ucast y) :: u32) = (uint x + uint y) mod 2 ^ 64 mod 2 ^ 32"
    by (simp add: unsigned_ucast_eq take_bit_eq_mod uint_word_ariths(1) mod_add_right_eq)
  also have "\<dots> = (uint x + uint y) mod 2 ^ 32" by (rule mod_mod_cancel) simp
  also have "\<dots> = (uint x mod 2 ^ 32 + uint y) mod 2 ^ 32" by (rule mod_add_left_eq [symmetric])
  also have "\<dots> = uint (ucast x + y)" by (simp add: unsigned_ucast_eq take_bit_eq_mod uint_word_ariths(1))
  finally show "uint (ucast (x + ucast y) :: u32) = uint (ucast x + y)" .
qed



end
