(* ===== verification/Spec2Isabelle.thy ===== *)
theory Spec2Isabelle
  imports Wey_Errno Wey_List Wey_Div64 Wey_Config Wey_String Wey_Bytes Wey_Memblock Wey_Page Wey_Heap Wey_Vma Wey_Sched Wey_Rw Wey_Ramtree Wey_Ramdata Wey_Initramfs Wey_Clock Wey_E820 Wey_Mmu Wey_Fault
begin

text \<open>
  A verification development of WeyOS, a small preemptive kernel for the i386 written in C (paths
  below are relative to \<open>src/src/\<close>).

  \<^bold>\<open>The program.\<close> After the boot loader has put the kernel in memory, \<open>core/kernel.c\<close> starts the
  parts in turn. \<open>memory/pmm/memblock.c\<close> hands out physical memory from a table of regions;
  \<open>memory/heap/page.c\<close> takes over what is left as a buddy allocator; \<open>slab.c\<close> and \<open>kheap.c\<close> cut its
  pages into objects, and everything else allocates through them. Tasks (\<open>core/sched\<close>, \<open>core/fork.c\<close>)
  own an identifier (\<open>core/pid.c\<close>), an address space (\<open>memory/vmm/vma.c\<close>) and open files. Paths are
  resolved by \<open>fs/path.c\<close> over the operations of a mounted file system, of which \<open>fs/ramfs\<close> is the
  root, filled by \<open>core/initramfs.c\<close> from the archive \<open>lib/cpio.c\<close> reads. User programs reach files
  through \<open>fs/read_write.c\<close>.

  \<^bold>\<open>Conventions of the model.\<close> Machine integers keep their width (\<open>u8\<close>, \<open>u16\<close>, \<open>u32\<close>, \<open>u64\<close>; a
  pointer is an \<open>addr\<close>, 32 bits) and wrap. A result \<open>Inl e\<close> is the C value \<open>-e\<close>. Operations take and
  return the state of their component as a record. \<open>None\<close> as the value of an operation is a run
  that does not come to an end in the source: a panic, a use of a null pointer, an access out of
  bounds, or a loop that does not stop. A memory allocation that may fail is an argument (a truth
  value, an optional object, or the list of the answers to come); so is every function the source
  calls through a pointer. Loops whose end is not obvious are \<open>partial_function (option)\<close> without
  fuel, and that they end is a theorem; the others are functions with a termination measure.

  \<^bold>\<open>The theories.\<close>
  \<^item> \<open>Wey_Prelude\<close>, \<open>Wey_Errno\<close>, \<open>Wey_Config\<close>, \<open>Wey_Bytes\<close>: words, alignment, error codes and error
    pointers, the constants of the address-space layout, little-endian values in memory.
  \<^item> \<open>Wey_List\<close> (\<open>lib/list.c\<close>, \<open>include/lib/list.h\<close>): intrusive lists on a heap of pointers; the
    operations implement those of lists, also when several rings share the heap.
  \<^item> \<open>Wey_Div64\<close> (\<open>lib/div64.c\<close>, \<open>asm/div64.h\<close>) and \<open>Wey_String\<close> (\<open>lib/string.c\<close>): long division;
    copying, comparing and cutting strings in a byte memory.
  \<^item> \<open>Wey_Memblock\<close> (\<open>memory/pmm\<close>): the tables stay sorted and disjoint, a reservation covers
    exactly its range, and an allocation ends and is the first fit.
  \<^item> \<open>Wey_Alloc\<close>: the interface \<open>allocator\<close> of everything that hands out resources, with what its
    clients need; interpreted on the pages of slabs and on the process identifiers.
  \<^item> \<open>Wey_Page\<close> (\<open>memory/heap/page.c\<close>): free and allocated blocks partition the memory and the free
    blocks are merged as far as they can be; every operation keeps this.
  \<^item> \<open>Wey_Slab\<close>, \<open>Wey_Heap\<close> (\<open>slab.c\<close>, \<open>kheap.c\<close>): the free list threaded through the objects of a
    slab, and that no object is handed out twice.
  \<^item> \<open>Wey_Vma\<close> (\<open>memory/vmm/vma.c\<close>): sorted disjoint regions with their file references.
  \<^item> \<open>Wey_Pid\<close>, \<open>Wey_Task\<close>, \<open>Wey_Sched\<close> (\<open>core/pid.c\<close>, \<open>core/sched\<close>, \<open>core/fork.c\<close>): the task state
    machine. \<open>Wey_Sched\<close> makes the operations the steps of an inductive relation and shows an
    invariant of all reachable states, round-robin progress, and the soundness of exit and wait.
  \<^item> \<open>Wey_Vfs\<close> (\<open>fs/path.c\<close>, \<open>namei.c\<close>, \<open>inode.c\<close>, \<open>open.c\<close>, \<open>super.c\<close>, \<open>stat.c\<close>): walking a path. The
    locale \<open>fs_iface\<close> is what a walk needs of a file system; in it the walk computes the
    resolution of the path's components.
  \<^item> \<open>Wey_Ramfs\<close>, \<open>Wey_Ramtree\<close>, \<open>Wey_Ramdata\<close> (\<open>fs/ramfs\<close>): the operations, the directory tree
    (which interprets \<open>fs_iface\<close>) and the contents of files.
  \<^item> \<open>Wey_Rw\<close> (\<open>fs/read_write.c\<close>, \<open>usr/uaccess.c\<close>): the system calls \<open>read\<close> and \<open>write\<close> with copies
    that may fault.
  \<^item> \<open>Wey_Cpio\<close>, \<open>Wey_Initramfs\<close> (\<open>lib/cpio.c\<close>, \<open>core/initramfs.c\<close>): the archive reader stays inside the
    archive, reads what was written, and the unpacking comes to an end.
  \<^item> \<open>Wey_Clock\<close> (\<open>core/clock.c\<close>, \<open>arch/i386/kernel/rtc.c\<close>): the clock does not drift, the date of the
    real-time clock is converted as the calendar says, and reading the chip comes to an end.
  \<^item> \<open>Wey_Sort\<close>: insertion sort of an array as a locale, interpreted on the two copies the kernel has.
  \<^item> \<open>Wey_E820\<close> (\<open>arch/i386/kernel/e820.c\<close>): the memory map of the firmware keeps its bytes when it is
    sorted and joined, within the limit the reused counter sets.
  \<^item> \<open>Wey_Mmu\<close> (\<open>memory/vmm/mmu.c\<close>, \<open>arch/i386/mm/paging.c\<close>): mapping a range changes exactly its
    pages or undoes its work, and a cloned table shares its frames read-only; the page each new
    mapping loses and the range a large page leaves out are shown as well.
  \<^item> \<open>Wey_Fault\<close> (\<open>arch/i386/kernel/fault.c\<close>, \<open>core/extable.c\<close>): a write to a shared page gets a copy, and
    a missing page of a file is read in; both leave the other pages as they are.

  \<^bold>\<open>Flaws.\<close> Where the code does not do what it means to, the model does what the code does and a
  property states the consequence: a full reservation table, an alignment that wraps, sizes near
  4 GiB, a lost first process, a lost wake-up, and counts that the write call reports too large.

  \<^bold>\<open>Bounds.\<close> The sizes are those of the source (32 process identifiers, 11 page orders, 128 regions
  in a table, pages of 4096 bytes). No fuel is used. The examples at which the properties with
  hypotheses are applied are small machines, archives and trees defined next to them.

  \<^bold>\<open>Not modelled.\<close> Locks and interrupt masking: an operation is one step, except where a property
  is about an interleaving. Assembly entry code, the context switch itself, port input and
  output, and the BIOS code of the boot loader have no counterpart in a functional model.
  The page tables, the FAT file system, program loading, the block layer and its drivers, and the
  terminals are not part of the development either.
\<close>

end
